(* ===== verification/Prelude.thy ===== *)
theory Prelude
  imports Main "HOL-Library.Word" "HOL-Library.Sublist"
begin

unbundle bit_operations_syntax

text \<open>
  Shared vocabulary of the development: the integer widths the C++ code uses, the
  outcomes of a C++ statement as values of a sum type, and the list facts that the
  component theories have in common.

  A statement that has undefined behaviour, or that throws, is \<open>Inl e\<close>; a statement
  that completes is \<open>Inr v\<close>.  Sequencing is \<open>bind_res\<close>.  Signed arithmetic is
  performed on \<open>int\<close> and checked by \<open>chk32\<close>; a conversion to \<open>int32_t\<close> keeps
  the low 32 bits (\<open>to_i32\<close>); unsigned values are words.
\<close>

section \<open>Machine types\<close>

type_synonym byte = "8 word"
type_synonym u16 = "16 word"
type_synonym u32 = "32 word"
type_synonym u64 = "64 word"

definition in_i32 :: "int \<Rightarrow> bool" where
  "in_i32 x \<longleftrightarrow> - (2 ^ 31) \<le> x \<and> x < 2 ^ 31"

definition to_i32 :: "int \<Rightarrow> int" where
  "to_i32 x = (x + 2 ^ 31) mod 2 ^ 32 - 2 ^ 31"

section \<open>Outcomes of C++ statements\<close>

datatype c_error =
    NullDeref         \<comment> \<open>a null pointer is dereferenced or handed to stdio\<close>
  | OutOfBounds       \<comment> \<open>an access outside the bounds of its object\<close>
  | UseAfterFree      \<comment> \<open>an access to a block that has been deleted\<close>
  | BadFree           \<comment> \<open>delete[] of something that is not a live block's start\<close>
  | SignedOverflow    \<comment> \<open>signed arithmetic outside the range of its type\<close>
  | Uninitialized     \<comment> \<open>a read of an indeterminate value\<close>
  | AssertionFailed   \<comment> \<open>an \<open>assert\<close> whose condition is false\<close>
  | Diverges          \<comment> \<open>a loop that does not end\<close>
  | BadAlloc          \<comment> \<open>the exception of \<open>new\<close> or of \<open>vector::resize\<close>\<close>

type_synonym 'a res = "c_error + 'a"

definition bind_res :: "'a res \<Rightarrow> ('a \<Rightarrow> 'b res) \<Rightarrow> 'b res" where
  "bind_res m f = (case m of Inl e \<Rightarrow> Inl e | Inr v \<Rightarrow> f v)"

definition chk32 :: "int \<Rightarrow> int res" where
  "chk32 x = (if in_i32 x then Inr x else Inl SignedOverflow)"

named_theorems res_simps \<open>evaluation of sequenced C++ statements\<close>

lemma bind_res_Inl [simp, res_simps]: "bind_res (Inl e) f = Inl e"
  by (simp add: bind_res_def)

lemma bind_res_Inr [simp, res_simps]: "bind_res (Inr v) f = f v"
  by (simp add: bind_res_def)

lemma bind_res_eq_Inr_iff:
  "bind_res m f = Inr y \<longleftrightarrow> (\<exists>x. m = Inr x \<and> f x = Inr y)"
  by (cases m) auto

lemma bind_res_eq_Inl_iff:
  "bind_res m f = Inl e \<longleftrightarrow> m = Inl e \<or> (\<exists>x. m = Inr x \<and> f x = Inl e)"
  by (cases m) auto

lemma bind_res_cong [fundef_cong]:
  "m = m' \<Longrightarrow> (\<And>x. m' = Inr x \<Longrightarrow> f x = f' x) \<Longrightarrow> bind_res m f = bind_res m' f'"
  by (cases m') auto

lemma bind_res_assoc: "bind_res (bind_res m f) g = bind_res m (\<lambda>x. bind_res (f x) g)"
  by (cases m) auto

lemma bind_res_Inr_E [elim]:
  assumes "bind_res m f = Inr y"
  obtains x where "m = Inr x" and "f x = Inr y"
  using assms by (cases m) auto

lemma chk32_ok [simp]: "in_i32 x \<Longrightarrow> chk32 x = Inr x"
  by (simp add: chk32_def)

lemma chk32_Inr_iff [simp]: "chk32 x = Inr y \<longleftrightarrow> y = x \<and> in_i32 x"
  by (auto simp: chk32_def)

lemma in_i32_to_i32 [simp]: "in_i32 (to_i32 x)"
proof -
  have "0 \<le> (x + 2 ^ 31) mod 2 ^ 32" and "(x + 2 ^ 31) mod 2 ^ 32 < (2 ^ 32 :: int)"
    by simp_all
  then show ?thesis by (simp add: in_i32_def to_i32_def)
qed

lemma to_i32_id: "in_i32 x \<Longrightarrow> to_i32 x = x"
  by (simp add: in_i32_def to_i32_def)

section \<open>Words\<close>

lemma unat_two_power: "m < LENGTH('a :: len) \<Longrightarrow> unat (2 ^ m :: 'a word) = 2 ^ m"
  using unat_of_nat [of "2 ^ m", where 'a = 'a] by simp

lemma unat_ucast_up:
  fixes d :: "'a :: len word"
  assumes "LENGTH('a) \<le> LENGTH('b :: len)"
  shows "unat (ucast d :: 'b word) = unat d"
proof -
  have "(2::nat) ^ LENGTH('a) \<le> 2 ^ LENGTH('b)" using assms by simp
  then have "unat d < 2 ^ LENGTH('b)" using unsigned_less [of d] by (metis order_less_le_trans)
  then show ?thesis by (simp add: unsigned_ucast_eq take_bit_nat_eq_self)
qed

lemma ucast_via:
  fixes d :: "'a :: len word"
  assumes "LENGTH('a) \<le> LENGTH('b :: len)"
  shows "ucast (ucast d :: 'b word) = (ucast d :: 'c :: len word)"
  using assms by (intro bit_word_eqI) (auto simp: bit_simps dest: bit_imp_le_length)

lemma unat_drop_bit: "unat (drop_bit k v :: 'a :: len word) = unat v div 2 ^ k"
  by (simp add: unat_drop_bit_eq flip: drop_bit_eq_div)

lemma slice_bit:
  fixes d :: "'a :: len word"
  shows "bit (push_bit m (ucast (ucast (drop_bit m d) :: byte) :: 'a word)) i \<longleftrightarrow>
         m \<le> i \<and> i < m + 8 \<and> bit d i"
  by (cases "m \<le> i") (auto simp: bit_simps dest: bit_imp_le_length)

lemma low_bit:
  fixes d :: "'a :: len word"
  shows "bit (ucast (ucast d :: byte) :: 'a word) i \<longleftrightarrow> i < 8 \<and> bit d i"
  by (auto simp: bit_simps dest: bit_imp_le_length)

text \<open>The simplifier turns the bits of a literal word into those of an integer.\<close>

lemma bit_127: "bit (127 :: int) i \<longleftrightarrow> i < 7"
proof -
  have "bit (127 :: int) i \<longleftrightarrow> bit (mask 7 :: int) i" by (simp add: mask_eq_exp_minus_1)
  also have "\<dots> \<longleftrightarrow> i < 7" unfolding bit_mask_iff by auto
  finally show ?thesis .
qed

lemma bit_128: "bit (128 :: int) i \<longleftrightarrow> i = 7"
proof -
  have "bit (128 :: int) i \<longleftrightarrow> bit (2 ^ 7 :: int) i" by simp
  also have "\<dots> \<longleftrightarrow> i = 7" unfolding bit_exp_iff by auto
  finally show ?thesis .
qed

lemma bit_less_power: "(v :: 'a :: len word) < 2 ^ m \<Longrightarrow> m < LENGTH('a) \<Longrightarrow> bit v i \<Longrightarrow> i < m"
proof (rule ccontr)
  assume v: "v < 2 ^ m" "m < LENGTH('a)" "bit v i" "\<not> i < m"
  then have "unat v < 2 ^ m" by (simp add: word_less_nat_alt unat_two_power)
  then have "take_bit m (unat v) = unat v" by (rule take_bit_nat_eq_self)
  then have "\<not> bit (unat v) i" using v(4) by (metis bit_take_bit_iff)
  then show False using v(3) by (simp add: bit_unsigned_iff)
qed

section \<open>Lists\<close>

text \<open>\<open>write_at xs i ys\<close> overwrites the elements of \<open>xs\<close> from index \<open>i\<close> on:
  the effect of a \<^verbatim>\<open>memcpy\<close> or of a socket read into a buffer.\<close>

definition write_at :: "'a list \<Rightarrow> nat \<Rightarrow> 'a list \<Rightarrow> 'a list" where
  "write_at xs i ys = take i xs @ ys @ drop (i + length ys) xs"

lemma length_write_at [simp]:
  "i + length ys \<le> length xs \<Longrightarrow> length (write_at xs i ys) = length xs"
  by (simp add: write_at_def)

lemma write_at_Nil [simp]: "write_at xs i [] = xs"
  by (simp add: write_at_def)

lemma take_write_at:
  "k \<le> i \<Longrightarrow> i \<le> length xs \<Longrightarrow> take k (write_at xs i ys) = take k xs"
  by (simp add: write_at_def min_def)

lemma take_write_at_end:
  "i + length ys \<le> length xs \<Longrightarrow>
   take (i + length ys) (write_at xs i ys) = take i xs @ ys"
  by (simp add: write_at_def)

lemma nth_write_at:
  assumes "i + length ys \<le> length xs" and "j < length xs"
  shows "write_at xs i ys ! j = (if i \<le> j \<and> j < i + length ys then ys ! (j - i) else xs ! j)"
  using assms by (auto simp: write_at_def nth_append min_def)

end
