(* ===== verification/Platform.thy ===== *)
theory Platform
  imports Prelude
begin

text \<open>
  \<^verbatim>\<open>src/webapp/src/Platform.cpp\<close>: the bounded string-to-integer conversion, and
  the integer-to-string conversion of \<^verbatim>\<open>webapp_str_t::from_number\<close> it is the inverse of
  (\<^verbatim>\<open>snprintf\<close> with \<^verbatim>\<open>"%d"\<close>).

  \<open>strntol src n\<close> reads at most \<open>n\<close> characters from \<open>src\<close>, the characters
  readable from the pointer.  A read past them is \<open>OutOfBounds\<close>; the \<open>int32_t\<close>
  accumulation is checked for signed overflow.
\<close>

section \<open>Digits\<close>

definition isdigit :: "char \<Rightarrow> bool" where
  "isdigit c \<longleftrightarrow> 48 \<le> (of_char c :: nat) \<and> (of_char c :: nat) \<le> 57"

definition digit_val :: "char \<Rightarrow> int" where
  "digit_val c = int (of_char c :: nat) - 48"

definition digit_chr :: "nat \<Rightarrow> char" where
  "digit_chr d = char_of (48 + d)"

section \<open>strntol\<close>

fun strntol_loop :: "string \<Rightarrow> nat \<Rightarrow> int \<Rightarrow> int res" where
  "strntol_loop src 0 x = Inr x"
| "strntol_loop [] (Suc n) x = Inl OutOfBounds"
| "strntol_loop (c # cs) (Suc n) x =
     (if isdigit c
      then bind_res (chk32 (x * 10)) (\<lambda>y.
           bind_res (chk32 (y + digit_val c)) (\<lambda>x'. strntol_loop cs n x'))
      else Inr x)"

definition strntol :: "string \<Rightarrow> nat \<Rightarrow> int res" where
  "strntol src n =
     (if n = 0 then Inr 0
      else case src of
        [] \<Rightarrow> Inl OutOfBounds
      | c # cs \<Rightarrow>
          if c = CHR ''-''
          then bind_res (strntol_loop cs (n - 1) 0) (\<lambda>x. chk32 (x * (-1)))
          else bind_res (strntol_loop src n 0) (\<lambda>x. chk32 (x * 1)))"

section \<open>snprintf of an int\<close>

fun dec_digits :: "nat \<Rightarrow> string" where
  "dec_digits n =
     (if n < 10 then [digit_chr n] else dec_digits (n div 10) @ [digit_chr (n mod 10)])"

declare dec_digits.simps [simp del]

definition snprintf_d :: "int \<Rightarrow> string" where
  "snprintf_d k = (if k < 0 then CHR ''-'' # dec_digits (nat (- k)) else dec_digits (nat k))"

section \<open>Lemmas\<close>

lemma of_char_digit_chr [simp]: "d < 10 \<Longrightarrow> (of_char (digit_chr d) :: nat) = 48 + d"
  by (simp add: digit_chr_def)

lemma isdigit_digit_chr [simp]: "d < 10 \<Longrightarrow> isdigit (digit_chr d)"
  by (simp add: isdigit_def)

lemma digit_val_digit_chr [simp]: "d < 10 \<Longrightarrow> digit_val (digit_chr d) = int d"
  by (simp add: digit_val_def)

lemma digit_val_range: "isdigit c \<Longrightarrow> 0 \<le> digit_val c \<and> digit_val c \<le> 9"
  by (auto simp: isdigit_def digit_val_def)

lemma not_isdigit_minus: "\<not> isdigit (CHR ''-'')"
  by (simp add: isdigit_def)

lemma dec_digits_nonempty [simp]: "dec_digits n \<noteq> []"
  by (subst dec_digits.simps) simp

lemma dec_digits_isdigit: "\<forall>c \<in> set (dec_digits n). isdigit c"
proof (induction n rule: dec_digits.induct)
  case (1 n)
  then show ?case
    by (cases "n < 10") (auto simp: dec_digits.simps [of n])
qed

lemma strntol_loop_dec_digits:
  "int n < 2 ^ 31 \<Longrightarrow>
   strntol_loop (dec_digits n @ rest) (length (dec_digits n) + m) 0 = strntol_loop rest m (int n)"
proof (induction n arbitrary: rest m rule: dec_digits.induct)
  case (1 n)
  show ?case
  proof (cases "n < 10")
    case True
    then show ?thesis by (simp add: dec_digits.simps [of n] in_i32_def)
  next
    case False
    let ?q = "n div 10" and ?r = "n mod 10"
    have q: "int ?q < 2 ^ 31" using "1.prems" by simp
    have n: "int ?q * 10 + int ?r = int n" by presburger
    have "strntol_loop (dec_digits n @ rest) (length (dec_digits n) + m) 0 =
          strntol_loop (dec_digits ?q @ digit_chr ?r # rest) (length (dec_digits ?q) + Suc m) 0"
      using False by (simp add: dec_digits.simps [of n])
    also have "\<dots> = strntol_loop (digit_chr ?r # rest) (Suc m) (int ?q)"
      by (rule "1.IH") (use False q in auto)
    also have "\<dots> = strntol_loop rest m (int n)"
      using "1.prems" n by (simp add: in_i32_def)
    finally show ?thesis .
  qed
qed

lemma strntol_loop_in_i32:
  "strntol_loop src n x = Inr v \<Longrightarrow> in_i32 x \<Longrightarrow> in_i32 v"
  by (induction src n x rule: strntol_loop.induct)
    (auto split: if_splits elim!: bind_res_Inr_E)

lemma strntol_loop_errors:
  "n \<le> length src \<Longrightarrow>
   (\<exists>v. strntol_loop src n x = Inr v) \<or> strntol_loop src n x = Inl SignedOverflow"
  by (induction src n x rule: strntol_loop.induct) (auto simp: chk32_def)

lemma strntol_dec_digits:
  assumes "int n < 2 ^ 31"
  shows "strntol (dec_digits n @ rest) (length (dec_digits n)) = Inr (int n)"
proof -
  obtain c cs where c: "dec_digits n = c # cs" by (cases "dec_digits n") auto
  then have "isdigit c" using dec_digits_isdigit [of n] by auto
  then have "c \<noteq> CHR ''-''" using not_isdigit_minus by auto
  with c strntol_loop_dec_digits [OF assms, of rest 0] assms show ?thesis
    by (auto simp: strntol_def in_i32_def)
qed

text \<open>A decimal rendering of \<open>n < 10 ^ k\<close> has at most \<open>k\<close> digits.\<close>

lemma length_dec_digits: "n < 10 ^ k \<Longrightarrow> 0 < k \<Longrightarrow> length (dec_digits n) \<le> k"
proof (induction k arbitrary: n)
  case 0
  then show ?case by simp
next
  case (Suc k)
  show ?case
  proof (cases "n < 10")
    case True
    then show ?thesis by (simp add: dec_digits.simps [of n])
  next
    case False
    then have "0 < k" using Suc.prems by (cases k) auto
    moreover have "n div 10 < 10 ^ k" using Suc.prems by (simp add: less_mult_imp_div_less mult.commute)
    ultimately have "length (dec_digits (n div 10)) \<le> k" by (rule Suc.IH [rotated])
    then show ?thesis using False by (simp add: dec_digits.simps [of n])
  qed
qed

lemma length_snprintf_d: "in_i32 k \<Longrightarrow> length (snprintf_d k) \<le> 11"
proof -
  assume "in_i32 k"
  then have "\<bar>k\<bar> < 10 ^ 10" by (simp add: in_i32_def abs_less_iff)
  then have "nat \<bar>k\<bar> < 10 ^ 10" by (simp add: nat_less_iff)
  then have "length (dec_digits (nat \<bar>k\<bar>)) \<le> 10" by (rule length_dec_digits) simp
  then show ?thesis by (auto simp: snprintf_d_def)
qed

lemma snprintf_d_nonempty [simp]: "snprintf_d k \<noteq> []"
  by (simp add: snprintf_d_def)

lemma strntol_printed:
  assumes "- (2 ^ 31) < k" and "k < 2 ^ 31"
  shows "strntol (snprintf_d k @ rest) (length (snprintf_d k)) = Inr k"
proof (cases "k < 0")
  case True
  have "strntol_loop (dec_digits (nat (- k)) @ rest) (length (dec_digits (nat (- k)))) 0 = Inr (- k)"
    using strntol_loop_dec_digits [of "nat (- k)" rest 0] True assms by simp
  then show ?thesis using True assms by (simp add: snprintf_d_def strntol_def in_i32_def)
next
  case False
  then show ?thesis using assms strntol_dec_digits [of "nat k" rest] by (simp add: snprintf_d_def)
qed

section \<open>Properties\<close>

text \<open>C10: reading back a printed \<^verbatim>\<open>int\<close> returns it: for every \<^verbatim>\<open>int32_t\<close> but the least,
  \<^verbatim>\<open>strntol\<close> on the text \<^verbatim>\<open>snprintf\<close> wrote, with any bytes behind it, yields the
  number that was printed.\<close>

theorem strntol_snprintf:
  assumes "- (2 ^ 31) < k" and "k < 2 ^ 31"
  shows "strntol (snprintf_d k @ rest) (length (snprintf_d k)) = Inr k"
  using assms by (rule strntol_printed)

theorem strntol_snprintf_witness:
  "- (2 ^ 31) < (-604800 :: int) \<and> (-604800 :: int) < 2 ^ 31 \<and>
   strntol (snprintf_d (-604800) @ ''xyz'') (length (snprintf_d (-604800))) = Inr (-604800)"
  using strntol_snprintf [of "-604800" "''xyz''"] by simp



end
