(* ===== verification/WebappString.thy ===== *)
theory WebappString
  imports Platform
begin

text \<open>
  \<^verbatim>\<open>src/webapp/include/WebappString.h\<close> and \<^verbatim>\<open>src/webapp/src/WebappString.cpp\<close>:
  the counted string \<^verbatim>\<open>webapp_str_t\<close>, which either owns a heap array
  (\<^verbatim>\<open>allocated\<close>) or borrows memory owned elsewhere.

  The memory is explicit: a heap of blocks of bytes, in which a byte may be
  indeterminate (\<open>None\<close>), pointers with an offset into their block, and \<^verbatim>\<open>new[]\<close>,
  \<^verbatim>\<open>delete[]\<close> and \<^verbatim>\<open>memcpy\<close> that fail on a null, dangling or out-of-bounds access.
  A length is the \<^verbatim>\<open>int32_t\<close> of the code; a negative length used as a size is an
  out-of-bounds access (or the exception of \<^verbatim>\<open>new\<close>).  A \<^verbatim>\<open>memcpy\<close> of no bytes
  touches no memory.

  \<open>holds h s bs\<close> is the abstraction: in heap \<open>h\<close> the string \<open>s\<close> denotes the
  characters \<open>bs\<close>.  The lemmas show that every operation refines its list
  counterpart and that ownership is respected: exactly the block an operation
  replaces is freed and exactly the blocks it returns are new.
\<close>

section \<open>Heap\<close>

datatype cptr = Null | Ptr nat nat

record heap =
  blocks :: "nat \<Rightarrow> char option list option"
  next_block :: nat

definition empty_heap :: heap where
  "empty_heap = \<lparr>blocks = (\<lambda>_. None), next_block = 0\<rparr>"

definition live :: "heap \<Rightarrow> nat set" where
  "live h = {b. blocks h b \<noteq> None}"

definition heap_ok :: "heap \<Rightarrow> bool" where
  "heap_ok h \<longleftrightarrow> (\<forall>b \<ge> next_block h. blocks h b = None)"

definition new_chars :: "heap \<Rightarrow> int \<Rightarrow> (heap \<times> nat) res" where
  "new_chars h n =
     (if n < 0 then Inl BadAlloc
      else Inr (h\<lparr>blocks := (blocks h)(next_block h \<mapsto> replicate (nat n) None),
                  next_block := Suc (next_block h)\<rparr>, next_block h))"

definition delete_chars :: "heap \<Rightarrow> cptr \<Rightarrow> heap res" where
  "delete_chars h p =
     (case p of
        Null \<Rightarrow> Inr h
      | Ptr b off \<Rightarrow>
          if off = 0 \<and> blocks h b \<noteq> None then Inr (h\<lparr>blocks := (blocks h)(b := None)\<rparr>)
          else Inl BadFree)"

definition read_mem :: "heap \<Rightarrow> cptr \<Rightarrow> int \<Rightarrow> char option list res" where
  "read_mem h p n =
     (if n = 0 then Inr []
      else if n < 0 then Inl OutOfBounds
      else case p of
        Null \<Rightarrow> Inl NullDeref
      | Ptr b off \<Rightarrow>
          (case blocks h b of
             None \<Rightarrow> Inl UseAfterFree
           | Some blk \<Rightarrow>
               if off + nat n \<le> length blk then Inr (take (nat n) (drop off blk))
               else Inl OutOfBounds))"

definition write_mem :: "heap \<Rightarrow> cptr \<Rightarrow> char option list \<Rightarrow> heap res" where
  "write_mem h p xs =
     (if xs = [] then Inr h
      else case p of
        Null \<Rightarrow> Inl NullDeref
      | Ptr b off \<Rightarrow>
          (case blocks h b of
             None \<Rightarrow> Inl UseAfterFree
           | Some blk \<Rightarrow>
               if off + length xs \<le> length blk
               then Inr (h\<lparr>blocks := (blocks h)(b \<mapsto> write_at blk off xs)\<rparr>)
               else Inl OutOfBounds))"

definition memcpy :: "heap \<Rightarrow> cptr \<Rightarrow> cptr \<Rightarrow> int \<Rightarrow> heap res" where
  "memcpy h dst src n = bind_res (read_mem h src n) (\<lambda>xs. write_mem h dst xs)"

fun strlen_from :: "char option list \<Rightarrow> nat res" where
  "strlen_from [] = Inl OutOfBounds"
| "strlen_from (None # xs) = Inl Uninitialized"
| "strlen_from (Some c # xs) =
     (if c = CHR 0x00 then Inr 0 else bind_res (strlen_from xs) (\<lambda>n. Inr (Suc n)))"

definition strlen :: "heap \<Rightarrow> cptr \<Rightarrow> nat res" where
  "strlen h p =
     (case p of
        Null \<Rightarrow> Inl NullDeref
      | Ptr b off \<Rightarrow>
          (case blocks h b of
             None \<Rightarrow> Inl UseAfterFree
           | Some blk \<Rightarrow> strlen_from (drop off blk)))"

section \<open>webapp\_str\_t\<close>

record webapp_str =
  str_data :: cptr
  str_len :: int
  str_allocated :: bool

definition str_default :: webapp_str where
  "str_default = \<lparr>str_data = Null, str_len = 0, str_allocated = False\<rparr>"

definition str_of_buf :: "heap \<Rightarrow> cptr \<Rightarrow> int \<Rightarrow> (heap \<times> webapp_str) res" where
  "str_of_buf h s n =
     (if s = Null then Inr (h, str_default)
      else bind_res (new_chars h n) (\<lambda>(h1, b).
           bind_res (memcpy h1 (Ptr b 0) s n) (\<lambda>h2.
           Inr (h2, \<lparr>str_data = Ptr b 0, str_len = n, str_allocated = True\<rparr>))))"

definition str_of_size :: "heap \<Rightarrow> int \<Rightarrow> (heap \<times> webapp_str) res" where
  "str_of_size h n =
     bind_res (new_chars h n) (\<lambda>(h1, b).
     Inr (h1, \<lparr>str_data = Ptr b 0, str_len = n, str_allocated = True\<rparr>))"

definition str_of_cstr :: "heap \<Rightarrow> cptr \<Rightarrow> (heap \<times> webapp_str) res" where
  "str_of_cstr h s =
     (if s = Null then Inr (h, str_default)
      else bind_res (strlen h s) (\<lambda>m.
           let n = to_i32 (int m) in
           bind_res (chk32 (n + 1)) (\<lambda>n1.
           bind_res (new_chars h n1) (\<lambda>(h1, b).
           bind_res (memcpy h1 (Ptr b 0) s n1) (\<lambda>h2.
           Inr (h2, \<lparr>str_data = Ptr b 0, str_len = n, str_allocated = True\<rparr>))))))"

text \<open>The constructors from \<^verbatim>\<open>std::string\<close> and from \<^verbatim>\<open>leveldb::Slice\<close> copy
  \<^verbatim>\<open>size()\<close> bytes of the other object.\<close>

definition str_of_string :: "heap \<Rightarrow> string \<Rightarrow> (heap \<times> webapp_str) res" where
  "str_of_string h other =
     (let n = to_i32 (int (length other)) in
      bind_res (new_chars h n) (\<lambda>(h1, b).
      bind_res (write_mem h1 (Ptr b 0) (map Some (take (nat n) other))) (\<lambda>h2.
      Inr (h2, \<lparr>str_data = Ptr b 0, str_len = n, str_allocated = True\<rparr>))))"

definition str_alias :: "webapp_str option \<Rightarrow> webapp_str" where
  "str_alias other =
     (case other of
        None \<Rightarrow> str_default
      | Some s \<Rightarrow> \<lparr>str_data = str_data s, str_len = str_len s, str_allocated = False\<rparr>)"

definition str_copy :: "heap \<Rightarrow> webapp_str \<Rightarrow> (heap \<times> webapp_str) res" where
  "str_copy h other =
     bind_res (new_chars h (str_len other)) (\<lambda>(h1, b).
     bind_res (memcpy h1 (Ptr b 0) (str_data other) (str_len other)) (\<lambda>h2.
     Inr (h2, \<lparr>str_data = Ptr b 0, str_len = str_len other, str_allocated = True\<rparr>)))"

definition str_destroy :: "heap \<Rightarrow> webapp_str \<Rightarrow> heap res" where
  "str_destroy h s = (if str_allocated s then delete_chars h (str_data s) else Inr h)"

definition str_to_string :: "heap \<Rightarrow> webapp_str \<Rightarrow> char option list res" where
  "str_to_string h s = read_mem h (str_data s) (str_len s)"

definition str_append :: "heap \<Rightarrow> webapp_str \<Rightarrow> webapp_str \<Rightarrow> (heap \<times> webapp_str) res" where
  "str_append h s other =
     (if str_len other > 0
      then bind_res (chk32 (str_len s + str_len other)) (\<lambda>newlen.
           bind_res (new_chars h newlen) (\<lambda>(h1, r).
           bind_res (memcpy h1 (Ptr r 0) (str_data s) (str_len s)) (\<lambda>h2.
           bind_res (memcpy h2 (Ptr r (nat (str_len s))) (str_data other) (str_len other)) (\<lambda>h3.
           bind_res (str_destroy h3 s) (\<lambda>h4.
           Inr (h4, \<lparr>str_data = Ptr r 0, str_len = newlen, str_allocated = True\<rparr>))))))
      else Inr (h, s))"

text \<open>\<open>same\<close> says whether \<^verbatim>\<open>this\<close> and \<^verbatim>\<open>&other\<close> are the same object.\<close>

definition str_assign ::
  "heap \<Rightarrow> bool \<Rightarrow> webapp_str \<Rightarrow> webapp_str \<Rightarrow> (heap \<times> webapp_str) res" where
  "str_assign h same s other =
     (if \<not> same
      then bind_res (new_chars h (str_len other)) (\<lambda>(h1, r).
           bind_res (memcpy h1 (Ptr r 0) (str_data other) (str_len other)) (\<lambda>h2.
           bind_res (str_destroy h2 s) (\<lambda>h3.
           Inr (h3, \<lparr>str_data = Ptr r 0, str_len = str_len other, str_allocated = True\<rparr>))))
      else Inr (h, s))"

definition str_plus :: "heap \<Rightarrow> webapp_str \<Rightarrow> webapp_str \<Rightarrow> (heap \<times> webapp_str) res" where
  "str_plus h w1 w2 = bind_res (str_copy h w1) (\<lambda>(h1, n). str_append h1 n w2)"

text \<open>The overloads that take a C string build a temporary, add, and destroy the
  temporary at the end of the full expression.\<close>

definition str_plus_cstr_left ::
  "heap \<Rightarrow> cptr \<Rightarrow> webapp_str \<Rightarrow> (heap \<times> webapp_str) res" where
  "str_plus_cstr_left h lhs rhs =
     bind_res (str_of_cstr h lhs) (\<lambda>(h1, tmp).
     bind_res (str_plus h1 tmp rhs) (\<lambda>(h2, n).
     bind_res (str_destroy h2 tmp) (\<lambda>h3. Inr (h3, n))))"

definition str_plus_cstr_right ::
  "heap \<Rightarrow> webapp_str \<Rightarrow> cptr \<Rightarrow> (heap \<times> webapp_str) res" where
  "str_plus_cstr_right h lhs rhs =
     bind_res (str_of_cstr h rhs) (\<lambda>(h1, tmp).
     bind_res (str_plus h1 lhs tmp) (\<lambda>(h2, n).
     bind_res (str_destroy h2 tmp) (\<lambda>h3. Inr (h3, n))))"

text \<open>\<^verbatim>\<open>snprintf(data, 21, "%d", num)\<close> stores at most 20 characters and a NUL and
  returns the untruncated length.\<close>

definition str_from_number :: "heap \<Rightarrow> webapp_str \<Rightarrow> int \<Rightarrow> (heap \<times> webapp_str) res" where
  "str_from_number h s num =
     bind_res (str_destroy h s) (\<lambda>h1.
     bind_res (new_chars h1 21) (\<lambda>(h2, b).
     bind_res (write_mem h2 (Ptr b 0)
                (map Some (take 20 (snprintf_d num) @ [CHR 0x00]))) (\<lambda>h3.
     Inr (h3, \<lparr>str_data = Ptr b 0, str_len = int (length (snprintf_d num)),
               str_allocated = True\<rparr>))))"

definition tolower :: "char \<Rightarrow> char" where
  "tolower c =
     (if 65 \<le> (of_char c :: nat) \<and> (of_char c :: nat) \<le> 90
      then char_of ((of_char c :: nat) + 32) else c)"

fun to_lower_loop :: "char option list \<Rightarrow> char option list res" where
  "to_lower_loop [] = Inr []"
| "to_lower_loop (None # xs) = Inl Uninitialized"
| "to_lower_loop (Some c # xs) = bind_res (to_lower_loop xs) (\<lambda>ys. Inr (Some (tolower c) # ys))"

definition str_to_lower :: "heap \<Rightarrow> webapp_str \<Rightarrow> heap res" where
  "str_to_lower h s =
     (if str_len s \<le> 0 then Inr h
      else bind_res (read_mem h (str_data s) (str_len s)) (\<lambda>xs.
           bind_res (to_lower_loop xs) (\<lambda>ys.
           write_mem h (str_data s) ys)))"

fun strncmp_eq :: "char option list \<Rightarrow> char option list \<Rightarrow> bool res" where
  "strncmp_eq [] _ = Inr True"
| "strncmp_eq _ [] = Inr True"
| "strncmp_eq (None # _) (_ # _) = Inl Uninitialized"
| "strncmp_eq (Some _ # _) (None # _) = Inl Uninitialized"
| "strncmp_eq (Some c # xs) (Some d # ys) =
     (if c \<noteq> d then Inr False else if c = CHR 0x00 then Inr True else strncmp_eq xs ys)"

fun ptr_add :: "cptr \<Rightarrow> int \<Rightarrow> cptr" where
  "ptr_add Null n = Null"
| "ptr_add (Ptr b off) n = Ptr b (nat (int off + n))"

definition str_endsWith :: "heap \<Rightarrow> webapp_str \<Rightarrow> webapp_str \<Rightarrow> bool res" where
  "str_endsWith h s other =
     (if str_len other > str_len s then Inr False
      else bind_res (read_mem h (ptr_add (str_data s) (str_len s - str_len other))
                       (str_len other)) (\<lambda>xs.
           bind_res (read_mem h (str_data other) (str_len other)) (\<lambda>ys.
           strncmp_eq xs ys)))"

section \<open>Abstraction and ownership\<close>

definition holds :: "heap \<Rightarrow> webapp_str \<Rightarrow> string \<Rightarrow> bool" where
  "holds h s bs \<longleftrightarrow>
     str_len s = int (length bs) \<and>
     (bs \<noteq> [] \<longrightarrow>
       (\<exists>b off blk. str_data s = Ptr b off \<and> blocks h b = Some blk \<and>
          off + length bs \<le> length blk \<and> take (length bs) (drop off blk) = map Some bs))"

definition cstring :: "heap \<Rightarrow> cptr \<Rightarrow> string \<Rightarrow> bool" where
  "cstring h p bs \<longleftrightarrow>
     (\<exists>b off blk rest. p = Ptr b off \<and> blocks h b = Some blk \<and>
        drop off blk = map Some bs @ Some (CHR 0x00) # rest) \<and>
     CHR 0x00 \<notin> set bs \<and> int (length bs) < 2 ^ 31 - 1"

text \<open>An owning string points at the start of a live block.\<close>

definition str_wf :: "heap \<Rightarrow> webapp_str \<Rightarrow> bool" where
  "str_wf h s \<longleftrightarrow> (str_allocated s \<longrightarrow> (\<exists>b. str_data s = Ptr b 0 \<and> b \<in> live h))"

definition owned :: "webapp_str \<Rightarrow> nat set" where
  "owned s = (if str_allocated s then (case str_data s of Null \<Rightarrow> {} | Ptr b _ \<Rightarrow> {b}) else {})"

text \<open>\<open>fresh_result h h' s bs\<close>: going from \<open>h\<close> to \<open>h'\<close>, exactly one block was
  allocated, \<open>s\<close> owns it and holds \<open>bs\<close>, and no block of \<open>h\<close> was touched.\<close>

definition fresh_result :: "heap \<Rightarrow> heap \<Rightarrow> webapp_str \<Rightarrow> string \<Rightarrow> bool" where
  "fresh_result h h' s bs \<longleftrightarrow>
     heap_ok h' \<and> holds h' s bs \<and>
     (\<exists>r. str_data s = Ptr r 0 \<and> str_allocated s \<and> r \<notin> live h \<and>
        live h' = insert r (live h) \<and> (\<forall>b \<in> live h. blocks h' b = blocks h b))"

named_theorems str_defs \<open>definitions of the string and memory operations\<close>

lemmas [str_defs] =
  new_chars_def delete_chars_def read_mem_def write_mem_def memcpy_def live_def heap_ok_def

lemma write_at_full [simp]: "length ys = length xs \<Longrightarrow> write_at xs 0 ys = ys"
  by (simp add: write_at_def)

lemma write_at_replicate_left:
  "length ys \<le> n \<Longrightarrow> write_at (replicate n x) 0 ys = ys @ replicate (n - length ys) x"
  by (simp add: write_at_def)

lemma write_at_append_right:
  "length ys = length zs \<Longrightarrow> i = length xs \<Longrightarrow> write_at (xs @ zs) i ys = xs @ ys"
  by (simp add: write_at_def)

text \<open>\<open>push h xs\<close>: the heap after allocating a block and filling it with \<open>xs\<close>.\<close>

definition push :: "heap \<Rightarrow> char option list \<Rightarrow> heap" where
  "push h xs = h\<lparr>blocks := (blocks h)(next_block h \<mapsto> xs), next_block := Suc (next_block h)\<rparr>"

definition fresh_str :: "heap \<Rightarrow> string \<Rightarrow> webapp_str" where
  "fresh_str h bs =
     \<lparr>str_data = Ptr (next_block h) 0, str_len = int (length bs), str_allocated = True\<rparr>"

lemma new_chars_push: "0 \<le> n \<Longrightarrow> new_chars h n = Inr (push h (replicate (nat n) None), next_block h)"
  by (simp add: new_chars_def push_def)

lemma push_sel [simp]:
  "blocks (push h xs) = (blocks h)(next_block h \<mapsto> xs)"
  "next_block (push h xs) = Suc (next_block h)"
  by (simp_all add: push_def)

lemma heap_ok_push [simp]: "heap_ok h \<Longrightarrow> heap_ok (push h xs)"
  by (auto simp: heap_ok_def)

lemma heap_ok_fresh [simp]: "heap_ok h \<Longrightarrow> blocks h (next_block h) = None"
  by (simp add: heap_ok_def)

lemma live_push: "live (push h xs) = insert (next_block h) (live h)"
  by (auto simp: live_def)

lemma write_push:
  "off + length ys \<le> length xs \<Longrightarrow>
   write_mem (push h xs) (Ptr (next_block h) off) ys = Inr (push h (write_at xs off ys))"
  by (simp add: write_mem_def push_def)

lemma read_holds: "holds h s bs \<Longrightarrow> read_mem h (str_data s) (str_len s) = Inr (map Some bs)"
  by (cases "bs = []") (auto simp: holds_def read_mem_def)

text \<open>A string keeps its value as long as the blocks it may point into are kept.\<close>

lemma holds_frame:
  assumes "holds h s bs" and "\<forall>b \<in> live h. blocks h' b = blocks h b"
  shows "holds h' s bs"
proof (cases "bs = []")
  case True
  then show ?thesis using assms(1) by (simp add: holds_def)
next
  case False
  with assms(1) obtain b off blk where b: "str_data s = Ptr b off" "blocks h b = Some blk"
    "off + length bs \<le> length blk" "take (length bs) (drop off blk) = map Some bs"
    and n: "str_len s = int (length bs)"
    by (auto simp: holds_def)
  moreover have "blocks h' b = Some blk" using assms(2) b(2) by (simp add: live_def)
  ultimately show ?thesis by (simp add: holds_def)
qed

lemma push_frame: "heap_ok h \<Longrightarrow> b \<in> live h \<Longrightarrow> blocks (push h xs) b = blocks h b"
  by (auto simp: live_def)

lemma holds_push [simp]: "heap_ok h \<Longrightarrow> holds h s bs \<Longrightarrow> holds (push h xs) s bs"
  by (erule holds_frame) (simp add: push_frame del: push_sel)

lemma holds_fresh [simp]: "holds (push h (map Some bs @ rest)) (fresh_str h bs) bs"
  by (simp add: holds_def fresh_str_def)

lemma holds_fresh' [simp]: "holds (push h (map Some bs)) (fresh_str h bs) bs"
  using holds_fresh [of h bs "[]"] by simp

lemma fresh_result_push:
  "heap_ok h \<Longrightarrow> fresh_result h (push h (map Some bs @ rest)) (fresh_str h bs) bs"
  by (auto simp: fresh_result_def fresh_str_def holds_def live_def)

lemma fresh_result_push' [simp]:
  "heap_ok h \<Longrightarrow> fresh_result h (push h (map Some bs)) (fresh_str h bs) bs"
  using fresh_result_push [of h bs "[]"] by simp

section \<open>Constructors and destructor\<close>

lemma str_of_cstr_push:
  assumes "cstring h p bs" and "heap_ok h"
  shows "str_of_cstr h p = Inr (push h (map Some (bs @ [CHR 0x00])), fresh_str h bs)"
proof -
  have sl: "strlen_from (map Some xs @ Some (CHR 0x00) # rest) = Inr (length xs)"
    if "CHR 0x00 \<notin> set xs" for xs :: string and rest
    using that by (induction xs) auto
  from assms(1) obtain b off blk rest where
    p: "p = Ptr b off" "blocks h b = Some blk"
    and d: "drop off blk = map Some bs @ Some (CHR 0x00) # rest"
    and nz: "CHR 0x00 \<notin> set bs" and n: "int (length bs) < 2 ^ 31 - 1"
    by (auto simp: cstring_def)
  have "b \<noteq> next_block h" using p assms(2) by (auto simp: heap_ok_def)
  moreover have "length (drop off blk) = length bs + 1 + length rest" by (simp add: d)
  then have "off + (length bs + 1) \<le> length blk" by simp
  moreover have "to_i32 (int (length bs)) = int (length bs)"
    using n by (simp add: to_i32_id in_i32_def)
  moreover have "nat (int (length bs) + 1) = Suc (length bs)" by simp
  ultimately show ?thesis
    using p d n nz sl [OF nz]
    by (simp add: str_of_cstr_def strlen_def new_chars_push memcpy_def read_mem_def
        in_i32_def write_push fresh_str_def)
qed

lemma str_copy_push:
  assumes "heap_ok h" and "holds h s bs"
  shows "str_copy h s = Inr (push h (map Some bs), fresh_str h bs)"
proof -
  have n: "str_len s = int (length bs)" using assms(2) by (simp add: holds_def)
  have "holds (push h (replicate (length bs) None)) s bs" using assms by simp
  from read_holds [OF this] show ?thesis
    by (simp add: str_copy_def n new_chars_push memcpy_def write_push fresh_str_def)
qed

lemma str_of_string_push:
  assumes "in_i32 (int (length bs))"
  shows "str_of_string h bs = Inr (push h (map Some bs), fresh_str h bs)"
  using assms
  by (simp add: str_of_string_def to_i32_id new_chars_push write_push fresh_str_def)

text \<open>The destructor frees the block a fresh string owns and nothing else.\<close>

lemma fresh_result_destroy:
  assumes "fresh_result h h' s bs"
  shows "\<exists>h''. str_destroy h' s = Inr h'' \<and> blocks h'' = blocks h"
proof -
  from assms obtain r where r: "str_data s = Ptr r 0" "str_allocated s" "r \<notin> live h"
    and l: "live h' = insert r (live h)" and f: "\<forall>b \<in> live h. blocks h' b = blocks h b"
    by (auto simp: fresh_result_def)
  have "((blocks h')(r := None)) b = blocks h b" for b
  proof (cases "b \<in> insert r (live h)")
    case True
    then show ?thesis using r(3) f by (auto simp: live_def)
  next
    case False
    then have "b \<notin> live h'" using l by simp
    then show ?thesis using False by (simp add: live_def)
  qed
  moreover have "blocks h' r \<noteq> None" using l by (auto simp: live_def)
  ultimately show ?thesis
    using r by (auto simp: str_destroy_def delete_chars_def)
qed

section \<open>Concatenation and assignment\<close>

text \<open>\<open>release h s\<close>: the heap after the destructor of a well-formed \<open>s\<close>.\<close>

definition release :: "heap \<Rightarrow> webapp_str \<Rightarrow> heap" where
  "release h s = h\<lparr>blocks := (\<lambda>b. if b \<in> owned s then None else blocks h b)\<rparr>"

lemma str_destroy_release: "str_wf h s \<Longrightarrow> str_destroy h s = Inr (release h s)"
  by (auto simp: str_wf_def str_destroy_def delete_chars_def release_def owned_def live_def
      fun_eq_iff)

lemma release_sel [simp]:
  "blocks (release h s) b = (if b \<in> owned s then None else blocks h b)"
  "next_block (release h s) = next_block h"
  by (simp_all add: release_def)

lemma heap_ok_release [simp]: "heap_ok h \<Longrightarrow> heap_ok (release h s)"
  by (auto simp: heap_ok_def)

lemma str_wf_push [simp]: "str_wf h s \<Longrightarrow> str_wf (push h xs) s"
  by (auto simp: str_wf_def live_push)

lemma owned_live: "str_wf h s \<Longrightarrow> owned s \<subseteq> live h"
  by (auto simp: str_wf_def owned_def)

lemma str_wf_fresh [simp]: "str_wf (push h xs) (fresh_str h bs)"
  by (simp add: str_wf_def fresh_str_def live_push)

lemma owned_fresh [simp]: "owned (fresh_str h bs) = {next_block h}"
  by (simp add: owned_def fresh_str_def)

lemma str_append_push:
  assumes h: "heap_ok h" and wf: "str_wf h s" and s: "holds h s as" and t: "holds h t bs"
    and ne: "bs \<noteq> []" and fits: "in_i32 (int (length as) + int (length bs))"
  shows "str_append h s t =
    Inr (release (push h (map Some (as @ bs))) s, fresh_str h (as @ bs))"
proof -
  let ?n = "length as + length bs"
  let ?h1 = "push h (replicate ?n None)"
  let ?h2 = "push h (map Some as @ replicate (length bs) None)"
  have ls: "str_len s = int (length as)" and lt: "str_len t = int (length bs)"
    using s t by (simp_all add: holds_def)
  have "holds ?h1 s as" and "holds ?h2 t bs" using h s t by simp_all
  note r = this [THEN read_holds, unfolded ls lt]
  have w1: "memcpy ?h1 (Ptr (next_block h) 0) (str_data s) (int (length as)) = Inr ?h2"
    using r(1) by (simp add: memcpy_def write_push write_at_replicate_left)
  have w2: "memcpy ?h2 (Ptr (next_block h) (length as)) (str_data t) (int (length bs)) =
    Inr (push h (map Some (as @ bs)))"
    using r(2) by (simp add: memcpy_def write_push write_at_append_right)
  have d: "str_destroy (push h (map Some (as @ bs))) s =
    Inr (release (push h (map Some (as @ bs))) s)"
    by (rule str_destroy_release) (simp add: wf)
  have na: "nat (int (length as) + int (length bs)) = ?n" by simp
  show ?thesis
    using ne fits
    by (simp add: str_append_def ls lt new_chars_push na w1 w2 [simplified] d [simplified] fresh_str_def)
qed

lemma str_append_empty: "holds h t [] \<Longrightarrow> str_append h s t = Inr (h, s)"
  by (simp add: str_append_def holds_def)

lemma str_assign_push:
  assumes h: "heap_ok h" and wf: "str_wf h s" and t: "holds h t bs"
  shows "str_assign h False s t = Inr (release (push h (map Some bs)) s, fresh_str h bs)"
proof -
  have n: "str_len t = int (length bs)" using t by (simp add: holds_def)
  have "holds (push h (replicate (length bs) None)) t bs" using h t by simp
  from read_holds [OF this] show ?thesis
    using str_destroy_release [OF str_wf_push [OF wf, of "map Some bs"]]
    by (simp add: str_assign_def n new_chars_push memcpy_def write_push fresh_str_def)
qed

lemma fresh_result_trans:
  assumes "fresh_result h h1 s as" and "fresh_result h1 h2 t bs" and "heap_ok h"
  shows "fresh_result h (release h2 s) t bs"
proof -
  from assms(1) obtain r where r: "str_data s = Ptr r 0" "str_allocated s" "r \<notin> live h"
    "live h1 = insert r (live h)" "\<forall>b \<in> live h. blocks h1 b = blocks h b"
    by (auto simp: fresh_result_def)
  from assms(2) obtain q where q: "str_data t = Ptr q 0" "str_allocated t" "q \<notin> live h1"
    "live h2 = insert q (live h1)" "\<forall>b \<in> live h1. blocks h2 b = blocks h1 b"
    and ok: "heap_ok h2" and t: "holds h2 t bs"
    by (auto simp: fresh_result_def)
  have o: "owned s = {r}" using r by (simp add: owned_def)
  have "live (release h2 s) = insert q (live h)"
    using r q o by (auto simp: live_def)
  moreover have "\<forall>b \<in> live h. blocks (release h2 s) b = blocks h b"
    using r q o by auto
  moreover have "holds (release h2 s) t bs"
    using t q r o by (auto simp: holds_def)
  ultimately show ?thesis
    using ok q r by (auto simp: fresh_result_def)
qed

text \<open>\<^verbatim>\<open>w1 + w2\<close>: one new block, whatever the lengths.\<close>

lemma str_plus_fresh:
  assumes h: "heap_ok h" and a: "holds h w1 as" and b: "holds h w2 bs"
    and fits: "in_i32 (int (length as) + int (length bs))"
  shows "\<exists>h' n. str_plus h w1 w2 = Inr (h', n) \<and> fresh_result h h' n (as @ bs)"
proof (cases "bs = []")
  case True
  then show ?thesis
    using h a b by (simp add: str_plus_def str_copy_push str_append_empty)
next
  case False
  let ?h1 = "push h (map Some as)"
  have h1: "heap_ok ?h1" and b1: "holds ?h1 w2 bs" using h b by simp_all
  have "str_plus h w1 w2 =
    Inr (release (push ?h1 (map Some (as @ bs))) (fresh_str h as), fresh_str ?h1 (as @ bs))"
    using str_append_push [OF h1 str_wf_fresh holds_fresh' b1 False fits]
    by (simp add: str_plus_def str_copy_push [OF h a])
  moreover have "fresh_result h (release (push ?h1 (map Some (as @ bs))) (fresh_str h as))
      (fresh_str ?h1 (as @ bs)) (as @ bs)"
    by (rule fresh_result_trans [OF fresh_result_push' [OF h] fresh_result_push' [OF h1] h])
  ultimately show ?thesis by blast
qed

lemma fresh_result_wf: "fresh_result h h' s bs \<Longrightarrow> str_wf h' s"
  by (auto simp: fresh_result_def str_wf_def)

lemma str_wf_mono: "str_wf h s \<Longrightarrow> live h \<subseteq> live h' \<Longrightarrow> str_wf h' s"
  by (auto simp: str_wf_def)

lemma fresh_result_live: "fresh_result h h' s bs \<Longrightarrow> live h \<subseteq> live h'"
  by (auto simp: fresh_result_def)

lemma str_plus_cstr_left_fresh:
  assumes h: "heap_ok h" and l: "cstring h lhs as" and r: "holds h rhs bs"
    and fits: "in_i32 (int (length as) + int (length bs))"
  shows "\<exists>h' n. str_plus_cstr_left h lhs rhs = Inr (h', n) \<and> fresh_result h h' n (as @ bs)"
proof -
  let ?h1 = "push h (map Some (as @ [CHR 0x00]))" and ?t = "fresh_str h as"
  have f1: "fresh_result h ?h1 ?t as" using fresh_result_push [OF h, of as "[Some (CHR 0x00)]"] by simp
  have t: "holds ?h1 ?t as" using holds_fresh [of h as "[Some (CHR 0x00)]"] by simp
  have h1: "heap_ok ?h1" and r1: "holds ?h1 rhs bs" using h r by simp_all
  from str_plus_fresh [OF h1 t r1 fits] obtain h2 n where
    p: "str_plus ?h1 ?t rhs = Inr (h2, n)" and f2: "fresh_result ?h1 h2 n (as @ bs)"
    by blast
  have "str_wf h2 ?t"
    using fresh_result_wf [OF f1] fresh_result_live [OF f2] by (rule str_wf_mono)
  then have "str_destroy h2 ?t = Inr (release h2 ?t)" by (rule str_destroy_release)
  with p have "str_plus_cstr_left h lhs rhs = Inr (release h2 ?t, n)"
    by (simp add: str_plus_cstr_left_def str_of_cstr_push [OF l h])
  with fresh_result_trans [OF f1 f2 h] show ?thesis by blast
qed

lemma str_plus_cstr_right_fresh:
  assumes h: "heap_ok h" and l: "holds h lhs as" and r: "cstring h rhs bs"
    and fits: "in_i32 (int (length as) + int (length bs))"
  shows "\<exists>h' n. str_plus_cstr_right h lhs rhs = Inr (h', n) \<and> fresh_result h h' n (as @ bs)"
proof -
  let ?h1 = "push h (map Some (bs @ [CHR 0x00]))" and ?t = "fresh_str h bs"
  have f1: "fresh_result h ?h1 ?t bs" using fresh_result_push [OF h, of bs "[Some (CHR 0x00)]"] by simp
  have t: "holds ?h1 ?t bs" using holds_fresh [of h bs "[Some (CHR 0x00)]"] by simp
  have h1: "heap_ok ?h1" and l1: "holds ?h1 lhs as" using h l by simp_all
  from str_plus_fresh [OF h1 l1 t fits] obtain h2 n where
    p: "str_plus ?h1 lhs ?t = Inr (h2, n)" and f2: "fresh_result ?h1 h2 n (as @ bs)"
    by blast
  have "str_wf h2 ?t"
    using fresh_result_wf [OF f1] fresh_result_live [OF f2] by (rule str_wf_mono)
  then have "str_destroy h2 ?t = Inr (release h2 ?t)" by (rule str_destroy_release)
  with p have "str_plus_cstr_right h lhs rhs = Inr (release h2 ?t, n)"
    by (simp add: str_plus_cstr_right_def str_of_cstr_push [OF r h])
  with fresh_result_trans [OF f1 f2 h] show ?thesis by blast
qed

section \<open>Numbers, case, suffixes\<close>

lemma str_from_number_push:
  assumes wf: "str_wf h s" and k: "in_i32 k"
  shows "str_from_number h s k =
    Inr (push (release h s)
          (map Some (snprintf_d k) @
           Some (CHR 0x00) # replicate (20 - length (snprintf_d k)) None),
         fresh_str (release h s) (snprintf_d k))"
proof -
  have n: "length (snprintf_d k) \<le> 11" using k by (rule length_snprintf_d)
  then have "take 20 (snprintf_d k) = snprintf_d k" by simp
  moreover have "write_at (replicate 21 None) 0 (map Some (snprintf_d k @ [CHR 0x00])) =
    map Some (snprintf_d k) @ Some (CHR 0x00) # replicate (20 - length (snprintf_d k)) None"
    using n by (subst write_at_replicate_left) auto
  ultimately show ?thesis
    using str_destroy_release [OF wf] n
    by (simp add: str_from_number_def new_chars_push write_push fresh_str_def)
qed

lemma to_lower_loop_Some [simp]: "to_lower_loop (map Some bs) = Inr (map (Some \<circ> tolower) bs)"
  by (induction bs) auto

lemma str_to_lower_holds:
  assumes "holds h s bs"
  shows "\<exists>h'. str_to_lower h s = Inr h' \<and> holds h' s (map tolower bs) \<and> live h' = live h"
proof (cases "bs = []")
  case True
  then show ?thesis using assms by (simp add: str_to_lower_def holds_def)
next
  case False
  with assms obtain b off blk where b: "str_data s = Ptr b off" "blocks h b = Some blk"
    "off + length bs \<le> length blk" and n: "str_len s = int (length bs)"
    by (auto simp: holds_def)
  let ?xs = "map (Some \<circ> tolower) bs"
  let ?h = "h\<lparr>blocks := (blocks h)(b \<mapsto> write_at blk off ?xs)\<rparr>"
  have "str_to_lower h s = Inr ?h"
    using False b n read_holds [OF assms] by (simp add: str_to_lower_def write_mem_def)
  moreover have "take (length bs) (drop off (write_at blk off ?xs)) = ?xs"
    using b(3) by (simp add: write_at_def)
  then have "holds ?h s (map tolower bs)"
    using b n by (simp add: holds_def)
  moreover have "live ?h = live h" using b(2) by (auto simp: live_def)
  ultimately show ?thesis by blast
qed

lemma strncmp_eq_Some:
  "length xs = length ys \<Longrightarrow> CHR 0x00 \<notin> set ys \<Longrightarrow>
   strncmp_eq (map Some xs) (map Some ys) = Inr (xs = ys)"
  by (induction xs ys rule: list_induct2) auto

lemma suffix_iff_drop: "suffix bs as \<longleftrightarrow> length bs \<le> length as \<and> drop (length as - length bs) as = bs"
  by (auto simp: suffix_def intro: exI [of _ "take (length as - length bs) as"])
    (metis append_take_drop_id)

lemma read_suffix:
  assumes "holds h s as" and "n \<le> length as"
  shows "read_mem h (ptr_add (str_data s) (int (length as) - int n)) (int n) =
    Inr (map Some (drop (length as - n) as))"
proof (cases "n = 0")
  case True
  then show ?thesis by (simp add: read_mem_def)
next
  case False
  with assms obtain b off blk where b: "str_data s = Ptr b off" "blocks h b = Some blk"
    "off + length as \<le> length blk" "take (length as) (drop off blk) = map Some as"
    by (auto simp: holds_def)
  have "take n (drop (off + (length as - n)) blk) = drop (length as - n) (take (length as) (drop off blk))"
    using assms(2) by (simp add: drop_take add.commute)
  moreover have "nat (int off + (int (length as) - int n)) = off + (length as - n)"
    using assms(2) by simp
  ultimately show ?thesis
    using False b assms(2) by (simp add: read_mem_def drop_map)
qed

section \<open>Properties\<close>

text \<open>C6: \<^verbatim>\<open>"literal" + s\<close>, the form every session key and script name is built with,
  never faults on valid operands, yields the concatenated characters in one newly
  allocated block that the result owns, destroys its temporary, and leaves every
  other block as it was.\<close>

theorem str_plus_cstr_left_correct:
  assumes "heap_ok h" and "cstring h lhs as" and "holds h rhs bs"
    and "in_i32 (int (length as) + int (length bs))"
  shows "\<exists>h' n. str_plus_cstr_left h lhs rhs = Inr (h', n) \<and> fresh_result h h' n (as @ bs)"
  using assms by (rule str_plus_cstr_left_fresh)

text \<open>A heap with the literal \<^verbatim>\<open>"s_"\<close> in block 0 and the three characters of a string in
  block 1.\<close>

definition sample_heap :: heap where
  "sample_heap = \<lparr>blocks = [0 \<mapsto> map Some (''s_'' @ [CHR 0x00]), 1 \<mapsto> map Some ''A.b''],
                   next_block = 2\<rparr>"

definition sample_str :: webapp_str where
  "sample_str = \<lparr>str_data = Ptr 1 0, str_len = 3, str_allocated = True\<rparr>"

lemma sample_ok:
  "heap_ok sample_heap" "cstring sample_heap (Ptr 0 0) ''s_''" "holds sample_heap sample_str ''A.b''"
  "str_wf sample_heap sample_str"
  by (auto simp: heap_ok_def sample_heap_def sample_str_def cstring_def holds_def str_wf_def live_def)

theorem str_plus_cstr_left_correct_witness:
  "\<exists>h' n. str_plus_cstr_left sample_heap (Ptr 0 0) sample_str = Inr (h', n) \<and>
     fresh_result sample_heap h' n ''s_A.b''"
  using str_plus_cstr_left_correct [OF sample_ok(1,2,3)] by (simp add: in_i32_def)



text \<open>C8: \<^verbatim>\<open>from_number\<close> and \<^verbatim>\<open>strntol\<close> are inverse through memory: after
  \<^verbatim>\<open>s.from_number(k)\<close> the \<^verbatim>\<open>len\<close> bytes of the string are initialised, lie inside its
  21-byte block, and \<^verbatim>\<open>strntol(s.data, s.len)\<close> is \<open>k\<close>.\<close>

theorem from_number_strntol:
  assumes "heap_ok h" and "str_wf h s" and "- (2 ^ 31) < k" and "k < 2 ^ 31"
  shows "\<exists>h' s' bs. str_from_number h s k = Inr (h', s') \<and> holds h' s' bs \<and>
    str_to_string h' s' = Inr (map Some bs) \<and> strntol bs (nat (str_len s')) = Inr k"
proof -
  let ?bs = "snprintf_d k"
  have "in_i32 k" using assms(3,4) by (simp add: in_i32_def)
  note p = str_from_number_push [OF assms(2) this]
  let ?h = "push (release h s) (map Some ?bs @ Some (CHR 0x00) # replicate (20 - length ?bs) None)"
  have hd: "holds ?h (fresh_str (release h s) ?bs) ?bs" by (rule holds_fresh)
  moreover have "strntol ?bs (nat (str_len (fresh_str (release h s) ?bs))) = Inr k"
    using strntol_printed [OF assms(3,4), of "[]"] by (simp add: fresh_str_def)
  ultimately show ?thesis
    using p read_holds [OF hd] unfolding str_to_string_def by blast
qed

theorem from_number_strntol_witness:
  "\<exists>h' s' bs. str_from_number sample_heap sample_str (-42) = Inr (h', s') \<and> holds h' s' bs \<and>
    str_to_string h' s' = Inr (map Some bs) \<and> strntol bs (nat (str_len s')) = Inr (-42)"
  using from_number_strntol [OF sample_ok(1,4), of "-42"] by simp

text \<open>C9: \<^verbatim>\<open>endsWith\<close> decides the suffix relation on the characters of the two strings
  when the suffix has no NUL, and stays inside both of them.\<close>

theorem endsWith_suffix:
  assumes "holds h s as" and "holds h t bs" and "CHR 0x00 \<notin> set bs"
  shows "str_endsWith h s t = Inr (suffix bs as)"
proof (cases "length bs \<le> length as")
  case False
  then show ?thesis using assms by (simp add: str_endsWith_def holds_def suffix_iff_drop)
next
  case True
  have n: "str_len s = int (length as)" "str_len t = int (length bs)"
    using assms by (simp_all add: holds_def)
  have "read_mem h (str_data t) (int (length bs)) = Inr (map Some bs)"
    using read_holds [OF assms(2)] n by simp
  then show ?thesis
    using True n read_suffix [OF assms(1) True] assms(3)
    by (simp add: str_endsWith_def strncmp_eq_Some suffix_iff_drop)
qed

theorem endsWith_suffix_witness:
  "holds sample_heap \<lparr>str_data = Ptr 1 1, str_len = 2, str_allocated = False\<rparr> ''.b'' \<and>
   str_endsWith sample_heap sample_str
     \<lparr>str_data = Ptr 1 1, str_len = 2, str_allocated = False\<rparr> = Inr (suffix ''.b'' ''A.b'')"
proof -
  have "holds sample_heap \<lparr>str_data = Ptr 1 1, str_len = 2, str_allocated = False\<rparr> ''.b''"
    by (simp add: holds_def sample_heap_def)
  with endsWith_suffix [OF sample_ok(3) this] show ?thesis by simp
qed

end
