(* ===== verification/Zone.thy ===== *)
theory Zone
  imports Prelude
begin

unbundle bit_operations_syntax

text \<open>
  \<^verbatim>\<open>src/ext/msgpack-c/include/msgpack/zone.h\<close> and \<^verbatim>\<open>src/ext/msgpack-c/src/zone.c\<close>:
  the memory pool from which the unpacker takes the storage of arrays and maps.

  A zone is a list of chunks, newest first, of which the head has \<open>zfree\<close> bytes
  left from offset \<open>zptr\<close> on.  An allocation is answered by a region: a chunk
  (numbered from the oldest), an offset and a size.  Whether \<^verbatim>\<open>malloc\<close> succeeds is
  the parameter \<open>mok\<close>, given the number of blocks the zone already took and the
  number of bytes asked for.  The finalizers of a zone are only used by the
  streaming unpacker and are not modelled.

  The lemmas show that the search for a large enough chunk ends and that the
  regions handed out lie inside their chunks and never overlap.
\<close>

section \<open>The zone and its operations\<close>

record zone =
  zfree :: u64
  zptr :: nat
  zchunks :: "u64 list"
  zchunk_size :: u64

record region =
  rchunk :: nat
  roff :: nat
  rsize :: nat

type_synonym malloc = "nat \<Rightarrow> u64 \<Rightarrow> bool"

definition sizeof_zone :: u64 where
  "sizeof_zone = 56"

definition sizeof_chunk :: u64 where
  "sizeof_chunk = 8"

definition msgpack_zone_new :: "malloc \<Rightarrow> u64 \<Rightarrow> zone option" where
  "msgpack_zone_new mok chunk_size =
     (if \<not> mok 0 (sizeof_zone + chunk_size) then None
      else if \<not> mok 1 (sizeof_chunk + chunk_size) then None
      else Some \<lparr>zfree = chunk_size, zptr = 0, zchunks = [chunk_size],
                 zchunk_size = chunk_size\<rparr>)"

text \<open>The loop that doubles the chunk size; \<open>None\<close> is a loop that does not end.\<close>

partial_function (option) grow_chunk :: "u64 \<Rightarrow> u64 \<Rightarrow> u64 option" where
  "grow_chunk sz nb = (if sz < nb then grow_chunk (sz * 2) nb else Some sz)"

definition msgpack_zone_malloc_expand ::
    "malloc \<Rightarrow> zone \<Rightarrow> u64 \<Rightarrow> (region option \<times> zone) res" where
  "msgpack_zone_malloc_expand mok z nb =
     (case grow_chunk (zchunk_size z) nb of
        None \<Rightarrow> Inl Diverges
      | Some sz \<Rightarrow>
          if \<not> mok (Suc (length (zchunks z))) (sizeof_chunk + sz) then Inr (None, z)
          else Inr (Some \<lparr>rchunk = length (zchunks z), roff = 0, rsize = unat nb\<rparr>,
                    z\<lparr>zchunks := sz # zchunks z, zfree := sz - nb, zptr := unat nb\<rparr>))"

definition msgpack_zone_malloc_no_align ::
    "malloc \<Rightarrow> zone \<Rightarrow> u64 \<Rightarrow> (region option \<times> zone) res" where
  "msgpack_zone_malloc_no_align mok z nb =
     (if zfree z < nb then msgpack_zone_malloc_expand mok z nb
      else Inr (Some \<lparr>rchunk = length (zchunks z) - 1, roff = zptr z, rsize = unat nb\<rparr>,
                z\<lparr>zfree := zfree z - nb, zptr := zptr z + unat nb\<rparr>))"

definition zone_align :: "u64 \<Rightarrow> u64" where
  "zone_align nb = (nb + (4 - 1)) AND NOT (4 - 1)"

definition msgpack_zone_malloc ::
    "malloc \<Rightarrow> zone \<Rightarrow> u64 \<Rightarrow> (region option \<times> zone) res" where
  "msgpack_zone_malloc mok z nb = msgpack_zone_malloc_no_align mok z (zone_align nb)"

fun zone_allocs :: "malloc \<Rightarrow> zone \<Rightarrow> u64 list \<Rightarrow> (region list \<times> zone) res" where
  "zone_allocs mok z [] = Inr ([], z)"
| "zone_allocs mok z (n # ns) =
     bind_res (msgpack_zone_malloc mok z n) (\<lambda>(r, z').
     bind_res (zone_allocs mok z' ns) (\<lambda>(rs, z'').
     Inr (case r of None \<Rightarrow> rs | Some x \<Rightarrow> x # rs, z'')))"

section \<open>Invariant\<close>

text \<open>The capacity of a chunk counted from the oldest.\<close>

definition chunk_cap :: "zone \<Rightarrow> nat \<Rightarrow> nat" where
  "chunk_cap z i = unat (rev (zchunks z) ! i)"

definition zone_inv :: "zone \<Rightarrow> bool" where
  "zone_inv z \<longleftrightarrow> zchunks z \<noteq> [] \<and> 0 < zchunk_size z \<and>
     zptr z + unat (zfree z) = unat (hd (zchunks z))"

text \<open>A region that has been handed out: inside its chunk, and below the free
  space if that chunk is the current one.\<close>

definition taken :: "zone \<Rightarrow> region \<Rightarrow> bool" where
  "taken z r \<longleftrightarrow> rchunk r < length (zchunks z) \<and>
     roff r + rsize r \<le> chunk_cap z (rchunk r) \<and>
     (Suc (rchunk r) = length (zchunks z) \<longrightarrow> roff r + rsize r \<le> zptr z)"

definition disjoint_regions :: "region \<Rightarrow> region \<Rightarrow> bool" where
  "disjoint_regions r s \<longleftrightarrow>
     rchunk r \<noteq> rchunk s \<or> roff r + rsize r \<le> roff s \<or> roff s + rsize s \<le> roff r"

lemma disjoint_regions_sym: "disjoint_regions r s \<Longrightarrow> disjoint_regions s r"
  by (auto simp: disjoint_regions_def)

lemma chunk_cap_current:
  "zone_inv z \<Longrightarrow> chunk_cap z (length (zchunks z) - 1) = unat (hd (zchunks z))"
  by (cases "zchunks z") (auto simp: chunk_cap_def zone_inv_def nth_append)

lemma chunk_cap_push:
  "zchunks z' = c # zchunks z \<Longrightarrow> i < length (zchunks z) \<Longrightarrow> chunk_cap z' i = chunk_cap z i"
  by (simp add: chunk_cap_def nth_append)

lemma zone_new_inv:
  "msgpack_zone_new mok c = Some z \<Longrightarrow> 0 < c \<Longrightarrow> zone_inv z"
  by (auto simp: msgpack_zone_new_def zone_inv_def split: if_splits)

section \<open>Sizes\<close>

lemma unat_double:
  fixes sz :: u64
  assumes "unat sz < 2 ^ 63"
  shows "unat (sz * 2) = 2 * unat sz"
  using assms by (simp add: unat_word_ariths)

lemma grow_chunk_ends:
  assumes "unat nb \<le> 2 ^ 63" and "0 < sz"
  shows "\<exists>r. grow_chunk sz nb = Some r \<and> nb \<le> r"
  using assms(2)
proof (induction "unat nb - unat sz" arbitrary: sz rule: less_induct)
  case less
  show ?case
  proof (cases "sz < nb")
    case True
    then have lt: "unat sz < unat nb" by (simp add: word_less_nat_alt)
    then have d: "unat (sz * 2) = 2 * unat sz" using assms(1) by (intro unat_double) linarith
    have pos: "0 < unat sz" using less.prems by (simp add: unat_gt_0 word_neq_0_conv)
    then have "0 < sz * 2" using d by (simp add: word_less_nat_alt)
    then have "\<exists>r. grow_chunk (sz * 2) nb = Some r \<and> nb \<le> r"
      using less.hyps [of "sz * 2"] lt d pos by simp
    then show ?thesis using True by (simp add: grow_chunk.simps [of sz])
  next
    case False
    then show ?thesis by (auto simp: grow_chunk.simps [of sz])
  qed
qed

lemma zone_align_eq: "zone_align nb = push_bit 2 (drop_bit 2 (nb + 3))"
proof -
  have "(3 :: u64) = mask 2" by (simp add: mask_eq_exp_minus_1)
  then have "zone_align nb = (nb + 3) AND NOT (mask 2)" by (simp add: zone_align_def)
  also have "\<dots> = push_bit 2 (drop_bit 2 (nb + 3))"
    by (rule bit_eqI) (auto simp: bit_simps not_less simp flip: numeral_2_eq_2 Suc_diff_le)
  finally show ?thesis .
qed

lemma unat_zone_align:
  assumes "unat nb < 2 ^ 64 - 3"
  shows "unat (zone_align nb) = (unat nb + 3) div 4 * 4"
proof -
  have s: "unat (nb + 3) = unat nb + 3" using assms by (simp add: unat_word_ariths)
  have "unat (zone_align nb) = (unat (nb + 3) div 4 * 4) mod 2 ^ 64"
    unfolding zone_align_eq
    by (simp add: push_bit_eq_mult drop_bit_eq_div unat_word_ariths unat_div_distrib)
  also have "\<dots> = unat (nb + 3) div 4 * 4"
  proof (rule mod_less)
    have "unat (nb + 3) < 2 ^ 64" using unsigned_less [of "nb + 3"] by simp
    moreover have "unat (nb + 3) div 4 * 4 \<le> unat (nb + 3)" by simp
    ultimately show "unat (nb + 3) div 4 * 4 < 2 ^ 64" by (rule le_less_trans [rotated])
  qed
  finally show ?thesis by (simp add: s)
qed

lemma zone_align_bounds:
  assumes "unat nb < 2 ^ 62"
  shows "unat nb \<le> unat (zone_align nb)" and "unat (zone_align nb) \<le> 2 ^ 63"
  using assms unat_zone_align [of nb] by simp_all

section \<open>Allocation\<close>

lemma malloc_no_align_ok:
  assumes "zone_inv z" and "unat nb \<le> 2 ^ 63"
  shows "\<exists>r z'. msgpack_zone_malloc_no_align mok z nb = Inr (r, z')"
  using assms grow_chunk_ends [OF assms(2), of "zchunk_size z"]
  by (auto simp: msgpack_zone_malloc_no_align_def msgpack_zone_malloc_expand_def zone_inv_def)

lemma malloc_no_align_fail:
  assumes "msgpack_zone_malloc_no_align mok z nb = Inr (None, z')"
  shows "z' = z"
  using assms
  by (auto simp: msgpack_zone_malloc_no_align_def msgpack_zone_malloc_expand_def
      split: if_splits option.splits)

lemma malloc_no_align_region:
  assumes "zone_inv z" and "unat nb \<le> 2 ^ 63"
      and "msgpack_zone_malloc_no_align mok z nb = Inr (Some r, z')"
  shows "zone_inv z'" and "taken z' r" and "rsize r = unat nb"
    and "taken z s \<Longrightarrow> taken z' s \<and> disjoint_regions r s"
proof -
  obtain sz where sz: "grow_chunk (zchunk_size z) nb = Some sz" "nb \<le> sz"
    using grow_chunk_ends [OF assms(2), of "zchunk_size z"] assms(1) by (auto simp: zone_inv_def)
  have "zone_inv z' \<and> taken z' r \<and> rsize r = unat nb \<and>
        (taken z s \<longrightarrow> taken z' s \<and> disjoint_regions r s)"
  proof (cases "zfree z < nb")
    case True
    then have z': "z' = z\<lparr>zchunks := sz # zchunks z, zfree := sz - nb, zptr := unat nb\<rparr>"
      and r: "r = \<lparr>rchunk = length (zchunks z), roff = 0, rsize = unat nb\<rparr>"
      using assms(3) sz(1)
      by (auto simp: msgpack_zone_malloc_no_align_def msgpack_zone_malloc_expand_def
          split: if_splits)
    have le: "unat nb \<le> unat sz" using sz(2) by (simp add: word_le_nat_alt)
    have cap: "chunk_cap z' (length (zchunks z)) = unat sz"
      by (simp add: z' chunk_cap_def nth_append)
    have old: "i < length (zchunks z) \<Longrightarrow> chunk_cap z' i = chunk_cap z i" for i
      by (rule chunk_cap_push) (simp add: z')
    show ?thesis
      using assms(1) le cap old sz(2)
      by (auto simp: zone_inv_def taken_def disjoint_regions_def z' r unat_sub)
  next
    case False
    then have le: "unat nb \<le> unat (zfree z)" by (simp add: not_less word_le_nat_alt)
    have z': "z' = z\<lparr>zfree := zfree z - nb, zptr := zptr z + unat nb\<rparr>"
      and r: "r = \<lparr>rchunk = length (zchunks z) - 1, roff = zptr z, rsize = unat nb\<rparr>"
      using assms(3) False by (auto simp: msgpack_zone_malloc_no_align_def)
    have cap: "chunk_cap z' i = chunk_cap z i" for i by (simp add: z' chunk_cap_def)
    have cur: "chunk_cap z (length (zchunks z) - Suc 0) = zptr z + unat (zfree z)"
      using chunk_cap_current [OF assms(1)] assms(1) by (simp add: zone_inv_def)
    show ?thesis
      using assms(1) le cap cur False
      by (auto simp: zone_inv_def taken_def disjoint_regions_def z' r unat_sub word_le_nat_alt)
  qed
  then show "zone_inv z'" and "taken z' r" and "rsize r = unat nb"
    and "taken z s \<Longrightarrow> taken z' s \<and> disjoint_regions r s" by simp_all
qed

text \<open>The same for the aligned allocation the unpacker uses.\<close>

lemma zone_malloc_ok:
  assumes "zone_inv z" and "unat nb < 2 ^ 62"
  shows "\<exists>r z'. msgpack_zone_malloc mok z nb = Inr (r, z')"
  unfolding msgpack_zone_malloc_def
  by (rule malloc_no_align_ok [OF assms(1) zone_align_bounds(2) [OF assms(2)]])

lemma zone_malloc_region:
  assumes "zone_inv z" and "unat nb < 2 ^ 62"
      and "msgpack_zone_malloc mok z nb = Inr (Some r, z')"
  shows "zone_inv z'" and "taken z' r" and "unat nb \<le> rsize r"
    and "taken z s \<Longrightarrow> taken z' s \<and> disjoint_regions r s"
  using malloc_no_align_region [OF assms(1) zone_align_bounds(2) [OF assms(2)]
      assms(3) [unfolded msgpack_zone_malloc_def]] zone_align_bounds(1) [OF assms(2)]
  by simp_all

lemma zone_malloc_inv:
  assumes "zone_inv z" and "unat nb < 2 ^ 62" and "msgpack_zone_malloc mok z nb = Inr (r, z')"
  shows "zone_inv z'"
proof (cases r)
  case None
  then show ?thesis
    using assms malloc_no_align_fail [of mok z "zone_align nb" z']
    by (simp add: msgpack_zone_malloc_def)
next
  case (Some x)
  then show ?thesis using zone_malloc_region(1) assms by blast
qed

lemma zone_allocs_taken:
  assumes "zone_inv z" and "\<forall>n \<in> set ns. unat n < 2 ^ 62"
  shows "\<exists>rs z'. zone_allocs mok z ns = Inr (rs, z') \<and> zone_inv z' \<and>
     (\<forall>r \<in> set rs. taken z' r) \<and> (\<forall>s. taken z s \<longrightarrow> taken z' s) \<and>
     (\<forall>s r. taken z s \<longrightarrow> r \<in> set rs \<longrightarrow> disjoint_regions r s) \<and>
     sorted_wrt disjoint_regions rs"
  using assms
proof (induction ns arbitrary: z)
  case Nil
  then show ?case by simp
next
  case (Cons n ns)
  obtain r z1 where a: "msgpack_zone_malloc mok z n = Inr (r, z1)"
    using zone_malloc_ok [of z n mok] Cons.prems by auto
  have inv1: "zone_inv z1" using zone_malloc_inv [OF _ _ a] Cons.prems by simp
  obtain rs z2 where b: "zone_allocs mok z1 ns = Inr (rs, z2)" "zone_inv z2"
    "\<forall>x \<in> set rs. taken z2 x" "\<forall>s. taken z1 s \<longrightarrow> taken z2 s"
    "\<forall>s x. taken z1 s \<longrightarrow> x \<in> set rs \<longrightarrow> disjoint_regions x s"
    "sorted_wrt disjoint_regions rs"
    using Cons.IH [OF inv1] Cons.prems by auto
  show ?case
  proof (cases r)
    case None
    then have "z1 = z"
      using a malloc_no_align_fail [of mok z "zone_align n" z1] by (simp add: msgpack_zone_malloc_def)
    then show ?thesis using a b None by simp
  next
    case (Some x)
    have x: "taken z1 x" "\<And>s. taken z s \<Longrightarrow> taken z1 s \<and> disjoint_regions x s"
      using zone_malloc_region(2,4) [of z n mok x z1] a Some Cons.prems by auto
    have "\<forall>y \<in> set rs. disjoint_regions x y"
      using b(5) x(1) disjoint_regions_sym by blast
    then show ?thesis using a b x Some by auto
  qed
qed

section \<open>Properties\<close>

text \<open>C17: A zone answers any sequence of requests (each below \<open>2 ^ 62\<close> bytes), and
  the regions it hands out lie inside the chunks it allocated and do not overlap,
  whichever of the allocations of new chunks fail.\<close>

theorem zone_regions_disjoint:
  assumes "msgpack_zone_new mok c = Some z" and "0 < c"
      and "\<forall>n \<in> set ns. unat n < 2 ^ 62"
  shows "\<exists>rs z'. zone_allocs mok z ns = Inr (rs, z') \<and>
     (\<forall>r \<in> set rs. rchunk r < length (zchunks z') \<and>
                     roff r + rsize r \<le> unat (rev (zchunks z') ! rchunk r)) \<and>
     sorted_wrt disjoint_regions rs"
  using zone_allocs_taken [OF zone_new_inv [OF assms(1,2)] assms(3), of mok]
  by (auto simp: taken_def chunk_cap_def)

theorem zone_regions_disjoint_witness:
  "\<exists>rs z'. zone_allocs (\<lambda>_ _. True)
       \<lparr>zfree = 8192, zptr = 0, zchunks = [8192], zchunk_size = 8192\<rparr> [24, 9000, 7] = Inr (rs, z') \<and>
     (\<forall>r \<in> set rs. rchunk r < length (zchunks z') \<and>
                     roff r + rsize r \<le> unat (rev (zchunks z') ! rchunk r)) \<and>
     sorted_wrt disjoint_regions rs"
  by (rule zone_regions_disjoint [of "\<lambda>_ _. True" 8192])
    (simp_all add: msgpack_zone_new_def)

end
