(* ===== verification/Msgpack.thy ===== *)
theory Msgpack
  imports Zone
begin

text \<open>
  \<^verbatim>\<open>src/ext/msgpack-c\<close>: the MessagePack decoder with which a worker reads the length
  that precedes a request (\<^verbatim>\<open>include/msgpack/unpack_template.h\<close>,
  \<^verbatim>\<open>src/unpack.c\<close>), and the encoder it inverts (\<^verbatim>\<open>include/msgpack/pack_template.h\<close>,
  \<^verbatim>\<open>src/objectc.c\<close>).

  The decoder is the state machine of the template: the current state \<open>u_cs\<close>, the
  number \<open>trail\<close> of bytes the state needs, the position \<open>u_p\<close>, the stack of open
  containers (top first) and the pointer \<open>u_n\<close> of the last value, which the code
  never resets inside a call.  The labels the template jumps to are the values of
  \<open>flow\<close>.  Bytes are read through \<open>bytes_at\<close>, which fails outside the buffer;
  the items of a container are written through a check against the storage the
  zone handed out, so that success of the model shows both kinds of access to be
  in bounds.
\<close>

section \<open>Objects and loads\<close>

datatype msgpack_object =
    NIL
  | BOOLEAN bool
  | POSITIVE_INTEGER u64
  | NEGATIVE_INTEGER int
  | DOUBLE u64                  \<comment> \<open>the bits of the double\<close>
  | RAW "nat option" u32        \<comment> \<open>offset into the buffer, number of bytes\<close>
  | ARRAY "msgpack_object list"
  | MAP "(msgpack_object \<times> msgpack_object) list"

definition sizeof_object :: nat where
  "sizeof_object = 24"

definition sizeof_object_kv :: nat where
  "sizeof_object_kv = 48"

definition bytes_at :: "byte list \<Rightarrow> nat \<Rightarrow> nat \<Rightarrow> byte list res" where
  "bytes_at data i k =
     (if i + k \<le> length data then Inr (take k (drop i data)) else Inl OutOfBounds)"

definition load8 :: "byte list \<Rightarrow> nat \<Rightarrow> byte res" where
  "load8 data i = bind_res (bytes_at data i 1) (\<lambda>b. Inr (b ! 0))"

definition load16 :: "byte list \<Rightarrow> nat \<Rightarrow> u16 res" where
  "load16 data i = bind_res (bytes_at data i 2) (\<lambda>b.
     Inr (push_bit 8 (ucast (b ! 0)) OR ucast (b ! 1)))"

definition load32 :: "byte list \<Rightarrow> nat \<Rightarrow> u32 res" where
  "load32 data i = bind_res (bytes_at data i 4) (\<lambda>b.
     Inr (push_bit 24 (ucast (b ! 0)) OR push_bit 16 (ucast (b ! 1)) OR
          push_bit 8 (ucast (b ! 2)) OR ucast (b ! 3)))"

definition load64 :: "byte list \<Rightarrow> nat \<Rightarrow> u64 res" where
  "load64 data i = bind_res (bytes_at data i 8) (\<lambda>b.
     Inr (push_bit 56 (ucast (b ! 0)) OR push_bit 48 (ucast (b ! 1)) OR
          push_bit 40 (ucast (b ! 2)) OR push_bit 32 (ucast (b ! 3)) OR
          push_bit 24 (ucast (b ! 4)) OR push_bit 16 (ucast (b ! 5)) OR
          push_bit 8 (ucast (b ! 6)) OR ucast (b ! 7)))"

text \<open>The conversion of a \<^verbatim>\<open>float\<close> to a \<^verbatim>\<open>double\<close> on their bit patterns (IEEE 754
  widening: a subnormal float becomes a normal double, a NaN is quietened).\<close>

fun normalise :: "nat \<Rightarrow> u64 \<Rightarrow> u64 \<Rightarrow> u64 \<times> u64" where
  "normalise 0 e m = (e, m)"
| "normalise (Suc k) e m = (if bit m 23 then (e, m) else normalise k (e - 1) (m * 2))"

definition float_to_double :: "u32 \<Rightarrow> u64" where
  "float_to_double f =
     (let sgn = push_bit 32 (ucast f AND 0x80000000) :: u64;
          ex = ucast (drop_bit 23 f) AND 0xff :: u64;
          man = ucast f AND 0x7fffff :: u64
      in sgn OR
         (if ex = 0xff then
            push_bit 52 0x7ff OR push_bit 29 man OR (if man = 0 then 0 else push_bit 51 1)
          else if ex \<noteq> 0 then push_bit 52 (ex + 896) OR push_bit 29 man
          else if man = 0 then 0
          else (case normalise 23 897 man of
                  (e, m) \<Rightarrow> push_bit 52 e OR push_bit 29 (m AND 0x7fffff))))"

section \<open>State of the unpacker\<close>

datatype container_type = CT_ARRAY_ITEM | CT_MAP_KEY | CT_MAP_VALUE

record frame =
  fobj :: msgpack_object
  froom :: nat                         \<comment> \<open>bytes of storage behind the container\<close>
  fcount :: u64
  fct :: container_type
  fmap_key :: "msgpack_object option"

record ust =
  u_cs :: nat
  trail :: u32
  stack :: "frame list"
  uzone :: "zone option"
  referenced :: bool
  u_p :: nat
  u_n :: "nat option"

datatype flow = Finish msgpack_object | Failed | Out | Header_again

abbreviation (input) "CS_HEADER \<equiv> (0x00 :: nat)"
abbreviation (input) "CS_BIN_8 \<equiv> (0x04 :: nat)"
abbreviation (input) "CS_BIN_16 \<equiv> (0x05 :: nat)"
abbreviation (input) "CS_BIN_32 \<equiv> (0x06 :: nat)"
abbreviation (input) "CS_FLOAT \<equiv> (0x0a :: nat)"
abbreviation (input) "CS_DOUBLE \<equiv> (0x0b :: nat)"
abbreviation (input) "CS_UINT_8 \<equiv> (0x0c :: nat)"
abbreviation (input) "CS_UINT_16 \<equiv> (0x0d :: nat)"
abbreviation (input) "CS_UINT_32 \<equiv> (0x0e :: nat)"
abbreviation (input) "CS_UINT_64 \<equiv> (0x0f :: nat)"
abbreviation (input) "CS_INT_8 \<equiv> (0x10 :: nat)"
abbreviation (input) "CS_INT_16 \<equiv> (0x11 :: nat)"
abbreviation (input) "CS_INT_32 \<equiv> (0x12 :: nat)"
abbreviation (input) "CS_INT_64 \<equiv> (0x13 :: nat)"
abbreviation (input) "CS_RAW_8 \<equiv> (0x19 :: nat)"
abbreviation (input) "CS_RAW_16 \<equiv> (0x1a :: nat)"
abbreviation (input) "CS_RAW_32 \<equiv> (0x1b :: nat)"
abbreviation (input) "CS_ARRAY_16 \<equiv> (0x1c :: nat)"
abbreviation (input) "CS_ARRAY_32 \<equiv> (0x1d :: nat)"
abbreviation (input) "CS_MAP_16 \<equiv> (0x1e :: nat)"
abbreviation (input) "CS_MAP_32 \<equiv> (0x1f :: nat)"
abbreviation (input) "ACS_RAW_VALUE \<equiv> (0x20 :: nat)"

definition MSGPACK_EMBED_STACK_SIZE :: nat where
  "MSGPACK_EMBED_STACK_SIZE = 32"

section \<open>Callbacks\<close>

definition template_callback_uint :: "u64 \<Rightarrow> msgpack_object" where
  "template_callback_uint d = POSITIVE_INTEGER d"

definition template_callback_int :: "int \<Rightarrow> msgpack_object" where
  "template_callback_int d =
     (if d \<ge> 0 then POSITIVE_INTEGER (of_int d) else NEGATIVE_INTEGER d)"

definition zone_malloc :: "malloc \<Rightarrow> zone option \<Rightarrow> u64 \<Rightarrow> (region option \<times> zone option) res" where
  "zone_malloc mok z nb =
     (case z of None \<Rightarrow> Inl NullDeref
      | Some zz \<Rightarrow> bind_res (msgpack_zone_malloc mok zz nb) (\<lambda>(r, zz'). Inr (r, Some zz')))"

definition template_callback_array ::
    "malloc \<Rightarrow> zone option \<Rightarrow> u32 \<Rightarrow> ((msgpack_object \<times> nat) option \<times> zone option) res" where
  "template_callback_array mok z k =
     bind_res (zone_malloc mok z (ucast k * of_nat sizeof_object)) (\<lambda>(r, z').
     Inr (map_option (\<lambda>r. (ARRAY [], rsize r)) r, z'))"

definition template_callback_map ::
    "malloc \<Rightarrow> zone option \<Rightarrow> u32 \<Rightarrow> ((msgpack_object \<times> nat) option \<times> zone option) res" where
  "template_callback_map mok z k =
     bind_res (zone_malloc mok z (ucast k * of_nat sizeof_object_kv)) (\<lambda>(r, z').
     Inr (map_option (\<lambda>r. (MAP [], rsize r)) r, z'))"

definition template_callback_array_item :: "frame \<Rightarrow> msgpack_object \<Rightarrow> frame res" where
  "template_callback_array_item c ob =
     (case fobj c of
        ARRAY xs \<Rightarrow>
          if (length xs + 1) * sizeof_object \<le> froom c then Inr (c\<lparr>fobj := ARRAY (xs @ [ob])\<rparr>)
          else Inl OutOfBounds
      | _ \<Rightarrow> Inl Uninitialized)"

definition template_callback_map_item ::
    "frame \<Rightarrow> msgpack_object option \<Rightarrow> msgpack_object \<Rightarrow> frame res" where
  "template_callback_map_item c key v =
     (case (fobj c, key) of
        (MAP xs, Some k) \<Rightarrow>
          if (length xs + 1) * sizeof_object_kv \<le> froom c then Inr (c\<lparr>fobj := MAP (xs @ [(k, v)])\<rparr>)
          else Inl OutOfBounds
      | _ \<Rightarrow> Inl Uninitialized)"

section \<open>The state machine\<close>

text \<open>The code at \<^verbatim>\<open>_push\<close>: the finished value goes into the innermost container,
  which may finish in turn.\<close>

fun push_frames :: "frame list \<Rightarrow> msgpack_object \<Rightarrow> (flow \<times> frame list) res" where
  "push_frames [] ob = Inr (Finish ob, [])"
| "push_frames (c # st) ob =
     (case fct c of
        CT_ARRAY_ITEM \<Rightarrow>
          bind_res (template_callback_array_item c ob) (\<lambda>c1.
          let c2 = c1\<lparr>fcount := fcount c1 - 1\<rparr>
          in if fcount c2 = 0 then push_frames st (fobj c2) else Inr (Header_again, c2 # st))
      | CT_MAP_KEY \<Rightarrow> Inr (Header_again, c\<lparr>fmap_key := Some ob, fct := CT_MAP_VALUE\<rparr> # st)
      | CT_MAP_VALUE \<Rightarrow>
          bind_res (template_callback_map_item c (fmap_key c) ob) (\<lambda>c1.
          let c2 = c1\<lparr>fcount := fcount c1 - 1\<rparr>
          in if fcount c2 = 0 then push_frames st (fobj c2)
             else Inr (Header_again, c2\<lparr>fct := CT_MAP_KEY\<rparr> # st)))"

definition push_value :: "ust \<Rightarrow> msgpack_object \<Rightarrow> (flow \<times> ust) res" where
  "push_value s ob =
     bind_res (push_frames (stack s) ob) (\<lambda>(f, st). Inr (f, s\<lparr>stack := st\<rparr>))"

definition start_container ::
    "(zone option \<Rightarrow> u32 \<Rightarrow> ((msgpack_object \<times> nat) option \<times> zone option) res) \<Rightarrow>
     ust \<Rightarrow> u32 \<Rightarrow> container_type \<Rightarrow> (flow \<times> ust) res" where
  "start_container callback s count ct =
     (if length (stack s) \<ge> MSGPACK_EMBED_STACK_SIZE then Inr (Failed, s)
      else bind_res (callback (uzone s) count) (\<lambda>(r, z).
        case r of
          None \<Rightarrow> Inr (Failed, s\<lparr>uzone := z\<rparr>)
        | Some (ob, room) \<Rightarrow>
            if count = 0 then push_value (s\<lparr>uzone := z\<rparr>) ob
            else Inr (Header_again,
              s\<lparr>uzone := z,
                stack := \<lparr>fobj = ob, froom = room, fcount = ucast count, fct = ct,
                          fmap_key = None\<rparr> # stack s\<rparr>)))"

text \<open>The code at \<^verbatim>\<open>_raw_zero\<close>, and the state that waits for the bytes of a raw.\<close>

definition raw_value :: "ust \<Rightarrow> (flow \<times> ust) res" where
  "raw_value s = push_value (s\<lparr>referenced := True\<rparr>) (RAW (u_n s) (trail s))"

definition advance :: "ust \<Rightarrow> ust" where
  "advance s = s\<lparr>u_n := Some (u_p s), u_p := u_p s + unat (trail s - 1)\<rparr>"

definition raw_trail :: "byte list \<Rightarrow> ust \<Rightarrow> (flow \<times> ust) res" where
  "raw_trail data s =
     (if length data - u_p s < unat (trail s) then Inr (Out, s) else raw_value (advance s))"

definition again_raw :: "byte list \<Rightarrow> ust \<Rightarrow> u32 \<Rightarrow> (flow \<times> ust) res" where
  "again_raw data s len =
     (let s1 = s\<lparr>trail := len\<rparr>
      in if len = 0 then raw_value s1
         else raw_trail data (s1\<lparr>u_cs := ACS_RAW_VALUE, u_p := u_p s1 + 1\<rparr>))"

definition fixed_trail :: "malloc \<Rightarrow> byte list \<Rightarrow> ust \<Rightarrow> (flow \<times> ust) res" where
  "fixed_trail mok data s0 =
     (if length data - u_p s0 < unat (trail s0) then Inr (Out, s0)
      else let i = u_p s0; s = advance s0; c = u_cs s in
        if c = CS_FLOAT then
          bind_res (load32 data i) (\<lambda>d. push_value s (DOUBLE (float_to_double d)))
        else if c = CS_DOUBLE then bind_res (load64 data i) (\<lambda>d. push_value s (DOUBLE d))
        else if c = CS_UINT_8 then
          bind_res (load8 data i) (\<lambda>d. push_value s (template_callback_uint (ucast d)))
        else if c = CS_UINT_16 then
          bind_res (load16 data i) (\<lambda>d. push_value s (template_callback_uint (ucast d)))
        else if c = CS_UINT_32 then
          bind_res (load32 data i) (\<lambda>d. push_value s (template_callback_uint (ucast d)))
        else if c = CS_UINT_64 then
          bind_res (load64 data i) (\<lambda>d. push_value s (template_callback_uint d))
        else if c = CS_INT_8 then
          bind_res (load8 data i) (\<lambda>d. push_value s (template_callback_int (sint d)))
        else if c = CS_INT_16 then
          bind_res (load16 data i) (\<lambda>d. push_value s (template_callback_int (sint d)))
        else if c = CS_INT_32 then
          bind_res (load32 data i) (\<lambda>d. push_value s (template_callback_int (sint d)))
        else if c = CS_INT_64 then
          bind_res (load64 data i) (\<lambda>d. push_value s (template_callback_int (sint d)))
        else if c = CS_BIN_8 \<or> c = CS_RAW_8 then
          bind_res (load8 data i) (\<lambda>d. again_raw data s (ucast d))
        else if c = CS_BIN_16 \<or> c = CS_RAW_16 then
          bind_res (load16 data i) (\<lambda>d. again_raw data s (ucast d))
        else if c = CS_BIN_32 \<or> c = CS_RAW_32 then
          bind_res (load32 data i) (\<lambda>d. again_raw data s d)
        else if c = ACS_RAW_VALUE then raw_value s
        else if c = CS_ARRAY_16 then
          bind_res (load16 data i) (\<lambda>d.
            start_container (template_callback_array mok) s (ucast d) CT_ARRAY_ITEM)
        else if c = CS_ARRAY_32 then
          bind_res (load32 data i) (\<lambda>d.
            start_container (template_callback_array mok) s d CT_ARRAY_ITEM)
        else if c = CS_MAP_16 then
          bind_res (load16 data i) (\<lambda>d.
            start_container (template_callback_map mok) s (ucast d) CT_MAP_KEY)
        else if c = CS_MAP_32 then
          bind_res (load32 data i) (\<lambda>d.
            start_container (template_callback_map mok) s d CT_MAP_KEY)
        else Inr (Failed, s))"

definition again_fixed_trail ::
    "malloc \<Rightarrow> byte list \<Rightarrow> ust \<Rightarrow> byte \<Rightarrow> u32 \<Rightarrow> (flow \<times> ust) res" where
  "again_fixed_trail mok data s b t =
     fixed_trail mok data (s\<lparr>trail := t, u_cs := unat (b AND 0x1f), u_p := u_p s + 1\<rparr>)"

definition header :: "malloc \<Rightarrow> byte list \<Rightarrow> ust \<Rightarrow> (flow \<times> ust) res" where
  "header mok data s =
     bind_res (load8 data (u_p s)) (\<lambda>b.
       if b \<le> 0x7f then push_value s (template_callback_uint (ucast b))
       else if 0xe0 \<le> b then push_value s (template_callback_int (sint b))
       else if 0xc0 \<le> b then
        (if b = 0xc0 then push_value s NIL
         else if b = 0xc2 then push_value s (BOOLEAN False)
         else if b = 0xc3 then push_value s (BOOLEAN True)
         else if b = 0xc4 \<or> b = 0xc5 \<or> b = 0xc6 then
           again_fixed_trail mok data s b (push_bit (unat (b AND 0x03)) 1)
         else if 0xca \<le> b \<and> b \<le> 0xd3 then
           again_fixed_trail mok data s b (push_bit (unat (b AND 0x03)) 1)
         else if b = 0xd9 \<or> b = 0xda \<or> b = 0xdb then
           again_fixed_trail mok data s b (push_bit (unat ((b AND 0x03) - 1)) 1)
         else if 0xdc \<le> b then
           again_fixed_trail mok data s b (push_bit (unat (b AND 0x01)) 2)
         else Inr (Failed, s))
       else if 0xa0 \<le> b then again_raw data s (ucast (b AND 0x1f))
       else if 0x90 \<le> b then
         start_container (template_callback_array mok) s (ucast (b AND 0x0f)) CT_ARRAY_ITEM
       else start_container (template_callback_map mok) s (ucast (b AND 0x0f)) CT_MAP_KEY)"

definition unpack_step :: "malloc \<Rightarrow> byte list \<Rightarrow> ust \<Rightarrow> (flow \<times> ust) res" where
  "unpack_step mok data s =
     (if u_cs s = CS_HEADER then header mok data s else fixed_trail mok data s)"

section \<open>The loop\<close>

lemma push_value_u_p: "push_value s ob = Inr (f, s') \<Longrightarrow> u_p s' = u_p s"
  by (auto simp: push_value_def split: prod.splits elim!: bind_res_Inr_E)

lemma start_container_u_p: "start_container cb s k ct = Inr (f, s') \<Longrightarrow> u_p s' = u_p s"
  by (auto simp: start_container_def split: if_splits option.splits prod.splits
      dest!: push_value_u_p elim!: bind_res_Inr_E)

lemma raw_value_u_p: "raw_value s = Inr (f, s') \<Longrightarrow> u_p s' = u_p s"
  by (auto simp: raw_value_def dest!: push_value_u_p)

lemma raw_trail_u_p: "raw_trail data s = Inr (f, s') \<Longrightarrow> u_p s \<le> u_p s'"
  by (auto simp: raw_trail_def advance_def dest!: raw_value_u_p split: if_splits)

lemma again_raw_u_p: "again_raw data s k = Inr (f, s') \<Longrightarrow> u_p s \<le> u_p s'"
  by (auto simp: again_raw_def Let_def dest!: raw_value_u_p raw_trail_u_p split: if_splits)

lemma u_p_advance: "u_p s \<le> u_p (advance s)"
  by (simp add: advance_def)

lemmas u_p_mono = push_value_u_p start_container_u_p raw_value_u_p raw_trail_u_p again_raw_u_p

lemma fixed_trail_u_p:
  assumes "fixed_trail mok data s = Inr (f, s')"
  shows "u_p s \<le> u_p s'"
  using assms u_p_advance [of s]
  by (auto simp: fixed_trail_def Let_def split: if_splits elim!: bind_res_Inr_E dest!: u_p_mono)

lemma header_u_p: "header mok data s = Inr (f, s') \<Longrightarrow> u_p s \<le> u_p s'"
  unfolding header_def again_fixed_trail_def
  by (erule bind_res_Inr_E) (auto split: if_splits dest!: u_p_mono fixed_trail_u_p)

lemma unpack_step_u_p: "unpack_step mok data s = Inr (f, s') \<Longrightarrow> u_p s \<le> u_p s'"
  by (auto simp: unpack_step_def dest: header_u_p fixed_trail_u_p split: if_splits)

text \<open>The \<^verbatim>\<open>do ... while(p != pe)\<close> loop; a pointer past the end of the buffer is an
  error of its own.\<close>

function (sequential) exec_loop :: "malloc \<Rightarrow> byte list \<Rightarrow> ust \<Rightarrow> (flow \<times> ust) res" where
  "exec_loop mok data s =
     (if length data < u_p s then Inl OutOfBounds
      else bind_res (unpack_step mok data s) (\<lambda>(f, s1).
        case f of
          Header_again \<Rightarrow>
            (let s2 = s1\<lparr>u_cs := CS_HEADER, u_p := u_p s1 + 1\<rparr>
             in if u_p s2 = length data then Inr (Out, s2) else exec_loop mok data s2)
        | _ \<Rightarrow> Inr (f, s1)))"
  by pat_completeness auto

termination
  by (relation "measure (\<lambda>(mok, data, s). Suc (length data) - u_p s)")
    (auto dest: unpack_step_u_p)

declare exec_loop.simps [simp del]

lemma exec_loop_u_p: "exec_loop mok data s = Inr (f, s') \<Longrightarrow> u_p s \<le> u_p s'"
proof (induction mok data s rule: exec_loop.induct)
  case (1 mok data s)
  from "1.prems" obtain f1 s1 where s1: "unpack_step mok data s = Inr (f1, s1)"
    by (subst (asm) exec_loop.simps) (auto split: if_splits elim: bind_res_Inr_E)
  have le: "\<not> length data < u_p s" and mono: "u_p s \<le> u_p s1"
    using "1.prems" unpack_step_u_p [OF s1] by (auto simp: exec_loop.simps [of mok data s])
  show ?case
  proof (cases "f1 = Header_again")
    case True
    then show ?thesis
      using "1.prems" le s1 mono "1.IH" [OF le s1 refl True refl]
      by (subst (asm) exec_loop.simps) (auto simp: Let_def split: if_splits)
  next
    case False
    then show ?thesis
      using "1.prems" le s1 mono
      by (subst (asm) exec_loop.simps) (auto split: flow.splits)
  qed
qed

text \<open>\<^verbatim>\<open>template_execute\<close>: its result, the context and the new offset; and the entry
  points that start from a fresh context.\<close>

definition template_execute ::
    "malloc \<Rightarrow> ust \<Rightarrow> byte list \<Rightarrow> nat \<Rightarrow> (flow \<times> ust \<times> nat) res" where
  "template_execute mok ctx data off =
     (if length data < off then Inl AssertionFailed
      else let s = ctx\<lparr>u_p := off, u_n := None\<rparr>
        in if u_p s = length data then Inr (Out, s, off)
           else bind_res (exec_loop mok data s) (\<lambda>(f, s1).
             Inr (f, s1, case f of Finish _ \<Rightarrow> u_p s1 + 1 | _ \<Rightarrow> u_p s1)))"

definition template_init :: "zone option \<Rightarrow> ust" where
  "template_init z = \<lparr>u_cs = CS_HEADER, trail = 0, stack = [], uzone = z, referenced = False,
                      u_p = 0, u_n = None\<rparr>"

record msgpack_unpacked =
  unpacked_zone :: "zone option"
  unpacked_data :: msgpack_object

definition msgpack_unpacked_init :: msgpack_unpacked where
  "msgpack_unpacked_init = \<lparr>unpacked_zone = None, unpacked_data = NIL\<rparr>"

definition msgpack_unpacked_destroy :: "msgpack_unpacked \<Rightarrow> msgpack_unpacked" where
  "msgpack_unpacked_destroy r =
     (if unpacked_zone r \<noteq> None then msgpack_unpacked_init else r)"

definition MSGPACK_ZONE_CHUNK_SIZE :: u64 where
  "MSGPACK_ZONE_CHUNK_SIZE = 8192"

definition msgpack_unpack_next ::
    "malloc \<Rightarrow> msgpack_unpacked \<Rightarrow> byte list \<Rightarrow> nat \<Rightarrow> (bool \<times> msgpack_unpacked \<times> nat) res" where
  "msgpack_unpack_next mok r data off =
     (let r0 = msgpack_unpacked_destroy r in
      if length data \<le> off then Inr (False, r0, off)
      else bind_res
        (template_execute mok (template_init (msgpack_zone_new mok MSGPACK_ZONE_CHUNK_SIZE)) data off)
        (\<lambda>(f, s, noff).
          case f of
            Finish ob \<Rightarrow> Inr (True, \<lparr>unpacked_zone = uzone s, unpacked_data = ob\<rparr>, noff)
          | _ \<Rightarrow> Inr (False, r0, off)))"

datatype unpack_return = UNPACK_SUCCESS | UNPACK_EXTRA_BYTES | UNPACK_CONTINUE | UNPACK_PARSE_ERROR

definition msgpack_unpack ::
    "malloc \<Rightarrow> zone option \<Rightarrow> byte list \<Rightarrow> nat \<Rightarrow> (unpack_return \<times> msgpack_object option \<times> nat) res" where
  "msgpack_unpack mok z data off =
     (if length data \<le> off then Inr (UNPACK_CONTINUE, None, off)
      else bind_res (template_execute mok (template_init z) data off) (\<lambda>(f, s, noff).
        case f of
          Failed \<Rightarrow> Inr (UNPACK_PARSE_ERROR, None, off)
        | Finish ob \<Rightarrow>
            Inr (if noff < length data then UNPACK_EXTRA_BYTES else UNPACK_SUCCESS, Some ob, noff)
        | _ \<Rightarrow> Inr (UNPACK_CONTINUE, None, noff)))"

end
