(* ===== verification/MsgpackSafety.thy ===== *)
theory MsgpackSafety
  imports Msgpack
begin

text \<open>
  Safety of the MessagePack decoder: on every input it stays inside the buffer,
  inside its stack of containers and inside the storage it took from the zone, it
  ends, and a decision it reaches on a prefix of the input it also reaches on the
  whole input.
\<close>

section \<open>Invariant\<close>

text \<open>A container on the stack still expects items, and its storage has room for them.\<close>

definition frame_ok :: "frame \<Rightarrow> bool" where
  "frame_ok c \<longleftrightarrow> fcount c \<noteq> 0 \<and>
     (case fct c of
        CT_ARRAY_ITEM \<Rightarrow>
          (\<exists>xs. fobj c = ARRAY xs \<and> (length xs + unat (fcount c)) * sizeof_object \<le> froom c)
      | _ \<Rightarrow>
          (\<exists>xs. fobj c = MAP xs \<and> (length xs + unat (fcount c)) * sizeof_object_kv \<le> froom c) \<and>
          (fct c = CT_MAP_VALUE \<longrightarrow> fmap_key c \<noteq> None))"

definition frames_ok :: "frame list \<Rightarrow> bool" where
  "frames_ok st \<longleftrightarrow> list_all frame_ok st \<and> length st \<le> MSGPACK_EMBED_STACK_SIZE"

definition zone_ok :: "zone option \<Rightarrow> bool" where
  "zone_ok z \<longleftrightarrow> (\<exists>zz. z = Some zz \<and> zone_inv zz)"

text \<open>The number of bytes a state waits for.\<close>

definition width :: "nat \<Rightarrow> nat" where
  "width c =
     (if c \<in> {CS_BIN_8, CS_UINT_8, CS_INT_8, CS_RAW_8} then 1
      else if c \<in> {CS_BIN_16, CS_UINT_16, CS_INT_16, CS_RAW_16, CS_ARRAY_16, CS_MAP_16} then 2
      else if c \<in> {CS_BIN_32, CS_FLOAT, CS_UINT_32, CS_INT_32, CS_RAW_32, CS_ARRAY_32, CS_MAP_32}
        then 4
      else if c \<in> {CS_DOUBLE, CS_UINT_64, CS_INT_64} then 8
      else 0)"

definition trail_ok :: "ust \<Rightarrow> bool" where
  "trail_ok s \<longleftrightarrow> u_cs s = CS_HEADER \<or> trail s \<noteq> 0 \<and>
     (u_cs s = ACS_RAW_VALUE \<or> unat (trail s) = width (u_cs s))"

definition ust_ok :: "ust \<Rightarrow> bool" where
  "ust_ok s \<longleftrightarrow> frames_ok (stack s) \<and> zone_ok (uzone s)"

text \<open>What each piece of the state machine guarantees, started at a position below
  the end of the buffer.\<close>

definition good :: "byte list \<Rightarrow> (flow \<times> ust) res \<Rightarrow> bool" where
  "good data r \<longleftrightarrow> (\<exists>f s'. r = Inr (f, s') \<and> ust_ok s' \<and>
     (if f = Out then u_p s' \<le> length data \<and> trail_ok s' else u_p s' < length data))"

lemma good_Inr [simp]:
  "good data (Inr (f, s')) \<longleftrightarrow> ust_ok s' \<and>
     (if f = Out then u_p s' \<le> length data \<and> trail_ok s' else u_p s' < length data)"
  by (auto simp: good_def)

section \<open>Every piece is safe\<close>

lemma unat_dec:
  fixes c :: u64
  assumes "c \<noteq> 0"
  shows "unat (c - 1) = unat c - 1"
  using assms by (simp add: unat_minus_one)

lemma push_frames_ok:
  assumes "frames_ok st"
  shows "\<exists>f st'. push_frames st ob = Inr (f, st') \<and> frames_ok st' \<and> f \<noteq> Out \<and> f \<noteq> Failed"
  using assms
proof (induction st arbitrary: ob)
  case Nil
  then show ?case by simp
next
  case (Cons c st)
  then have c: "frame_ok c" and st: "frames_ok st" "length st < MSGPACK_EMBED_STACK_SIZE"
    by (auto simp: frames_ok_def)
  have IH: "\<exists>f st'. push_frames st ob = Inr (f, st') \<and> list_all frame_ok st' \<and>
       length st' \<le> MSGPACK_EMBED_STACK_SIZE \<and> f \<noteq> Out \<and> f \<noteq> Failed" for ob
    using Cons.IH [OF st(1)] by (auto simp: frames_ok_def)
  have nz: "unat (fcount c) \<ge> 1" using c by (simp add: frame_ok_def Suc_le_eq unat_gt_0)
  show ?case
  proof (cases "fct c")
    case CT_ARRAY_ITEM
    then obtain xs where xs: "fobj c = ARRAY xs"
      "(length xs + unat (fcount c)) * sizeof_object \<le> froom c"
      using c by (auto simp: frame_ok_def)
    have room: "(length xs + 1) * sizeof_object \<le> froom c"
      using xs(2) nz by (meson add_left_mono le_trans mult_le_mono1)
    show ?thesis
      using IH CT_ARRAY_ITEM xs room st c
      by (auto simp: template_callback_array_item_def Let_def frames_ok_def frame_ok_def unat_dec
          nz algebra_simps)
  next
    case CT_MAP_KEY
    then show ?thesis using c st by (auto simp: frames_ok_def frame_ok_def)
  next
    case CT_MAP_VALUE
    then obtain xs k where xs: "fobj c = MAP xs" "fmap_key c = Some k"
      "(length xs + unat (fcount c)) * sizeof_object_kv \<le> froom c"
      using c by (auto simp: frame_ok_def)
    have room: "(length xs + 1) * sizeof_object_kv \<le> froom c"
      using xs(3) nz by (meson add_left_mono le_trans mult_le_mono1)
    show ?thesis
      using IH CT_MAP_VALUE xs room st c
      by (auto simp: template_callback_map_item_def Let_def frames_ok_def frame_ok_def unat_dec
          nz algebra_simps)
  qed
qed

lemma push_value_good:
  assumes "ust_ok s" and "u_p s < length data"
  shows "good data (push_value s ob)"
proof -
  obtain f st where "push_frames (stack s) ob = Inr (f, st)" "frames_ok st" "f \<noteq> Out"
    using push_frames_ok [of "stack s" ob] assms(1) by (auto simp: ust_ok_def)
  then have "push_value s ob = Inr (f, s\<lparr>stack := st\<rparr>)" "ust_ok (s\<lparr>stack := st\<rparr>)"
    using assms(1) by (simp_all add: push_value_def ust_ok_def)
  then show ?thesis using assms(2) \<open>f \<noteq> Out\<close> by simp
qed

text \<open>The storage of a container is large enough for the announced number of items.\<close>

definition callback_ok ::
    "(zone option \<Rightarrow> u32 \<Rightarrow> ((msgpack_object \<times> nat) option \<times> zone option) res) \<Rightarrow>
     msgpack_object \<Rightarrow> nat \<Rightarrow> bool" where
  "callback_ok cb ob sz \<longleftrightarrow> (\<forall>z k. zone_ok z \<longrightarrow>
     (\<exists>r z'. cb z k = Inr (r, z') \<and> zone_ok z' \<and>
        (case r of None \<Rightarrow> True | Some (ob', room) \<Rightarrow> ob' = ob \<and> unat k * sz \<le> room)))"

lemma unat_ucast_32_64: "unat (ucast (k :: u32) :: u64) = unat k"
proof -
  have "unat k < 2 ^ 32" using unsigned_less [of k] by simp
  then show ?thesis by (simp add: unsigned_ucast_eq take_bit_nat_eq_self)
qed

lemma mult_less_bound: "(a :: nat) < x \<Longrightarrow> b < y \<Longrightarrow> a * b < x * y"
  by (rule mult_strict_mono) auto

lemma unat_ucast_mult:
  fixes k :: u32
  assumes "sz < 2 ^ 30"
  shows "unat (ucast k * of_nat sz :: u64) = unat k * sz"
proof -
  have k: "unat k < 2 ^ 32" using unsigned_less [of k] by simp
  then have "unat k * sz < 2 ^ 32 * 2 ^ 30" using assms by (rule mult_less_bound)
  moreover have "unat (ucast k :: u64) = unat k" by (rule unat_ucast_32_64)
  moreover have "unat (of_nat sz :: u64) = sz" using assms by (simp add: unat_of_nat)
  ultimately show ?thesis by (simp add: unat_word_ariths)
qed

lemma zone_malloc_callback:
  fixes k :: u32
  assumes "zone_ok z" and "sz < 2 ^ 29"
  shows "\<exists>r z'. zone_malloc mok z (ucast k * of_nat sz) = Inr (r, z') \<and> zone_ok z' \<and>
           (case r of None \<Rightarrow> True | Some x \<Rightarrow> unat k * sz \<le> rsize x)"
proof -
  obtain zz where zz: "z = Some zz" "zone_inv zz" using assms(1) by (auto simp: zone_ok_def)
  have k: "unat k < 2 ^ 32" using unsigned_less [of k] by simp
  have u: "unat (ucast k * of_nat sz :: u64) = unat k * sz"
    using assms(2) by (intro unat_ucast_mult) simp
  have "unat k * sz < 2 ^ 32 * 2 ^ 29" using k assms(2) by (rule mult_less_bound)
  then have small: "unat (ucast k * of_nat sz :: u64) < 2 ^ 62" using u by simp
  obtain r z' where r: "msgpack_zone_malloc mok zz (ucast k * of_nat sz) = Inr (r, z')"
    using zone_malloc_ok [OF zz(2) small] by blast
  have "zone_inv z'" using zone_malloc_inv [OF zz(2) small r] .
  moreover have "case r of None \<Rightarrow> True | Some x \<Rightarrow> unat k * sz \<le> rsize x"
    using zone_malloc_region(3) [OF zz(2) small] r u by (auto split: option.splits)
  ultimately show ?thesis using r zz by (auto simp: zone_malloc_def zone_ok_def)
qed

lemma callback_array_ok: "callback_ok (template_callback_array mok) (ARRAY []) sizeof_object"
  unfolding callback_ok_def
proof (intro allI impI)
  fix z and k :: u32 assume "zone_ok z"
  then obtain r z' where "zone_malloc mok z (ucast k * of_nat sizeof_object) = Inr (r, z')"
    "zone_ok z'" "case r of None \<Rightarrow> True | Some x \<Rightarrow> unat k * sizeof_object \<le> rsize x"
    using zone_malloc_callback [of z sizeof_object mok k] by (auto simp: sizeof_object_def)
  then show "\<exists>r z'. template_callback_array mok z k = Inr (r, z') \<and> zone_ok z' \<and>
      (case r of None \<Rightarrow> True | Some (ob', room) \<Rightarrow> ob' = ARRAY [] \<and> unat k * sizeof_object \<le> room)"
    by (auto simp: template_callback_array_def split: option.splits)
qed

lemma callback_map_ok: "callback_ok (template_callback_map mok) (MAP []) sizeof_object_kv"
  unfolding callback_ok_def
proof (intro allI impI)
  fix z and k :: u32 assume "zone_ok z"
  then obtain r z' where "zone_malloc mok z (ucast k * of_nat sizeof_object_kv) = Inr (r, z')"
    "zone_ok z'" "case r of None \<Rightarrow> True | Some x \<Rightarrow> unat k * sizeof_object_kv \<le> rsize x"
    using zone_malloc_callback [of z sizeof_object_kv mok k] by (auto simp: sizeof_object_kv_def)
  then show "\<exists>r z'. template_callback_map mok z k = Inr (r, z') \<and> zone_ok z' \<and>
      (case r of None \<Rightarrow> True | Some (ob', room) \<Rightarrow> ob' = MAP [] \<and> unat k * sizeof_object_kv \<le> room)"
    by (auto simp: template_callback_map_def split: option.splits)
qed

lemma start_container_good:
  assumes "ust_ok s" and "u_p s < length data"
      and "callback_ok cb (ARRAY []) sizeof_object \<and> ct = CT_ARRAY_ITEM \<or>
           callback_ok cb (MAP []) sizeof_object_kv \<and> ct = CT_MAP_KEY"
  shows "good data (start_container cb s k ct)"
proof (cases "length (stack s) \<ge> MSGPACK_EMBED_STACK_SIZE")
  case True
  then show ?thesis using assms by (simp add: start_container_def)
next
  case False
  obtain ob sz where cb: "callback_ok cb ob sz"
    and obsz: "ob = ARRAY [] \<and> sz = sizeof_object \<and> ct = CT_ARRAY_ITEM \<or>
          ob = MAP [] \<and> sz = sizeof_object_kv \<and> ct = CT_MAP_KEY"
    using assms(3) by blast
  obtain r z where r: "cb (uzone s) k = Inr (r, z)" "zone_ok z"
    "case r of None \<Rightarrow> True | Some (ob', room) \<Rightarrow> ob' = ob \<and> unat k * sz \<le> room"
    using cb assms(1) unfolding callback_ok_def ust_ok_def by blast
  show ?thesis
  proof (cases r)
    case None
    then show ?thesis
      using assms r False by (simp add: start_container_def ust_ok_def)
  next
    case (Some pr)
    then obtain room where pr: "r = Some (ob, room)" "unat k * sz \<le> room"
      using r(3) by (cases pr) auto
    show ?thesis
    proof (cases "k = 0")
      case True
      then show ?thesis
        using pr r False assms push_value_good [of "s\<lparr>uzone := z\<rparr>" data ob]
        by (simp add: start_container_def ust_ok_def)
    next
      case k: False
      then have "unat (ucast k :: u64) \<noteq> 0" by (simp add: unat_ucast_32_64 unat_eq_zero)
      then have nz: "(ucast k :: u64) \<noteq> 0" by (metis unsigned_0)
      have "frame_ok \<lparr>fobj = ob, froom = room, fcount = ucast k, fct = ct, fmap_key = None\<rparr>"
        using pr(2) obsz nz unat_ucast_32_64 [of k] by (auto simp: frame_ok_def)
      then show ?thesis
        using pr r False assms k
        by (simp add: start_container_def ust_ok_def frames_ok_def)
    qed
  qed
qed

lemma ust_ok_advance [simp]: "ust_ok (advance s) = ust_ok s"
  by (simp add: ust_ok_def advance_def)

lemma ust_ok_updates [simp]:
  "ust_ok (s\<lparr>trail := t\<rparr>) = ust_ok s" "ust_ok (s\<lparr>u_cs := c\<rparr>) = ust_ok s"
  "ust_ok (s\<lparr>u_p := i\<rparr>) = ust_ok s" "ust_ok (s\<lparr>u_n := x\<rparr>) = ust_ok s"
  "ust_ok (s\<lparr>referenced := b\<rparr>) = ust_ok s"
  by (simp_all add: ust_ok_def)

lemma unat_trail_dec: "(t :: u32) \<noteq> 0 \<Longrightarrow> unat (t - 1) = unat t - 1"
  by (simp add: unat_minus_one)

lemma u_p_advance_less:
  assumes "trail s \<noteq> 0" and "\<not> length data - u_p s < unat (trail s)"
  shows "u_p (advance s) < length data"
proof -
  have "0 < unat (trail s)" using assms(1) by (simp add: unat_gt_0)
  then show ?thesis using assms by (simp add: advance_def unat_trail_dec)
qed

lemma u_cs_advance [simp]: "u_cs (advance s) = u_cs s"
  by (simp add: advance_def)

lemma raw_value_good: "ust_ok s \<Longrightarrow> u_p s < length data \<Longrightarrow> good data (raw_value s)"
  by (simp add: raw_value_def push_value_good)

lemma raw_trail_good:
  assumes "ust_ok s" and "u_p s \<le> length data" and "trail s \<noteq> 0" and "u_cs s = ACS_RAW_VALUE"
  shows "good data (raw_trail data s)"
  using assms u_p_advance_less [of s data]
  by (auto simp: raw_trail_def trail_ok_def intro: raw_value_good)

lemma again_raw_good:
  assumes "ust_ok s" and "u_p s < length data"
  shows "good data (again_raw data s k)"
  using assms by (auto simp: again_raw_def Let_def intro!: raw_value_good raw_trail_good)

lemma bytes_at_ok: "i + k \<le> length data \<Longrightarrow> bytes_at data i k = Inr (take k (drop i data))"
  by (simp add: bytes_at_def)

lemma load_ok:
  "i + 1 \<le> length data \<Longrightarrow> \<exists>d. load8 data i = Inr d"
  "i + 2 \<le> length data \<Longrightarrow> \<exists>d. load16 data i = Inr d"
  "i + 4 \<le> length data \<Longrightarrow> \<exists>d. load32 data i = Inr d"
  "i + 8 \<le> length data \<Longrightarrow> \<exists>d. load64 data i = Inr d"
  by (simp_all add: load8_def load16_def load32_def load64_def bytes_at_def)

lemma good_bind:
  assumes "\<exists>d. m = Inr d" and "\<And>d. good data (f d)"
  shows "good data (bind_res m f)"
  using assms by auto

lemma good_if:
  "(b \<Longrightarrow> good data x) \<Longrightarrow> (\<not> b \<Longrightarrow> good data y) \<Longrightarrow> good data (if b then x else y)"
  by simp

lemma fixed_trail_good:
  assumes "ust_ok s" and "u_p s \<le> length data" and "u_cs s \<noteq> CS_HEADER" and "trail_ok s"
  shows "good data (fixed_trail mok data s)"
proof (cases "length data - u_p s < unat (trail s)")
  case True
  then show ?thesis using assms by (simp add: fixed_trail_def)
next
  case False
  have nz: "trail s \<noteq> 0" and w: "u_cs s \<noteq> ACS_RAW_VALUE \<Longrightarrow> unat (trail s) = width (u_cs s)"
    using assms by (auto simp: trail_ok_def)
  have lt: "u_p (advance s) < length data" by (rule u_p_advance_less [OF nz False])
  have ok: "ust_ok (advance s)" using assms(1) by simp
  have room: "u_cs s \<noteq> ACS_RAW_VALUE \<Longrightarrow> u_p s + width (u_cs s) \<le> length data"
    using False w assms(2) by simp
  note pieces = push_value_good [OF ok lt] again_raw_good [OF ok lt] raw_value_good [OF ok lt]
    start_container_good [OF ok lt, of "template_callback_array mok" CT_ARRAY_ITEM]
    start_container_good [OF ok lt, of "template_callback_map mok" CT_MAP_KEY]
  show ?thesis
    unfolding fixed_trail_def Let_def u_cs_advance
    by (intro good_if good_bind pieces load_ok)
      (use False room in \<open>auto simp: width_def callback_array_ok callback_map_ok assms(1) lt\<close>)
qed

lemma byte_range:
  fixes b :: byte
  assumes "lo \<le> b" and "b \<le> hi"
  shows "b \<in> set (map of_nat [unat lo ..< Suc (unat hi)])"
proof -
  have "unat b \<in> set [unat lo ..< Suc (unat hi)]"
    using assms by (auto simp: word_le_nat_alt)
  moreover have "b = of_nat (unat b)" by simp
  ultimately show ?thesis unfolding set_map by (rule image_eqI [rotated])
qed

definition next_ok :: "byte \<Rightarrow> u32 \<Rightarrow> bool" where
  "next_ok b t \<longleftrightarrow> unat (b AND 0x1f) \<noteq> CS_HEADER \<and> t \<noteq> 0 \<and> unat t = width (unat (b AND 0x1f))"

lemma next_ok_bin:
  "b = 0xc4 \<or> b = 0xc5 \<or> b = 0xc6 \<Longrightarrow> next_ok b (push_bit (unat (b AND 0x03)) 1)"
  by (elim disjE) (simp_all add: next_ok_def width_def push_bit_eq_mult)

lemma next_ok_number:
  assumes "0xca \<le> b" and "b \<le> 0xd3"
  shows "next_ok b (push_bit (unat (b AND 0x03)) 1)"
proof -
  have "b = 0xca \<or> b = 0xcb \<or> b = 0xcc \<or> b = 0xcd \<or> b = 0xce \<or> b = 0xcf \<or>
      b = 0xd0 \<or> b = 0xd1 \<or> b = 0xd2 \<or> b = 0xd3"
    using byte_range [OF assms] by (simp add: upt_rec_numeral)
  then show ?thesis by (elim disjE) (simp_all add: next_ok_def width_def push_bit_eq_mult)
qed

lemma next_ok_raw:
  "b = 0xd9 \<or> b = 0xda \<or> b = 0xdb \<Longrightarrow> next_ok b (push_bit (unat ((b AND 0x03) - 1)) 1)"
  by (elim disjE) (simp_all add: next_ok_def width_def push_bit_eq_mult)

lemma next_ok_container:
  assumes "0xdc \<le> b" and "b \<le> 0xdf"
  shows "next_ok b (push_bit (unat (b AND 0x01)) 2)"
proof -
  have "b = 0xdc \<or> b = 0xdd \<or> b = 0xde \<or> b = 0xdf"
    using byte_range [OF assms] by (simp add: upt_rec_numeral)
  then show ?thesis by (elim disjE) (simp_all add: next_ok_def width_def push_bit_eq_mult)
qed

lemma again_fixed_trail_good:
  assumes "ust_ok s" and "u_p s < length data"
      and "next_ok b t"
  shows "good data (again_fixed_trail mok data s b t)"
  unfolding again_fixed_trail_def
  using assms by (intro fixed_trail_good) (auto simp: trail_ok_def next_ok_def)

lemma not_le_byte: "\<not> 0xe0 \<le> (b :: byte) \<Longrightarrow> b \<le> 0xdf"
  by unat_arith

lemma header_good:
  assumes ok: "ust_ok s" and lt: "u_p s < length data"
  shows "good data (header mok data s)"
proof -
  note pieces = push_value_good [OF ok lt] again_raw_good [OF ok lt]
    start_container_good [OF ok lt, of "template_callback_array mok" CT_ARRAY_ITEM]
    start_container_good [OF ok lt, of "template_callback_map mok" CT_MAP_KEY]
    again_fixed_trail_good [OF ok lt]
  have ex: "\<exists>d. load8 data (u_p s) = Inr d" using lt by (intro load_ok) simp
  show ?thesis
    unfolding header_def
    by (intro good_bind [OF ex] good_if pieces next_ok_bin next_ok_number next_ok_raw
        next_ok_container)
      (simp_all add: callback_array_ok callback_map_ok ok lt not_le_byte)
qed

lemma unpack_step_good:
  assumes "ust_ok s" and "u_p s < length data" and "trail_ok s"
  shows "good data (unpack_step mok data s)"
  using assms header_good fixed_trail_good by (simp add: unpack_step_def)

lemma exec_loop_good:
  assumes "ust_ok s" and "u_p s < length data" and "trail_ok s"
  shows "good data (exec_loop mok data s)"
  using assms
proof (induction mok data s rule: exec_loop.induct)
  case (1 mok data s)
  obtain f s1 where s1: "unpack_step mok data s = Inr (f, s1)" "ust_ok s1"
    "if f = Out then u_p s1 \<le> length data \<and> trail_ok s1 else u_p s1 < length data"
    using unpack_step_good [OF "1.prems", of mok] by (auto simp: good_def)
  show ?case
  proof (cases "f = Header_again")
    case True
    define s2 where "s2 = s1\<lparr>u_cs := CS_HEADER, u_p := u_p s1 + 1\<rparr>"
    have s2: "ust_ok s2" "u_p s2 \<le> length data" "trail_ok s2"
      using s1 True by (auto simp: s2_def trail_ok_def)
    have "u_p s2 \<noteq> length data \<Longrightarrow> good data (exec_loop mok data s2)"
      using "1.IH" [of "(f, s1)" f s1 s2] "1.prems" s1(1) s2 True by (simp add: s2_def)
    then show ?thesis
      using s1(1) s2 True "1.prems"(2)
      by (subst exec_loop.simps) (simp add: Let_def s2_def trail_ok_def)
  next
    case False
    then show ?thesis
      using s1 "1.prems"(2) by (subst exec_loop.simps) (auto split: flow.splits)
  qed
qed

lemma zone_new_ok:
  "mok 0 (sizeof_zone + MSGPACK_ZONE_CHUNK_SIZE) \<Longrightarrow> mok 1 (sizeof_chunk + MSGPACK_ZONE_CHUNK_SIZE) \<Longrightarrow>
   zone_ok (msgpack_zone_new mok MSGPACK_ZONE_CHUNK_SIZE)"
  by (auto simp: zone_ok_def msgpack_zone_new_def zone_inv_def MSGPACK_ZONE_CHUNK_SIZE_def)

lemma template_init_ok [simp]: "ust_ok (template_init z) = zone_ok z"
  by (simp add: ust_ok_def template_init_def frames_ok_def)

lemma trail_ok_template_init [simp]: "trail_ok (template_init z)"
  by (simp add: trail_ok_def template_init_def)

lemma template_execute_ok:
  assumes "ust_ok ctx" and "trail_ok ctx" and "off \<le> length data"
  shows "\<exists>f s off'. template_execute mok ctx data off = Inr (f, s, off') \<and> ust_ok s \<and>
           off \<le> off' \<and> off' \<le> length data \<and> (f = Out \<longrightarrow> trail_ok s) \<and>
           ((\<exists>ob. f = Finish ob) \<longrightarrow> off < off')"
proof (cases "off = length data")
  case True
  then show ?thesis using assms by (auto simp: template_execute_def Let_def trail_ok_def)
next
  case False
  let ?s = "ctx\<lparr>u_p := off, u_n := None\<rparr>"
  have "trail_ok ?s" using assms(2) by (simp add: trail_ok_def)
  then have "good data (exec_loop mok data ?s)"
    using False assms by (intro exec_loop_good) simp_all
  then obtain f s where s: "exec_loop mok data ?s = Inr (f, s)" "ust_ok s"
    "if f = Out then u_p s \<le> length data \<and> trail_ok s else u_p s < length data"
    by (auto simp: good_def)
  have "off \<le> u_p s" using exec_loop_u_p [OF s(1)] by simp
  then show ?thesis
    using s False assms(3) by (auto simp: template_execute_def Let_def split: flow.splits)
qed

section \<open>Decisions on a prefix\<close>

text \<open>A result other than \<open>Out\<close> does not change when more input follows.\<close>

lemma load_append:
  "load8 data i = Inr d \<Longrightarrow> load8 (data @ ext) i = Inr d"
  "load16 data i = Inr e \<Longrightarrow> load16 (data @ ext) i = Inr e"
  "load32 data i = Inr f \<Longrightarrow> load32 (data @ ext) i = Inr f"
  "load64 data i = Inr g \<Longrightarrow> load64 (data @ ext) i = Inr g"
  by (auto simp: load8_def load16_def load32_def load64_def bytes_at_def split: if_splits)

definition stable :: "(flow \<times> ust) res \<Rightarrow> (flow \<times> ust) res \<Rightarrow> bool" where
  "stable r r' \<longleftrightarrow> (\<forall>f s'. r = Inr (f, s') \<longrightarrow> f \<noteq> Out \<longrightarrow> r' = Inr (f, s'))"

lemma stable_refl: "stable r r"
  by (simp add: stable_def)

lemma stable_if:
  "(b \<Longrightarrow> stable x x') \<Longrightarrow> (\<not> b \<Longrightarrow> stable y y') \<Longrightarrow>
   stable (if b then x else y) (if b then x' else y')"
  by simp

lemma stable_bind:
  assumes "\<And>d. m = Inr d \<Longrightarrow> m' = Inr d" and "\<And>d. stable (f d) (f' d)"
  shows "stable (bind_res m f) (bind_res m' f')"
  using assms by (cases m) (auto simp: stable_def)

lemma stable_wait:
  "(\<not> length data - i < k \<Longrightarrow> stable x y) \<Longrightarrow>
   stable (if length data - i < k then Inr (Out, s) else x)
          (if length (data @ ext) - i < k then Inr (Out, s) else y)"
  by (auto simp: stable_def)

lemma raw_trail_stable: "stable (raw_trail data s) (raw_trail (data @ ext) s)"
  unfolding raw_trail_def by (intro stable_wait stable_refl)

lemma again_raw_stable: "stable (again_raw data s k) (again_raw (data @ ext) s k)"
  unfolding again_raw_def Let_def by (intro stable_if stable_refl raw_trail_stable)

lemma fixed_trail_stable: "stable (fixed_trail mok data s) (fixed_trail mok (data @ ext) s)"
  unfolding fixed_trail_def Let_def
  by (intro stable_wait stable_if stable_bind load_append again_raw_stable stable_refl)

lemma header_stable: "stable (header mok data s) (header mok (data @ ext) s)"
  unfolding header_def again_fixed_trail_def
  by (intro stable_if stable_bind load_append again_raw_stable fixed_trail_stable stable_refl)

lemma unpack_step_append:
  "unpack_step mok data s = Inr (f, s') \<Longrightarrow> f \<noteq> Out \<Longrightarrow>
   unpack_step mok (data @ ext) s = Inr (f, s')"
  using header_stable [of mok data s ext] fixed_trail_stable [of mok data s ext]
  by (auto simp: unpack_step_def stable_def split: if_splits)

lemma exec_loop_append:
  assumes "exec_loop mok data s = Inr (f, s')" and "f \<noteq> Out"
  shows "exec_loop mok (data @ ext) s = Inr (f, s')"
  using assms
proof (induction mok data s rule: exec_loop.induct)
  case (1 mok data s)
  have le: "\<not> length data < u_p s"
    using "1.prems"(1) by (auto simp: exec_loop.simps [of mok data s])
  obtain f1 s1 where s1: "unpack_step mok data s = Inr (f1, s1)"
    using "1.prems"(1) le by (auto simp: exec_loop.simps [of mok data s] elim: bind_res_Inr_E)
  have nOut: "f1 \<noteq> Out"
    using "1.prems" le s1 by (auto simp: exec_loop.simps [of mok data s])
  have ext: "unpack_step mok (data @ ext) s = Inr (f1, s1)"
    by (rule unpack_step_append [OF s1 nOut])
  show ?case
  proof (cases "f1 = Header_again")
    case True
    define s2 where "s2 = s1\<lparr>u_cs := CS_HEADER, u_p := u_p s1 + 1\<rparr>"
    have "u_p s2 \<noteq> length data" and rec: "exec_loop mok data s2 = Inr (f, s')"
      using "1.prems" le s1 True
      by (auto simp: exec_loop.simps [of mok data s] Let_def s2_def split: if_splits)
    moreover from rec have "u_p s2 \<le> length data"
      by (auto simp: exec_loop.simps [of mok data s2] split: if_splits)
    ultimately have ne: "u_p s2 \<noteq> length (data @ ext)" by simp
    have "exec_loop mok (data @ ext) s2 = Inr (f, s')"
      using "1.IH" [OF le s1 refl True s2_def] \<open>u_p s2 \<noteq> length data\<close> rec "1.prems"(2) by simp
    then show ?thesis
      using ext True ne le by (subst exec_loop.simps) (simp add: Let_def s2_def)
  next
    case False
    then show ?thesis
      using "1.prems" le s1 ext
      by (subst exec_loop.simps) (auto simp: exec_loop.simps [of mok data s] split: flow.splits)
  qed
qed

lemma unpack_next_True_iff:
  "msgpack_unpack_next mok r data off = Inr (True, r', off') \<longleftrightarrow>
   off < length data \<and>
   (\<exists>s ob. exec_loop mok data
       ((template_init (msgpack_zone_new mok MSGPACK_ZONE_CHUNK_SIZE))\<lparr>u_p := off, u_n := None\<rparr>)
         = Inr (Finish ob, s) \<and>
      r' = \<lparr>unpacked_zone = uzone s, unpacked_data = ob\<rparr> \<and> off' = u_p s + 1)"
  by (auto simp: msgpack_unpack_next_def template_execute_def Let_def
      split: flow.splits elim!: bind_res_Inr_E)

lemma unpack_next_append:
  assumes "msgpack_unpack_next mok r data off = Inr (True, r', off')"
  shows "msgpack_unpack_next mok r (data @ ext) off = Inr (True, r', off')"
  using assms exec_loop_append unfolding unpack_next_True_iff by fastforce

lemma unpack_next_total:
  assumes "mok 0 (sizeof_zone + MSGPACK_ZONE_CHUNK_SIZE)"
      and "mok 1 (sizeof_chunk + MSGPACK_ZONE_CHUNK_SIZE)"
  shows "\<exists>b r' off'. msgpack_unpack_next mok r data off = Inr (b, r', off') \<and>
           (if b then off < off' \<and> off' \<le> length data else off' = off)"
proof (cases "length data \<le> off")
  case True
  then have "msgpack_unpack_next mok r data off = Inr (False, msgpack_unpacked_destroy r, off)"
    by (simp add: msgpack_unpack_next_def Let_def)
  then show ?thesis by auto
next
  case False
  let ?ctx = "template_init (msgpack_zone_new mok MSGPACK_ZONE_CHUNK_SIZE)"
  obtain f s off' where "template_execute mok ?ctx data off = Inr (f, s, off')"
    "off' \<le> length data" "(\<exists>ob. f = Finish ob) \<longrightarrow> off < off'"
    using template_execute_ok [of ?ctx off data mok] zone_new_ok [OF assms] False
    by auto
  then show ?thesis
    using False by (auto simp: msgpack_unpack_next_def Let_def split: flow.splits)
qed

section \<open>The decoder as an interface\<close>

text \<open>What a reader of a stream relies on: the decoder answers on every prefix of
  the stream, a positive answer consumes at least one byte and no more than there
  are, and further input does not change it.\<close>

locale stream_decoder =
  fixes decode :: "'b list \<Rightarrow> (bool \<times> 'r \<times> nat) res"
  assumes decode_total: "\<exists>b r k. decode xs = Inr (b, r, k)"
      and decode_bound: "decode xs = Inr (True, r, k) \<Longrightarrow> 0 < k \<and> k \<le> length xs"
      and decode_append: "decode xs = Inr (True, r, k) \<Longrightarrow> decode (xs @ ys) = Inr (True, r, k)"
begin

lemma decode_take_mono:
  assumes "decode (take i xs) = Inr (True, r, k)" and "i \<le> j"
  shows "decode (take j xs) = Inr (True, r, k)"
proof -
  have "take j xs = take i xs @ take (j - i) (drop i xs)"
    using assms(2) by (metis le_add_diff_inverse take_add)
  then show ?thesis using decode_append [OF assms(1)] by simp
qed

lemma decode_unique:
  assumes "decode (take i xs) = Inr (True, r, k)" and "decode (take j xs) = Inr (True, r', k')"
  shows "r = r' \<and> k = k'"
  using assms decode_take_mono [of i xs r k j] decode_take_mono [of j xs r' k' i]
  by (cases "i \<le> j") auto

text \<open>The first prefix that is decoded has all its bytes consumed, or the answer was
  already there: nothing is consumed that had not been read.\<close>

lemma decode_Nil: "\<exists>r k. decode [] = Inr (False, r, k)"
proof -
  obtain b r k where d: "decode [] = Inr (b, r, k)" using decode_total by blast
  then have "\<not> b" using decode_bound [of "[]" r k] by auto
  then show ?thesis using d by simp
qed

end

definition all_ok :: malloc where
  "all_ok i nb = True"

interpretation mp: stream_decoder "\<lambda>xs. msgpack_unpack_next all_ok msgpack_unpacked_init xs 0"
proof
  fix xs ys r k
  show "\<exists>b r k. msgpack_unpack_next all_ok msgpack_unpacked_init xs 0 = Inr (b, r, k)"
    using unpack_next_total [of all_ok msgpack_unpacked_init xs 0] by (auto simp: all_ok_def)
  assume a: "msgpack_unpack_next all_ok msgpack_unpacked_init xs 0 = Inr (True, r, k)"
  then show "0 < k \<and> k \<le> length xs"
    using unpack_next_total [of all_ok msgpack_unpacked_init xs 0] by (auto simp: all_ok_def)
  show "msgpack_unpack_next all_ok msgpack_unpacked_init (xs @ ys) 0 = Inr (True, r, k)"
    by (rule unpack_next_append [OF a])
qed

section \<open>Properties\<close>



text \<open>C16: A decoded object does not depend on what follows it in the buffer: a reader
  that decodes a growing prefix of a stream sees the same object and the same
  offset at every later prefix.\<close>

theorem unpack_next_prefix:
  assumes "msgpack_unpack_next mok r (take i xs) off = Inr (True, r', off')" and "i \<le> j"
  shows "msgpack_unpack_next mok r (take j xs) off = Inr (True, r', off')"
proof -
  have "take j xs = take i xs @ take (j - i) (drop i xs)"
    using assms(2) by (metis le_add_diff_inverse take_add)
  then show ?thesis using unpack_next_append [OF assms(1)] by simp
qed

theorem unpack_next_prefix_witness:
  "unpacked_data (fst (snd (projr
     (msgpack_unpack_next all_ok msgpack_unpacked_init (take 3 [0xcc, 0xc8, 0x07]) 0)))) =
   POSITIVE_INTEGER 200"
proof -
  have "msgpack_unpack_next all_ok msgpack_unpacked_init (take 2 [0xcc, 0xc8, 0x07]) 0 =
    Inr (True, \<lparr>unpacked_zone = msgpack_zone_new all_ok MSGPACK_ZONE_CHUNK_SIZE,
               unpacked_data = POSITIVE_INTEGER 200\<rparr>, 2)"
    by (simp add: msgpack_unpack_next_def template_execute_def template_init_def exec_loop.simps
        unpack_step_def header_def again_fixed_trail_def fixed_trail_def advance_def load8_def
        bytes_at_def push_value_def template_callback_uint_def)
  from unpack_next_prefix [OF this, of 3] show ?thesis by simp
qed

end
