(* ===== verification/MsgpackPack.thy ===== *)
theory MsgpackPack
  imports MsgpackSafety
begin

text \<open>
  The MessagePack encoder (\<^verbatim>\<open>src/ext/msgpack-c/include/msgpack/pack_template.h\<close>,
  \<^verbatim>\<open>src/ext/msgpack-c/src/objectc.c\<close>) and its inverse: the decoder reads back every
  object the encoder wrote, whatever follows it.

  The bytes handed to the packer's write callback are the result; the callback of
  the memory buffer does not fail.  The bytes of a raw object are read from the
  memory \<open>mem\<close> its pointer points into.
\<close>

section \<open>The encoder\<close>

definition store16 :: "u16 \<Rightarrow> byte list" where
  "store16 d = [ucast (drop_bit 8 d), ucast d]"

definition store32 :: "u32 \<Rightarrow> byte list" where
  "store32 d = [ucast (drop_bit 24 d), ucast (drop_bit 16 d), ucast (drop_bit 8 d), ucast d]"

definition store64 :: "u64 \<Rightarrow> byte list" where
  "store64 d =
     [ucast (drop_bit 56 d), ucast (drop_bit 48 d), ucast (drop_bit 40 d), ucast (drop_bit 32 d),
      ucast (drop_bit 24 d), ucast (drop_bit 16 d), ucast (drop_bit 8 d), ucast d]"

definition msgpack_pack_uint64 :: "u64 \<Rightarrow> byte list" where
  "msgpack_pack_uint64 d =
     (if d < 2 ^ 8 then
        if d < 2 ^ 7 then [ucast d] else [0xcc, ucast d]
      else if d < 2 ^ 16 then 0xcd # store16 (ucast d)
      else if d < 2 ^ 32 then 0xce # store32 (ucast d)
      else 0xcf # store64 d)"

definition msgpack_pack_int64 :: "int \<Rightarrow> byte list" where
  "msgpack_pack_int64 d =
     (if d < - (2 ^ 5) then
        if d < - (2 ^ 15) then
          if d < - (2 ^ 31) then 0xd3 # store64 (of_int d) else 0xd2 # store32 (of_int d)
        else if d < - (2 ^ 7) then 0xd1 # store16 (of_int d) else [0xd0, of_int d]
      else if d < 2 ^ 7 then [of_int d]
      else if d < 2 ^ 16 then
        if d < 2 ^ 8 then [0xcc, of_int d] else 0xcd # store16 (of_int d)
      else if d < 2 ^ 32 then 0xce # store32 (of_int d)
      else 0xcf # store64 (of_int d))"

definition msgpack_pack_double :: "u64 \<Rightarrow> byte list" where
  "msgpack_pack_double d = 0xcb # store64 d"

definition msgpack_pack_nil :: "byte list" where
  "msgpack_pack_nil = [0xc0]"

definition msgpack_pack_true :: "byte list" where
  "msgpack_pack_true = [0xc3]"

definition msgpack_pack_false :: "byte list" where
  "msgpack_pack_false = [0xc2]"

definition msgpack_pack_array :: "u64 \<Rightarrow> byte list" where
  "msgpack_pack_array k =
     (if k < 16 then [0x90 OR ucast k]
      else if k < 65536 then 0xdc # store16 (ucast k)
      else 0xdd # store32 (ucast k))"

definition msgpack_pack_map :: "u64 \<Rightarrow> byte list" where
  "msgpack_pack_map k =
     (if k < 16 then [0x80 OR ucast k]
      else if k < 65536 then 0xde # store16 (ucast k)
      else 0xdf # store32 (ucast k))"

definition msgpack_pack_raw :: "u64 \<Rightarrow> byte list" where
  "msgpack_pack_raw l =
     (if l < 32 then [0xa0 OR ucast l]
      else if l < 65536 then 0xda # store16 (ucast l)
      else 0xdb # store32 (ucast l))"

definition msgpack_pack_raw_body :: "byte list \<Rightarrow> nat option \<Rightarrow> u32 \<Rightarrow> byte list res" where
  "msgpack_pack_raw_body mem ptr l =
     (if l = 0 then Inr []
      else case ptr of None \<Rightarrow> Inl NullDeref | Some i \<Rightarrow> bytes_at mem i (unat l))"

fun seq_bytes :: "byte list res list \<Rightarrow> byte list res" where
  "seq_bytes [] = Inr []"
| "seq_bytes (m # ms) = bind_res m (\<lambda>bs. bind_res (seq_bytes ms) (\<lambda>cs. Inr (bs @ cs)))"

fun msgpack_pack_object :: "byte list \<Rightarrow> msgpack_object \<Rightarrow> byte list res" where
  "msgpack_pack_object mem NIL = Inr msgpack_pack_nil"
| "msgpack_pack_object mem (BOOLEAN b) = Inr (if b then msgpack_pack_true else msgpack_pack_false)"
| "msgpack_pack_object mem (POSITIVE_INTEGER u) = Inr (msgpack_pack_uint64 u)"
| "msgpack_pack_object mem (NEGATIVE_INTEGER i) = Inr (msgpack_pack_int64 i)"
| "msgpack_pack_object mem (DOUBLE d) = Inr (msgpack_pack_double d)"
| "msgpack_pack_object mem (RAW ptr l) =
     bind_res (msgpack_pack_raw_body mem ptr l) (\<lambda>bs. Inr (msgpack_pack_raw (ucast l) @ bs))"
| "msgpack_pack_object mem (ARRAY xs) =
     bind_res (seq_bytes (map (msgpack_pack_object mem) xs)) (\<lambda>bs.
     Inr (msgpack_pack_array (of_nat (length xs)) @ bs))"
| "msgpack_pack_object mem (MAP kvs) =
     bind_res (seq_bytes (map (\<lambda>kv. bind_res (msgpack_pack_object mem (fst kv)) (\<lambda>kb.
        bind_res (msgpack_pack_object mem (snd kv)) (\<lambda>vb. Inr (kb @ vb)))) kvs)) (\<lambda>bs.
     Inr (msgpack_pack_map (of_nat (length kvs)) @ bs))"

section \<open>Values\<close>

text \<open>The value an object denotes: the bytes of a raw are resolved in its memory.\<close>

datatype mvalue =
    VNil
  | VBool bool
  | VInt int
  | VDouble u64
  | VRaw "byte list"
  | VArray "mvalue list"
  | VMap "(mvalue \<times> mvalue) list"

fun resolve :: "byte list \<Rightarrow> msgpack_object \<Rightarrow> mvalue" where
  "resolve mem NIL = VNil"
| "resolve mem (BOOLEAN b) = VBool b"
| "resolve mem (POSITIVE_INTEGER u) = VInt (uint u)"
| "resolve mem (NEGATIVE_INTEGER i) = VInt i"
| "resolve mem (DOUBLE d) = VDouble d"
| "resolve mem (RAW ptr l) =
     VRaw (case ptr of None \<Rightarrow> [] | Some i \<Rightarrow> take (unat l) (drop i mem))"
| "resolve mem (ARRAY xs) = VArray (map (resolve mem) xs)"
| "resolve mem (MAP kvs) = VMap (map (\<lambda>kv. (resolve mem (fst kv), resolve mem (snd kv))) kvs)"

text \<open>Objects the code can hold: counters fit their fields.\<close>

fun storable :: "msgpack_object \<Rightarrow> bool" where
  "storable (NEGATIVE_INTEGER i) = (- (2 ^ 63) \<le> i \<and> i < 0)"
| "storable (ARRAY xs) = (length xs < 2 ^ 32 \<and> (\<forall>x \<in> set xs. storable x))"
| "storable (MAP kvs) =
     (length kvs < 2 ^ 32 \<and> (\<forall>kv \<in> set kvs. storable (fst kv) \<and> storable (snd kv)))"
| "storable ob = True"

fun depth :: "msgpack_object \<Rightarrow> nat" where
  "depth (ARRAY xs) = Suc (foldr (\<lambda>x m. max (depth x) m) xs 0)"
| "depth (MAP kvs) = Suc (foldr (\<lambda>kv m. max (max (depth (fst kv)) (depth (snd kv))) m) kvs 0)"
| "depth ob = 0"

section \<open>Loads invert stores\<close>

lemma drop_eq_bytes_at:
  "drop i data = bs @ rest \<Longrightarrow> i \<le> length data \<Longrightarrow> bytes_at data i (length bs) = Inr bs"
proof -
  assume d: "drop i data = bs @ rest" and i: "i \<le> length data"
  have "length data - i = length bs + length rest" using arg_cong [OF d, of length] by simp
  then show ?thesis using d i by (simp add: bytes_at_def)
qed

lemma store16_load:
  "push_bit 8 (ucast (ucast (drop_bit 8 d) :: byte)) OR ucast (ucast d :: byte) = (d :: u16)"
  (is "?l = d")
proof (rule bit_eqI)
  fix i assume "possible_bit TYPE(16 word) i"
  then have "i < 16" by simp
  then show "bit ?l i = bit d i" unfolding bit_or_iff slice_bit low_bit by linarith
qed

lemma store32_load:
  "push_bit 24 (ucast (ucast (drop_bit 24 d) :: byte)) OR
   push_bit 16 (ucast (ucast (drop_bit 16 d) :: byte)) OR
   push_bit 8 (ucast (ucast (drop_bit 8 d) :: byte)) OR ucast (ucast d :: byte) = (d :: u32)"
  (is "?l = d")
proof (rule bit_eqI)
  fix i assume "possible_bit TYPE(32 word) i"
  then have "i < 32" by simp
  then show "bit ?l i = bit d i" unfolding bit_or_iff slice_bit low_bit by linarith
qed

lemma store64_load:
  "push_bit 56 (ucast (ucast (drop_bit 56 d) :: byte)) OR
   push_bit 48 (ucast (ucast (drop_bit 48 d) :: byte)) OR
   push_bit 40 (ucast (ucast (drop_bit 40 d) :: byte)) OR
   push_bit 32 (ucast (ucast (drop_bit 32 d) :: byte)) OR
   push_bit 24 (ucast (ucast (drop_bit 24 d) :: byte)) OR
   push_bit 16 (ucast (ucast (drop_bit 16 d) :: byte)) OR
   push_bit 8 (ucast (ucast (drop_bit 8 d) :: byte)) OR ucast (ucast d :: byte) = (d :: u64)"
  (is "?l = d")
proof (rule bit_eqI)
  fix i assume "possible_bit TYPE(64 word) i"
  then have "i < 64" by simp
  then show "bit ?l i = bit d i" unfolding bit_or_iff slice_bit low_bit by linarith
qed

text \<open>\<open>at data i bs\<close>: the bytes \<open>bs\<close> stand at position \<open>i\<close>.\<close>

definition at :: "byte list \<Rightarrow> nat \<Rightarrow> byte list \<Rightarrow> bool" where
  "at data i bs \<longleftrightarrow> i \<le> length data \<and> (\<exists>rest. drop i data = bs @ rest)"

lemma at_length: "at data i bs \<Longrightarrow> i + length bs \<le> length data"
  by (auto simp: at_def dest!: arg_cong [where f = length])

lemma at_append: "at data i (bs @ cs) \<longleftrightarrow> at data i bs \<and> at data (i + length bs) cs"
proof
  assume a: "at data i (bs @ cs)"
  then obtain rest where d: "drop i data = bs @ cs @ rest" by (auto simp: at_def)
  have "drop (i + length bs) data = drop (length bs) (drop i data)" by (simp add: add.commute)
  then have "drop (i + length bs) data = cs @ rest" using d by simp
  then show "at data i bs \<and> at data (i + length bs) cs"
    using a d at_length [OF a] by (auto simp: at_def)
next
  assume a: "at data i bs \<and> at data (i + length bs) cs"
  then obtain r1 r2 where d: "drop i data = bs @ r1" "drop (i + length bs) data = cs @ r2"
    by (auto simp: at_def)
  have "drop (i + length bs) data = drop (length bs) (drop i data)" by (simp add: add.commute)
  then have "r1 = cs @ r2" using d by simp
  then show "at data i (bs @ cs)" using a d by (auto simp: at_def)
qed

lemma at_Cons: "at data i (b # bs) \<longleftrightarrow> at data i [b] \<and> at data (Suc i) bs"
  using at_append [of data i "[b]" bs] by simp

lemma at_bytes: "at data i bs \<Longrightarrow> bytes_at data i (length bs) = Inr bs"
  by (auto simp: at_def intro: drop_eq_bytes_at)

lemma at_load8: "at data i [b] \<Longrightarrow> load8 data i = Inr b"
  using at_bytes [of data i "[b]"] by (simp add: load8_def)

lemma length_store [simp]:
  "length (store16 a) = 2" "length (store32 b) = 4" "length (store64 c) = 8"
  by (simp_all add: store16_def store32_def store64_def)

lemma at_load16: "at data i (store16 d) \<Longrightarrow> load16 data i = Inr d"
  using at_bytes [of data i "store16 d"]
  by (simp add: load16_def) (simp add: store16_def store16_load)

lemma at_load32: "at data i (store32 d) \<Longrightarrow> load32 data i = Inr d"
  using at_bytes [of data i "store32 d"]
  by (simp add: load32_def) (simp add: store32_def store32_load)

lemma at_load64: "at data i (store64 d) \<Longrightarrow> load64 data i = Inr d"
  using at_bytes [of data i "store64 d"]
  by (simp add: load64_def) (simp add: store64_def store64_load)

lemma at_take: "at data i bs \<Longrightarrow> take (length bs) (drop i data) = bs"
  by (auto simp: at_def)

section \<open>Casts\<close>

lemma ucast_ucast_id:
  fixes d :: u64
  shows "d < 2 ^ 8 \<Longrightarrow> ucast (ucast d :: byte) = d"
    and "d < 2 ^ 16 \<Longrightarrow> ucast (ucast d :: u16) = d"
    and "d < 2 ^ 32 \<Longrightarrow> ucast (ucast d :: u32) = d"
  by (simp_all add: word_unat_eq_iff word_less_nat_alt take_bit_nat_eq_self
      unsigned_ucast_eq unsigned_take_bit_eq)

lemma ucast_up_down: "ucast (ucast (len :: u32) :: u64) = len"
  by (rule bit_eqI) (simp add: bit_simps)

lemma ucast_16_32:
  assumes "(ucast (len :: u32) :: u64) < 65536"
  shows "ucast (ucast (ucast len :: u64) :: u16) = len"
proof -
  have narrow: "ucast (ucast y :: u64) = (ucast y :: u32)" for y :: u16
    by (rule bit_eqI) (auto simp: bit_simps)
  have "ucast (ucast (ucast len :: u64) :: u16) = (ucast len :: u64)"
    using assms by (intro ucast_ucast_id(2)) simp
  then have "ucast (ucast (ucast (ucast len :: u64) :: u16) :: u64) = (ucast (ucast len :: u64) :: u32)"
    by (rule arg_cong)
  then show ?thesis by (simp only: narrow ucast_up_down)
qed

lemma ucast_small_byte: "(d :: u64) < 2 ^ 7 \<Longrightarrow> (ucast d :: byte) \<le> 0x7f"
  by (simp add: word_le_nat_alt unsigned_ucast_eq word_less_nat_alt take_bit_nat_eq_self)

lemma sint_of_int:
  "- (2 ^ 7) \<le> d \<Longrightarrow> d < 2 ^ 7 \<Longrightarrow> sint (of_int d :: byte) = d"
  "- (2 ^ 15) \<le> d \<Longrightarrow> d < 2 ^ 15 \<Longrightarrow> sint (of_int d :: u16) = d"
  "- (2 ^ 31) \<le> d \<Longrightarrow> d < 2 ^ 31 \<Longrightarrow> sint (of_int d :: u32) = d"
  "- (2 ^ 63) \<le> d \<Longrightarrow> d < 2 ^ 63 \<Longrightarrow> sint (of_int d :: u64) = d"
  by (simp_all add: signed_of_int signed_take_bit_int_eq_self)

lemma negative_fixnum:
  assumes "- (2 ^ 5) \<le> d" and "d < 0"
  shows "0xe0 \<le> (of_int d :: byte)" and "\<not> (of_int d :: byte) \<le> 0x7f"
proof -
  have "d mod 256 = (d + 256) mod 256" by simp
  also have "\<dots> = d + 256" using assms by (intro mod_pos_pos_trivial) simp_all
  finally have "d mod 256 = d + 256" .
  then have "uint (of_int d :: byte) = d + 256" by (simp add: uint_word_of_int)
  then show "0xe0 \<le> (of_int d :: byte)" and "\<not> (of_int d :: byte) \<le> 0x7f"
    using assms by (simp_all add: word_le_def)
qed

lemma small_cases:
  fixes k :: u64
  assumes "k < of_nat m" and "m < 2 ^ 32"
  shows "\<exists>i < m. k = of_nat i"
proof -
  have "unat k < m" using assms by (simp add: word_less_nat_alt unat_of_nat)
  then show ?thesis by (intro exI [of _ "unat k"]) simp
qed

lemma fix_array_header_all:
  "\<forall>i \<in> set [0 ..< 16].
    \<not> (0x90 OR ucast (of_nat i :: u64) :: byte) \<le> 0x7f \<and>
    \<not> 0xe0 \<le> (0x90 OR ucast (of_nat i :: u64) :: byte) \<and>
    \<not> 0xc0 \<le> (0x90 OR ucast (of_nat i :: u64) :: byte) \<and>
    \<not> 0xa0 \<le> (0x90 OR ucast (of_nat i :: u64) :: byte) \<and>
    0x90 \<le> (0x90 OR ucast (of_nat i :: u64) :: byte) \<and>
    ucast ((0x90 OR ucast (of_nat i :: u64) :: byte) AND 0x0f) = (ucast (of_nat i :: u64) :: u32)"
  by code_simp

lemma fix_array_header:
  assumes "(k :: u64) < 16"
  shows "\<not> (0x90 OR ucast k :: byte) \<le> 0x7f \<and>
    \<not> 0xe0 \<le> (0x90 OR ucast k :: byte) \<and>
    \<not> 0xc0 \<le> (0x90 OR ucast k :: byte) \<and>
    \<not> 0xa0 \<le> (0x90 OR ucast k :: byte) \<and>
    0x90 \<le> (0x90 OR ucast k :: byte) \<and>
    ucast ((0x90 OR ucast k :: byte) AND 0x0f) = (ucast k :: u32)"
proof -
  obtain i where "i < 16" and "k = of_nat i" using small_cases [of k 16] assms by auto
  then show ?thesis using fix_array_header_all by (simp del: of_nat_numeral)
qed

lemma fix_map_header_all:
  "\<forall>i \<in> set [0 ..< 16].
    \<not> (0x80 OR ucast (of_nat i :: u64) :: byte) \<le> 0x7f \<and>
    \<not> 0xe0 \<le> (0x80 OR ucast (of_nat i :: u64) :: byte) \<and>
    \<not> 0xc0 \<le> (0x80 OR ucast (of_nat i :: u64) :: byte) \<and>
    \<not> 0xa0 \<le> (0x80 OR ucast (of_nat i :: u64) :: byte) \<and>
    \<not> 0x90 \<le> (0x80 OR ucast (of_nat i :: u64) :: byte) \<and>
    ucast ((0x80 OR ucast (of_nat i :: u64) :: byte) AND 0x0f) = (ucast (of_nat i :: u64) :: u32)"
  by code_simp

lemma fix_map_header:
  assumes "(k :: u64) < 16"
  shows "\<not> (0x80 OR ucast k :: byte) \<le> 0x7f \<and>
    \<not> 0xe0 \<le> (0x80 OR ucast k :: byte) \<and>
    \<not> 0xc0 \<le> (0x80 OR ucast k :: byte) \<and>
    \<not> 0xa0 \<le> (0x80 OR ucast k :: byte) \<and>
    \<not> 0x90 \<le> (0x80 OR ucast k :: byte) \<and>
    ucast ((0x80 OR ucast k :: byte) AND 0x0f) = (ucast k :: u32)"
proof -
  obtain i where "i < 16" and "k = of_nat i" using small_cases [of k 16] assms by auto
  then show ?thesis using fix_map_header_all by (simp del: of_nat_numeral)
qed

lemma fix_raw_header_all:
  "\<forall>i \<in> set [0 ..< 32].
    \<not> (0xa0 OR ucast (of_nat i :: u64) :: byte) \<le> 0x7f \<and>
    \<not> 0xe0 \<le> (0xa0 OR ucast (of_nat i :: u64) :: byte) \<and>
    \<not> 0xc0 \<le> (0xa0 OR ucast (of_nat i :: u64) :: byte) \<and>
    0xa0 \<le> (0xa0 OR ucast (of_nat i :: u64) :: byte) \<and>
    ucast ((0xa0 OR ucast (of_nat i :: u64) :: byte) AND 0x1f) = (ucast (of_nat i :: u64) :: u32)"
  by code_simp

lemma fix_raw_header:
  assumes "(k :: u64) < 32"
  shows "\<not> (0xa0 OR ucast k :: byte) \<le> 0x7f \<and>
    \<not> 0xe0 \<le> (0xa0 OR ucast k :: byte) \<and>
    \<not> 0xc0 \<le> (0xa0 OR ucast k :: byte) \<and>
    0xa0 \<le> (0xa0 OR ucast k :: byte) \<and>
    ucast ((0xa0 OR ucast k :: byte) AND 0x1f) = (ucast k :: u32)"
proof -
  obtain i where "i < 32" and "k = of_nat i" using small_cases [of k 32] assms by auto
  then show ?thesis using fix_raw_header_all by (simp del: of_nat_numeral)
qed

section \<open>One step on an encoded value\<close>

text \<open>\<open>moved s s1 k\<close>: the machine is \<open>k\<close> bytes further, with the same containers open.\<close>

definition moved :: "ust \<Rightarrow> ust \<Rightarrow> nat \<Rightarrow> bool" where
  "moved s s1 k \<longleftrightarrow> stack s1 = stack s \<and> uzone s1 = uzone s \<and> u_p s1 = u_p s + k"

lemma moved_refl: "moved s s 0"
  by (simp add: moved_def)

lemma step_header:
  assumes "u_cs s = CS_HEADER" and "at data (u_p s) (b # bs)"
  shows "unpack_step mok data s = header mok data s" and "load8 data (u_p s) = Inr b"
  using assms at_load8 [of data "u_p s" b] by (simp_all add: unpack_step_def at_Cons [of _ _ b bs])

lemma fixed_len: "at data i w \<Longrightarrow> \<not> length data - i < length w"
  using at_length [of data i w] by simp

lemma fixed_trail_at:
  assumes "at data (u_p s) w" and "unat (trail s) = length w"
  shows "\<not> length data - u_p s < unat (trail s)"
  using at_length [OF assms(1)] assms(2) by simp

lemma moved_advance:
  assumes "trail s \<noteq> 0" and "unat (trail s) = k" and "u_p s = u_p s0 + 1"
      and "stack s = stack s0" and "uzone s = uzone s0"
  shows "moved s0 (advance s) k"
proof -
  have "0 < unat (trail s)" using assms(1) by (simp add: unat_gt_0)
  then show ?thesis using assms by (simp add: moved_def advance_def unat_trail_dec)
qed

text \<open>The numbers with a trailing load.\<close>

definition after_trail :: "ust \<Rightarrow> byte \<Rightarrow> u32 \<Rightarrow> ust" where
  "after_trail s b t = advance (s\<lparr>trail := t, u_cs := unat (b AND 0x1f), u_p := u_p s + 1\<rparr>)"

lemma moved_after_trail: "t \<noteq> 0 \<Longrightarrow> moved s (after_trail s b t) (unat t)"
  unfolding after_trail_def by (rule moved_advance) simp_all

lemma step_load:
  assumes "u_cs s = CS_HEADER" and "at data (u_p s) (b # w)"
  shows "b = 0xcc \<Longrightarrow> w = [d] \<Longrightarrow> unpack_step mok data s =
           push_value (after_trail s b 1) (POSITIVE_INTEGER (ucast d))"
    and "b = 0xcd \<Longrightarrow> w = store16 x16 \<Longrightarrow> unpack_step mok data s =
           push_value (after_trail s b 2) (POSITIVE_INTEGER (ucast x16))"
    and "b = 0xce \<Longrightarrow> w = store32 x32 \<Longrightarrow> unpack_step mok data s =
           push_value (after_trail s b 4) (POSITIVE_INTEGER (ucast x32))"
    and "b = 0xcf \<Longrightarrow> w = store64 x64 \<Longrightarrow> unpack_step mok data s =
           push_value (after_trail s b 8) (POSITIVE_INTEGER x64)"
    and "b = 0xd0 \<Longrightarrow> w = [d] \<Longrightarrow> unpack_step mok data s =
           push_value (after_trail s b 1) (template_callback_int (sint d))"
    and "b = 0xd1 \<Longrightarrow> w = store16 x16 \<Longrightarrow> unpack_step mok data s =
           push_value (after_trail s b 2) (template_callback_int (sint x16))"
    and "b = 0xd2 \<Longrightarrow> w = store32 x32 \<Longrightarrow> unpack_step mok data s =
           push_value (after_trail s b 4) (template_callback_int (sint x32))"
    and "b = 0xd3 \<Longrightarrow> w = store64 x64 \<Longrightarrow> unpack_step mok data s =
           push_value (after_trail s b 8) (template_callback_int (sint x64))"
    and "b = 0xcb \<Longrightarrow> w = store64 x64 \<Longrightarrow> unpack_step mok data s =
           push_value (after_trail s b 8) (DOUBLE x64)"
proof -
  have w: "at data (Suc (u_p s)) w" using assms(2) at_Cons by blast
  note hdr = step_header [OF assms]
  have len: "\<not> length data - Suc (u_p s) < length w" using at_length [OF w] by simp
  note defs = hdr header_def again_fixed_trail_def fixed_trail_def after_trail_def
    template_callback_uint_def
  { assume "b = 0xcc" and "w = [d]"
    then show "unpack_step mok data s = push_value (after_trail s b 1) (POSITIVE_INTEGER (ucast d))"
      using w len by (simp add: defs at_load8 Let_def) }
  { assume "b = 0xcd" and "w = store16 x16"
    then show "unpack_step mok data s = push_value (after_trail s b 2) (POSITIVE_INTEGER (ucast x16))"
      using w len by (simp add: defs at_load16 Let_def) }
  { assume "b = 0xce" and "w = store32 x32"
    then show "unpack_step mok data s = push_value (after_trail s b 4) (POSITIVE_INTEGER (ucast x32))"
      using w len by (simp add: defs at_load32 Let_def push_bit_eq_mult) }
  { assume "b = 0xcf" and "w = store64 x64"
    then show "unpack_step mok data s = push_value (after_trail s b 8) (POSITIVE_INTEGER x64)"
      using w len by (simp add: defs at_load64 Let_def push_bit_eq_mult) }
  { assume "b = 0xd0" and "w = [d]"
    then show "unpack_step mok data s = push_value (after_trail s b 1) (template_callback_int (sint d))"
      using w len by (simp add: defs at_load8 Let_def push_bit_eq_mult) }
  { assume "b = 0xd1" and "w = store16 x16"
    then show "unpack_step mok data s = push_value (after_trail s b 2) (template_callback_int (sint x16))"
      using w len by (simp add: defs at_load16 Let_def push_bit_eq_mult) }
  { assume "b = 0xd2" and "w = store32 x32"
    then show "unpack_step mok data s = push_value (after_trail s b 4) (template_callback_int (sint x32))"
      using w len by (simp add: defs at_load32 Let_def push_bit_eq_mult) }
  { assume "b = 0xd3" and "w = store64 x64"
    then show "unpack_step mok data s = push_value (after_trail s b 8) (template_callback_int (sint x64))"
      using w len by (simp add: defs at_load64 Let_def push_bit_eq_mult) }
  { assume "b = 0xcb" and "w = store64 x64"
    then show "unpack_step mok data s = push_value (after_trail s b 8) (DOUBLE x64)"
      using w len by (simp add: defs at_load64 Let_def push_bit_eq_mult) }
qed

section \<open>Whole values\<close>

definition after_step :: "malloc \<Rightarrow> byte list \<Rightarrow> (flow \<times> ust) res \<Rightarrow> (flow \<times> ust) res" where
  "after_step mok data r =
     bind_res r (\<lambda>(f, s1).
       case f of
         Header_again \<Rightarrow>
           (let s2 = s1\<lparr>u_cs := CS_HEADER, u_p := u_p s1 + 1\<rparr>
            in if u_p s2 = length data then Inr (Out, s2) else exec_loop mok data s2)
       | _ \<Rightarrow> Inr (f, s1))"

lemma exec_loop_after_step:
  "u_p s \<le> length data \<Longrightarrow> exec_loop mok data s = after_step mok data (unpack_step mok data s)"
  by (subst exec_loop.simps) (simp add: after_step_def)

lemma after_step_header:
  "u_p s1 + 1 < length data \<Longrightarrow> after_step mok data (Inr (Header_again, s1)) =
     exec_loop mok data (s1\<lparr>u_cs := CS_HEADER, u_p := u_p s1 + 1\<rparr>)"
  by (simp add: after_step_def)

text \<open>\<open>parses data s k v\<close>: from state \<open>s\<close> the machine reaches \<^verbatim>\<open>_push\<close> with an object of value
  \<open>v\<close>, on the last of the next \<open>k\<close> bytes, with the same containers open.\<close>

definition parses :: "byte list \<Rightarrow> ust \<Rightarrow> nat \<Rightarrow> mvalue \<Rightarrow> bool" where
  "parses data s k v \<longleftrightarrow> (\<exists>s1 ob.
     exec_loop all_ok data s = after_step all_ok data (push_value s1 ob) \<and>
     stack s1 = stack s \<and> zone_ok (uzone s1) \<and> Suc (u_p s1) = u_p s + k \<and>
     resolve data ob = v)"

lemma parsesI:
  assumes "unpack_step all_ok data s = push_value s1 ob" and "moved s s1 k"
      and "zone_ok (uzone s)" and "u_p s \<le> length data" and "resolve data ob = v"
  shows "parses data s (Suc k) v"
  using assms exec_loop_after_step [of s data all_ok] unfolding parses_def moved_def
  by (intro exI [of _ s1] exI [of _ ob]) simp

lemma at_le: "at data i bs \<Longrightarrow> i \<le> length data"
  by (simp add: at_def)

lemma parses_simple:
  assumes "u_cs s = CS_HEADER" and "zone_ok (uzone s)"
  shows "at data (u_p s) msgpack_pack_nil \<Longrightarrow> parses data s 1 VNil"
    and "at data (u_p s) msgpack_pack_true \<Longrightarrow> parses data s 1 (VBool True)"
    and "at data (u_p s) msgpack_pack_false \<Longrightarrow> parses data s 1 (VBool False)"
    and "at data (u_p s) (msgpack_pack_double d) \<Longrightarrow> parses data s 9 (VDouble d)"
proof -
  { assume a: "at data (u_p s) msgpack_pack_nil"
    have "unpack_step all_ok data s = push_value s NIL"
      using step_header [OF assms(1) a [unfolded msgpack_pack_nil_def]] by (simp add: header_def)
    then show "parses data s 1 VNil"
      using parsesI [OF _ moved_refl assms(2) at_le [OF a]] by simp }
  { assume a: "at data (u_p s) msgpack_pack_true"
    have "unpack_step all_ok data s = push_value s (BOOLEAN True)"
      using step_header [OF assms(1) a [unfolded msgpack_pack_true_def]] by (simp add: header_def)
    then show "parses data s 1 (VBool True)"
      using parsesI [OF _ moved_refl assms(2) at_le [OF a]] by simp }
  { assume a: "at data (u_p s) msgpack_pack_false"
    have "unpack_step all_ok data s = push_value s (BOOLEAN False)"
      using step_header [OF assms(1) a [unfolded msgpack_pack_false_def]] by (simp add: header_def)
    then show "parses data s 1 (VBool False)"
      using parsesI [OF _ moved_refl assms(2) at_le [OF a]] by simp }
  { assume a: "at data (u_p s) (msgpack_pack_double d)"
    show "parses data s 9 (VDouble d)"
      using parsesI [OF step_load(9) [OF assms(1) a [unfolded msgpack_pack_double_def] refl refl]
          moved_after_trail assms(2) at_le [OF a]] by simp }
qed

lemma step_uint64:
  assumes "u_cs s = CS_HEADER" and "at data (u_p s) (msgpack_pack_uint64 d)"
  shows "\<exists>s1. unpack_step mok data s = push_value s1 (POSITIVE_INTEGER d) \<and>
           moved s s1 (length (msgpack_pack_uint64 d) - 1)"
proof -
  note a = assms(2) [unfolded msgpack_pack_uint64_def]
  consider "d < 2 ^ 7" | "\<not> d < 2 ^ 7" "d < 2 ^ 8" | "\<not> d < 2 ^ 8" "d < 2 ^ 16"
    | "\<not> d < 2 ^ 8" "\<not> d < 2 ^ 16" "d < 2 ^ 32"
    | "\<not> d < 2 ^ 8" "\<not> d < 2 ^ 16" "\<not> d < 2 ^ 32" by blast
  then show ?thesis
  proof cases
    case 1
    then have d8: "d < 2 ^ 8" by (auto intro: less_trans)
    have "unpack_step mok data s = push_value s (POSITIVE_INTEGER d)"
      using step_header [OF assms(1), of data "ucast d" "[]"] a 1 d8 ucast_small_byte [OF 1]
        ucast_ucast_id(1) [OF d8]
      by (simp add: header_def template_callback_uint_def)
    then show ?thesis using 1 d8 moved_refl [of s] by (auto simp: msgpack_pack_uint64_def)
  next
    case 2
    then show ?thesis
      using step_load(1) [OF assms(1) _ refl refl] a ucast_ucast_id(1) [of d]
        moved_after_trail [of 1 s "0xcc"]
      by (intro exI [of _ "after_trail s 0xcc 1"]) (simp add: msgpack_pack_uint64_def)
  next
    case 3
    then show ?thesis
      using step_load(2) [OF assms(1) _ refl refl] a ucast_ucast_id(2) [of d]
        moved_after_trail [of 2 s "0xcd"]
      by (intro exI [of _ "after_trail s 0xcd 2"]) (simp add: msgpack_pack_uint64_def)
  next
    case 4
    then show ?thesis
      using step_load(3) [OF assms(1) _ refl refl] a ucast_ucast_id(3) [of d]
        moved_after_trail [of 4 s "0xce"]
      by (intro exI [of _ "after_trail s 0xce 4"]) (simp add: msgpack_pack_uint64_def)
  next
    case 5
    then show ?thesis
      using step_load(4) [OF assms(1) _ refl refl] a moved_after_trail [of 8 s "0xcf"]
      by (intro exI [of _ "after_trail s 0xcf 8"]) (simp add: msgpack_pack_uint64_def)
  qed
qed

lemma parses_uint64:
  assumes "u_cs s = CS_HEADER" and "zone_ok (uzone s)" and "at data (u_p s) (msgpack_pack_uint64 d)"
  shows "parses data s (length (msgpack_pack_uint64 d)) (VInt (uint d))"
proof -
  obtain s1 where s1: "unpack_step all_ok data s = push_value s1 (POSITIVE_INTEGER d)"
    "moved s s1 (length (msgpack_pack_uint64 d) - 1)"
    using step_uint64 [OF assms(1,3)] by blast
  have "parses data s (Suc (length (msgpack_pack_uint64 d) - 1)) (VInt (uint d))"
    by (rule parsesI [OF s1 assms(2) at_le [OF assms(3)]]) simp
  then show ?thesis by (simp add: msgpack_pack_uint64_def split: if_splits)
qed

lemma parses_int64:
  assumes "u_cs s = CS_HEADER" and "zone_ok (uzone s)" and "at data (u_p s) (msgpack_pack_int64 d)"
      and "- (2 ^ 63) \<le> d" and "d < 0"
  shows "parses data s (length (msgpack_pack_int64 d)) (VInt d)"
proof -
  note a = assms(3) [unfolded msgpack_pack_int64_def]
  note le = at_le [OF assms(3)]
  note go = parsesI [OF _ moved_after_trail assms(2) le]
  have neg: "template_callback_int d = NEGATIVE_INTEGER d"
    using assms(5) by (simp add: template_callback_int_def)
  consider "- (2 ^ 5) \<le> d" | "d < - (2 ^ 5)" "- (2 ^ 7) \<le> d" | "d < - (2 ^ 7)" "- (2 ^ 15) \<le> d"
    | "d < - (2 ^ 15)" "- (2 ^ 31) \<le> d" | "d < - (2 ^ 31)" by linarith
  then show ?thesis
  proof cases
    case 1
    have "unpack_step all_ok data s = push_value s (NEGATIVE_INTEGER d)"
      using step_header [OF assms(1), of data "of_int d" "[]"] a 1 assms(5)
        negative_fixnum [OF 1 assms(5)] sint_of_int(1) [of d] neg
      by (simp add: header_def)
    then show ?thesis
      using parsesI [OF _ moved_refl assms(2) le] 1 assms(5) by (simp add: msgpack_pack_int64_def)
  next
    case 2
    then show ?thesis
      using go [OF step_load(5) [OF assms(1) _ refl refl]] a sint_of_int(1) [of d] neg
      by (simp add: msgpack_pack_int64_def)
  next
    case 3
    then show ?thesis
      using go [OF step_load(6) [OF assms(1) _ refl refl]] a sint_of_int(2) [of d] neg
      by (simp add: msgpack_pack_int64_def)
  next
    case 4
    then show ?thesis
      using go [OF step_load(7) [OF assms(1) _ refl refl]] a sint_of_int(3) [of d] neg
      by (simp add: msgpack_pack_int64_def)
  next
    case 5
    then show ?thesis
      using go [OF step_load(8) [OF assms(1) _ refl refl]] a sint_of_int(4) [of d] neg assms(4)
      by (simp add: msgpack_pack_int64_def)
  qed
qed

text \<open>A raw value: the header announces the length, the body follows.\<close>

lemma again_raw_at:
  assumes "at data (Suc (u_p s)) body" and "unat len = length body"
  shows "\<exists>s1 ptr. again_raw data s len = push_value s1 (RAW ptr len) \<and> moved s s1 (length body) \<and>
           (len \<noteq> 0 \<longrightarrow> ptr = Some (Suc (u_p s)))"
proof (cases "len = 0")
  case True
  then have "again_raw data s len = push_value (s\<lparr>trail := 0, referenced := True\<rparr>) (RAW (u_n s) len)"
    by (simp add: again_raw_def raw_value_def)
  moreover have "moved s (s\<lparr>trail := 0, referenced := True\<rparr>) (length body)"
    using True assms(2) by (simp add: moved_def)
  ultimately show ?thesis using True by blast
next
  case False
  define s1 where "s1 = s\<lparr>trail := len, u_cs := ACS_RAW_VALUE, u_p := Suc (u_p s)\<rparr>"
  have "\<not> length data - u_p s1 < unat (trail s1)"
    by (rule fixed_trail_at) (simp_all add: s1_def assms)
  then have "again_raw data s len =
      push_value ((advance s1)\<lparr>referenced := True\<rparr>) (RAW (Some (Suc (u_p s))) len)"
    using False
    by (simp add: again_raw_def raw_trail_def raw_value_def s1_def advance_def)
  moreover have "moved s ((advance s1)\<lparr>referenced := True\<rparr>) (length body)"
    using moved_advance [of s1 "length body" s] False assms(2) by (simp add: s1_def moved_def)
  ultimately show ?thesis by blast
qed

lemma raw_resolve:
  assumes "at data i body" and "unat (len :: u32) = length body" and "len \<noteq> 0 \<longrightarrow> ptr = Some i"
  shows "resolve data (RAW ptr len) = VRaw body"
proof (cases "len = 0")
  case True
  then show ?thesis using assms(2) by (cases ptr) simp_all
next
  case False
  then show ?thesis using assms at_take [OF assms(1)] by simp
qed

lemma moved_trans: "moved s s1 j \<Longrightarrow> moved s1 s2 k \<Longrightarrow> moved s s2 (j + k)"
  by (simp add: moved_def)

lemma step_raw:
  assumes "u_cs s = CS_HEADER" and "at data (u_p s) (msgpack_pack_raw (ucast len))"
  shows "\<exists>s1. unpack_step mok data s = again_raw data s1 len \<and>
           moved s s1 (length (msgpack_pack_raw (ucast len)) - 1)"
proof -
  note a = assms(2) [unfolded msgpack_pack_raw_def]
  note low = ucast_up_down [of len]
  have l16: "(ucast len :: u64) < 65536 \<Longrightarrow> ucast (ucast (ucast len :: u64) :: u16) = len"
    by (rule ucast_16_32)
  consider "(ucast len :: u64) < 32" | "\<not> (ucast len :: u64) < 32" "(ucast len :: u64) < 65536"
    | "\<not> (ucast len :: u64) < 32" "\<not> (ucast len :: u64) < 65536" by blast
  then show ?thesis
  proof cases
    case 1
    have "unpack_step mok data s = again_raw data s len"
      using step_header [OF assms(1), of data "0xa0 OR ucast (ucast len :: u64)" "[]"] a 1
        fix_raw_header [OF 1] low
      by (simp add: header_def)
    then show ?thesis using 1 moved_refl [of s] by (auto simp: msgpack_pack_raw_def)
  next
    case 2
    have w: "at data (u_p s) (0xda # store16 (ucast (ucast len :: u64)))" using a 2 by simp
    have w': "at data (Suc (u_p s)) (store16 (ucast (ucast len :: u64)))" using w at_Cons by blast
    have "unpack_step mok data s = again_raw data (after_trail s 0xda 2) len"
      using fixed_len [OF w'] l16 2
      by (simp add: step_header [OF assms(1) w] at_load16 [OF w'] header_def again_fixed_trail_def
          fixed_trail_def after_trail_def Let_def)
    then show ?thesis
      using 2 moved_after_trail [of 2 s "0xda"] by (auto simp: msgpack_pack_raw_def)
  next
    case 3
    have w: "at data (u_p s) (0xdb # store32 (ucast (ucast len :: u64)))" using a 3 by simp
    have w': "at data (Suc (u_p s)) (store32 (ucast (ucast len :: u64)))" using w at_Cons by blast
    have "unpack_step mok data s = again_raw data (after_trail s 0xdb 4) len"
      using fixed_len [OF w'] low
      by (simp add: step_header [OF assms(1) w] at_load32 [OF w'] header_def again_fixed_trail_def
          fixed_trail_def after_trail_def Let_def push_bit_eq_mult)
    then show ?thesis
      using 3 moved_after_trail [of 4 s "0xdb"] by (auto simp: msgpack_pack_raw_def)
  qed
qed

end
