(* ===== verification/MsgpackRoundtrip.thy ===== *)
theory MsgpackRoundtrip
  imports MsgpackPack
begin

text \<open>
  Containers and the round trip: the decoder reads back every object the encoder of
  \<open>MsgpackPack\<close> wrote, up to the 32 levels of nesting its stack has room for.
\<close>

section \<open>Containers\<close>

lemma zone_malloc_all_ok:
  assumes "zone_ok z" and "unat nb < 2 ^ 62"
  shows "\<exists>r z'. zone_malloc all_ok z nb = Inr (Some r, z')"
proof -
  obtain zz where zz: "z = Some zz" "zone_inv zz" using assms(1) by (auto simp: zone_ok_def)
  obtain r z' where r: "msgpack_zone_malloc all_ok zz nb = Inr (r, z')"
    using zone_malloc_ok [OF zz(2) assms(2)] by blast
  then have "r \<noteq> None"
    by (auto simp: msgpack_zone_malloc_def msgpack_zone_malloc_no_align_def
        msgpack_zone_malloc_expand_def all_ok_def split: if_splits option.splits)
  then show ?thesis using r zz by (auto simp: zone_malloc_def)
qed

text \<open>A callback that never runs out of memory.\<close>

definition callback_all_ok ::
    "(zone option \<Rightarrow> u32 \<Rightarrow> ((msgpack_object \<times> nat) option \<times> zone option) res) \<Rightarrow> bool" where
  "callback_all_ok cb \<longleftrightarrow> (\<forall>z k. zone_ok z \<longrightarrow> (\<exists>r z'. cb z k = Inr (Some r, z')))"

lemma item_bytes_small:
  fixes k :: u32
  assumes "sz < 2 ^ 29"
  shows "unat (ucast k * of_nat sz :: u64) < 2 ^ 62"
proof -
  have "unat k < 2 ^ 32" using unsigned_less [of k] by simp
  then have "unat k * sz < 2 ^ 32 * 2 ^ 29" using assms by (rule mult_less_bound)
  then show ?thesis using assms by (simp add: unat_ucast_mult)
qed

lemma callbacks_all_ok:
  "callback_all_ok (template_callback_array all_ok)" "callback_all_ok (template_callback_map all_ok)"
proof -
  { fix z and k :: u32 assume "zone_ok z"
    then obtain r z' where "zone_malloc all_ok z (ucast k * of_nat sizeof_object) = Inr (Some r, z')"
      using zone_malloc_all_ok [OF _ item_bytes_small [of sizeof_object k]]
      unfolding sizeof_object_def by force
    then have "\<exists>r z'. template_callback_array all_ok z k = Inr (Some r, z')"
      by (simp add: template_callback_array_def) }
  then show "callback_all_ok (template_callback_array all_ok)" by (simp add: callback_all_ok_def)
  { fix z and k :: u32 assume "zone_ok z"
    then obtain r z' where "zone_malloc all_ok z (ucast k * of_nat sizeof_object_kv) = Inr (Some r, z')"
      using zone_malloc_all_ok [OF _ item_bytes_small [of sizeof_object_kv k]]
      unfolding sizeof_object_kv_def by force
    then have "\<exists>r z'. template_callback_map all_ok z k = Inr (Some r, z')"
      by (simp add: template_callback_map_def) }
  then show "callback_all_ok (template_callback_map all_ok)" by (simp add: callback_all_ok_def)
qed

text \<open>Opening a container: an empty one is pushed at once, another goes on the stack.\<close>

lemma start_container_opens:
  assumes "zone_ok (uzone s)" and "length (stack s) < MSGPACK_EMBED_STACK_SIZE"
      and "callback_ok cb ob sz" and "callback_all_ok cb"
      and "ob = ARRAY [] \<and> sz = sizeof_object \<and> ct = CT_ARRAY_ITEM \<or>
           ob = MAP [] \<and> sz = sizeof_object_kv \<and> ct = CT_MAP_KEY"
  shows "\<exists>z. zone_ok z \<and>
     (if k = 0 then start_container cb s k ct = push_value (s\<lparr>uzone := z\<rparr>) ob
      else \<exists>c. start_container cb s k ct = Inr (Header_again, s\<lparr>uzone := z, stack := c # stack s\<rparr>) \<and>
             frame_ok c \<and> fobj c = ob \<and> fct c = ct \<and> unat (fcount c) = unat k)"
proof -
  obtain ob' room z where r: "cb (uzone s) k = Inr (Some (ob', room), z)"
    using assms(1,4) unfolding callback_all_ok_def by (metis surj_pair)
  have "\<exists>r z'. cb (uzone s) k = Inr (r, z') \<and> zone_ok z' \<and>
        (case r of None \<Rightarrow> True | Some (ob', room) \<Rightarrow> ob' = ob \<and> unat k * sz \<le> room)"
    using assms(1,3) unfolding callback_ok_def by blast
  then have z: "zone_ok z" and ob': "ob' = ob" and room: "unat k * sz \<le> room"
    using r by auto
  show ?thesis
  proof (cases "k = 0")
    case True
    then show ?thesis using r ob' z assms(2) by (auto simp: start_container_def)
  next
    case False
    let ?c = "\<lparr>fobj = ob, froom = room, fcount = ucast k, fct = ct, fmap_key = None\<rparr>"
    have "unat (ucast k :: u64) \<noteq> 0" using False by (simp add: unat_ucast_32_64 unat_eq_zero)
    then have "(ucast k :: u64) \<noteq> 0" by (metis unsigned_0)
    then have "frame_ok ?c"
      using room assms(5) unat_ucast_32_64 [of k] by (auto simp: frame_ok_def)
    moreover have "start_container cb s k ct = Inr (Header_again, s\<lparr>uzone := z, stack := ?c # stack s\<rparr>)"
      using r ob' assms(2) False by (simp add: start_container_def)
    ultimately show ?thesis
      using z False unat_ucast_32_64 [of k]
      by (intro exI [of _ z]) (auto intro!: exI [of _ ?c])
  qed
qed

lemma step_array:
  assumes "u_cs s = CS_HEADER" and "at data (u_p s) (msgpack_pack_array (ucast (len :: u32)))"
  shows "\<exists>s1. unpack_step mok data s =
             start_container (template_callback_array mok) s1 len CT_ARRAY_ITEM \<and>
           moved s s1 (length (msgpack_pack_array (ucast len)) - 1)"
proof -
  note a = assms(2) [unfolded msgpack_pack_array_def]
  note low = ucast_up_down [of len]
  consider "(ucast len :: u64) < 16" | "\<not> (ucast len :: u64) < 16" "(ucast len :: u64) < 65536"
    | "\<not> (ucast len :: u64) < 16" "\<not> (ucast len :: u64) < 65536" by blast
  then show ?thesis
  proof cases
    case 1
    have "unpack_step mok data s = start_container (template_callback_array mok) s len CT_ARRAY_ITEM"
      using step_header [OF assms(1), of data "0x90 OR ucast (ucast len :: u64)" "[]"] a 1
        fix_array_header [OF 1] low
      by (simp add: header_def)
    then show ?thesis using 1 moved_refl [of s] by (auto simp: msgpack_pack_array_def)
  next
    case 2
    have w: "at data (u_p s) (0xdc # store16 (ucast (ucast len :: u64)))" using a 2 by simp
    have w': "at data (Suc (u_p s)) (store16 (ucast (ucast len :: u64)))" using w at_Cons by blast
    have "unpack_step mok data s =
        start_container (template_callback_array mok) (after_trail s 0xdc 2) len CT_ARRAY_ITEM"
      using fixed_len [OF w'] ucast_16_32 [OF 2(2)]
      by (simp add: step_header [OF assms(1) w] at_load16 [OF w'] header_def again_fixed_trail_def
          fixed_trail_def after_trail_def Let_def)
    then show ?thesis
      using 2 moved_after_trail [of 2 s "0xdc"] by (auto simp: msgpack_pack_array_def)
  next
    case 3
    have w: "at data (u_p s) (0xdd # store32 (ucast (ucast len :: u64)))" using a 3 by simp
    have w': "at data (Suc (u_p s)) (store32 (ucast (ucast len :: u64)))" using w at_Cons by blast
    have "unpack_step mok data s =
        start_container (template_callback_array mok) (after_trail s 0xdd 4) len CT_ARRAY_ITEM"
      using fixed_len [OF w'] low
      by (simp add: step_header [OF assms(1) w] at_load32 [OF w'] header_def again_fixed_trail_def
          fixed_trail_def after_trail_def Let_def push_bit_eq_mult)
    then show ?thesis
      using 3 moved_after_trail [of 4 s "0xdd"] by (auto simp: msgpack_pack_array_def)
  qed
qed

lemma step_map:
  assumes "u_cs s = CS_HEADER" and "at data (u_p s) (msgpack_pack_map (ucast (len :: u32)))"
  shows "\<exists>s1. unpack_step mok data s =
             start_container (template_callback_map mok) s1 len CT_MAP_KEY \<and>
           moved s s1 (length (msgpack_pack_map (ucast len)) - 1)"
proof -
  note a = assms(2) [unfolded msgpack_pack_map_def]
  note low = ucast_up_down [of len]
  consider "(ucast len :: u64) < 16" | "\<not> (ucast len :: u64) < 16" "(ucast len :: u64) < 65536"
    | "\<not> (ucast len :: u64) < 16" "\<not> (ucast len :: u64) < 65536" by blast
  then show ?thesis
  proof cases
    case 1
    have "unpack_step mok data s = start_container (template_callback_map mok) s len CT_MAP_KEY"
      using step_header [OF assms(1), of data "0x80 OR ucast (ucast len :: u64)" "[]"] a 1
        fix_map_header [OF 1] low
      by (simp add: header_def)
    then show ?thesis using 1 moved_refl [of s] by (auto simp: msgpack_pack_map_def)
  next
    case 2
    have w: "at data (u_p s) (0xde # store16 (ucast (ucast len :: u64)))" using a 2 by simp
    have w': "at data (Suc (u_p s)) (store16 (ucast (ucast len :: u64)))" using w at_Cons by blast
    have "unpack_step mok data s =
        start_container (template_callback_map mok) (after_trail s 0xde 2) len CT_MAP_KEY"
      using fixed_len [OF w'] ucast_16_32 [OF 2(2)]
      by (simp add: step_header [OF assms(1) w] at_load16 [OF w'] header_def again_fixed_trail_def
          fixed_trail_def after_trail_def Let_def)
    then show ?thesis
      using 2 moved_after_trail [of 2 s "0xde"] by (auto simp: msgpack_pack_map_def)
  next
    case 3
    have w: "at data (u_p s) (0xdf # store32 (ucast (ucast len :: u64)))" using a 3 by simp
    have w': "at data (Suc (u_p s)) (store32 (ucast (ucast len :: u64)))" using w at_Cons by blast
    have "unpack_step mok data s =
        start_container (template_callback_map mok) (after_trail s 0xdf 4) len CT_MAP_KEY"
      using fixed_len [OF w'] low
      by (simp add: step_header [OF assms(1) w] at_load32 [OF w'] header_def again_fixed_trail_def
          fixed_trail_def after_trail_def Let_def push_bit_eq_mult)
    then show ?thesis
      using 3 moved_after_trail [of 4 s "0xdf"] by (auto simp: msgpack_pack_map_def)
  qed
qed

section \<open>Items\<close>

text \<open>An encoded item that the machine parses wherever it stands and whatever
  containers are open, as long as \<open>d\<close> more fit.\<close>

definition parsable :: "byte list \<Rightarrow> nat \<Rightarrow> byte list \<Rightarrow> mvalue \<Rightarrow> bool" where
  "parsable data d bs v \<longleftrightarrow> bs \<noteq> [] \<and>
     (\<forall>s. u_cs s = CS_HEADER \<longrightarrow> zone_ok (uzone s) \<longrightarrow> at data (u_p s) bs \<longrightarrow>
        length (stack s) + d \<le> MSGPACK_EMBED_STACK_SIZE \<longrightarrow> parses data s (length bs) v)"

lemma parsable_mono: "parsable data d bs v \<Longrightarrow> d \<le> d' \<Longrightarrow> parsable data d' bs v"
  by (auto simp: parsable_def)

lemma parsesE:
  assumes "parses data s k v"
  obtains s1 ob where "exec_loop all_ok data s = after_step all_ok data (push_value s1 ob)"
    "stack s1 = stack s" "zone_ok (uzone s1)" "Suc (u_p s1) = u_p s + k" "resolve data ob = v"
  using assms by (auto simp: parses_def)

lemma parsableD:
  assumes "parsable data d bs v" and "u_cs s = CS_HEADER" and "zone_ok (uzone s)"
      and "at data (u_p s) bs" and "length (stack s) + d \<le> MSGPACK_EMBED_STACK_SIZE"
  shows "parses data s (length bs) v"
  using assms by (simp add: parsable_def)

text \<open>An item pushed into an open array either finishes it or leaves it open.\<close>

lemma push_array_item:
  assumes "stack s = c # st" and "frame_ok c" and "fct c = CT_ARRAY_ITEM" and "fobj c = ARRAY ys"
  shows "unat (fcount c) = 1 \<Longrightarrow> push_value s ob = push_value (s\<lparr>stack := st\<rparr>) (ARRAY (ys @ [ob]))"
    and "unat (fcount c) = Suc (Suc m) \<Longrightarrow> \<exists>c'. push_value s ob = Inr (Header_again, s\<lparr>stack := c' # st\<rparr>) \<and>
           frame_ok c' \<and> fct c' = CT_ARRAY_ITEM \<and> fobj c' = ARRAY (ys @ [ob]) \<and>
           unat (fcount c') = Suc m"
proof -
  have nz: "fcount c \<noteq> 0" and room: "(length ys + unat (fcount c)) * sizeof_object \<le> froom c"
    using assms by (auto simp: frame_ok_def)
  have one: "1 \<le> unat (fcount c)" using nz by (simp add: Suc_le_eq unat_gt_0)
  have "(length ys + 1) * sizeof_object \<le> froom c"
    using room one by (meson add_left_mono le_trans mult_le_mono1)
  then have item: "template_callback_array_item c ob = Inr (c\<lparr>fobj := ARRAY (ys @ [ob])\<rparr>)"
    using assms(4) by (simp add: template_callback_array_item_def)
  have dec: "unat (fcount c - 1) = unat (fcount c) - 1" using nz by (rule unat_dec)
  { assume "unat (fcount c) = 1"
    then have "fcount c - 1 = 0" using dec by (metis diff_self_eq_0 unat_eq_zero)
    then show "push_value s ob = push_value (s\<lparr>stack := st\<rparr>) (ARRAY (ys @ [ob]))"
      using assms item by (simp add: push_value_def) }
  { assume m: "unat (fcount c) = Suc (Suc m)"
    let ?c = "c\<lparr>fobj := ARRAY (ys @ [ob]), fcount := fcount c - 1\<rparr>"
    have nz': "fcount c - 1 \<noteq> 0" using dec m by (metis Suc_eq_plus1 Suc_neq_Zero add_diff_cancel_right' unsigned_0)
    then have "push_value s ob = Inr (Header_again, s\<lparr>stack := ?c # st\<rparr>)"
      using assms item by (simp add: push_value_def)
    moreover have "frame_ok ?c"
      using assms(3) room m dec nz' by (simp add: frame_ok_def algebra_simps)
    ultimately show "\<exists>c'. push_value s ob = Inr (Header_again, s\<lparr>stack := c' # st\<rparr>) \<and>
           frame_ok c' \<and> fct c' = CT_ARRAY_ITEM \<and> fobj c' = ARRAY (ys @ [ob]) \<and>
           unat (fcount c') = Suc m"
      using assms(3) dec m by (intro exI [of _ ?c]) simp }
qed

lemma at_more: "at data i bs \<Longrightarrow> bs \<noteq> [] \<Longrightarrow> i < length data"
  using at_length [of data i bs] by (cases bs) auto

lemma parses_items:
  assumes "u_cs s = CS_HEADER" and "zone_ok (uzone s)" and "stack s = c # st"
      and "frame_ok c" and "fct c = CT_ARRAY_ITEM" and "fobj c = ARRAY ys"
      and "unat (fcount c) = length xs" and "xs \<noteq> []"
      and "\<forall>(bs, v) \<in> set xs. parsable data d bs v"
      and "at data (u_p s) (concat (map fst xs))"
      and "length (stack s) + d \<le> MSGPACK_EMBED_STACK_SIZE"
  shows "\<exists>s1 zs. exec_loop all_ok data s = after_step all_ok data (push_value s1 (ARRAY (ys @ zs))) \<and>
     stack s1 = st \<and> zone_ok (uzone s1) \<and>
     Suc (u_p s1) = u_p s + length (concat (map fst xs)) \<and> map (resolve data) zs = map snd xs"
  using assms
proof (induction xs arbitrary: s c ys)
  case Nil
  then show ?case by simp
next
  case (Cons x xs)
  obtain bs v where x: "x = (bs, v)" by (cases x)
  have ats: "at data (u_p s) bs" "at data (u_p s + length bs) (concat (map fst xs))"
    using Cons.prems(10) x by (simp_all add: at_append)
  have px: "parsable data d bs v" using Cons.prems(9) x by simp
  obtain s1 ob where s1: "exec_loop all_ok data s = after_step all_ok data (push_value s1 ob)"
    "stack s1 = c # st" "zone_ok (uzone s1)" "Suc (u_p s1) = u_p s + length bs" "resolve data ob = v"
    using parsesE [OF parsableD [OF px Cons.prems(1,2) ats(1) Cons.prems(11)]] Cons.prems(3) by metis
  note item = push_array_item [OF s1(2) Cons.prems(4-6)]
  show ?case
  proof (cases "xs = []")
    case True
    then have "push_value s1 ob = push_value (s1\<lparr>stack := st\<rparr>) (ARRAY (ys @ [ob]))"
      using Cons.prems(7) by (intro item(1)) simp
    then show ?thesis
      using s1 x True by (intro exI [of _ "s1\<lparr>stack := st\<rparr>"] exI [of _ "[ob]"]) simp
  next
    case False
    then obtain m where m: "length xs = Suc m" by (cases xs) auto
    obtain c' where c': "push_value s1 ob = Inr (Header_again, s1\<lparr>stack := c' # st\<rparr>)"
      "frame_ok c'" "fct c' = CT_ARRAY_ITEM" "fobj c' = ARRAY (ys @ [ob])" "unat (fcount c') = Suc m"
      using item(2) [of m] Cons.prems(7) m by auto
    define s2 where "s2 = s1\<lparr>stack := c' # st, u_cs := CS_HEADER, u_p := u_p s1 + 1\<rparr>"
    have at2: "at data (u_p s2) (concat (map fst xs))" using ats(2) s1(4) by (simp add: s2_def)
    have ne: "concat (map fst xs) \<noteq> []"
      using False Cons.prems(9) by (cases xs) (auto simp: parsable_def)
    have "u_p s2 < length data" using at_more [OF at2 ne] .
    then have "after_step all_ok data (push_value s1 ob) = exec_loop all_ok data s2"
      using c'(1) after_step_header [of "s1\<lparr>stack := c' # st\<rparr>" data all_ok] by (simp add: s2_def)
    moreover have "\<exists>s3 zs. exec_loop all_ok data s2 =
          after_step all_ok data (push_value s3 (ARRAY ((ys @ [ob]) @ zs))) \<and>
        stack s3 = st \<and> zone_ok (uzone s3) \<and>
        Suc (u_p s3) = u_p s2 + length (concat (map fst xs)) \<and> map (resolve data) zs = map snd xs"
      using Cons.IH [of s2 c' "ys @ [ob]"] c' m at2 s1(2,3) Cons.prems(3,9,11) False
      by (simp add: s2_def)
    ultimately obtain s3 zs where "exec_loop all_ok data s =
          after_step all_ok data (push_value s3 (ARRAY (ys @ (ob # zs))))"
      "stack s3 = st" "zone_ok (uzone s3)" "Suc (u_p s3) = u_p s2 + length (concat (map fst xs))"
      "map (resolve data) zs = map snd xs"
      using s1(1) by auto
    then show ?thesis
      using s1(4,5) x by (intro exI [of _ s3] exI [of _ "ob # zs"]) (simp add: s2_def)
  qed
qed

text \<open>The same for an open map, two items at a time.\<close>

lemma push_map_key:
  assumes "stack s = c # st" and "frame_ok c" and "fct c = CT_MAP_KEY"
  shows "push_value s ob = Inr (Header_again,
           s\<lparr>stack := c\<lparr>fmap_key := Some ob, fct := CT_MAP_VALUE\<rparr> # st\<rparr>)"
    and "frame_ok (c\<lparr>fmap_key := Some ob, fct := CT_MAP_VALUE\<rparr>)"
  using assms by (auto simp: push_value_def frame_ok_def)

lemma push_map_value:
  assumes "stack s = c # st" and "frame_ok c" and "fct c = CT_MAP_VALUE" and "fobj c = MAP ys"
      and "fmap_key c = Some k"
  shows "unat (fcount c) = 1 \<Longrightarrow> push_value s ob = push_value (s\<lparr>stack := st\<rparr>) (MAP (ys @ [(k, ob)]))"
    and "unat (fcount c) = Suc (Suc m) \<Longrightarrow> \<exists>c'. push_value s ob = Inr (Header_again, s\<lparr>stack := c' # st\<rparr>) \<and>
           frame_ok c' \<and> fct c' = CT_MAP_KEY \<and> fobj c' = MAP (ys @ [(k, ob)]) \<and>
           unat (fcount c') = Suc m"
proof -
  have nz: "fcount c \<noteq> 0" and room: "(length ys + unat (fcount c)) * sizeof_object_kv \<le> froom c"
    using assms by (auto simp: frame_ok_def)
  have one: "1 \<le> unat (fcount c)" using nz by (simp add: Suc_le_eq unat_gt_0)
  have "(length ys + 1) * sizeof_object_kv \<le> froom c"
    using room one by (meson add_left_mono le_trans mult_le_mono1)
  then have item: "template_callback_map_item c (Some k) ob = Inr (c\<lparr>fobj := MAP (ys @ [(k, ob)])\<rparr>)"
    using assms(4) by (simp add: template_callback_map_item_def)
  have dec: "unat (fcount c - 1) = unat (fcount c) - 1" using nz by (rule unat_dec)
  { assume "unat (fcount c) = 1"
    then have "fcount c - 1 = 0" using dec by (metis diff_self_eq_0 unat_eq_zero)
    then show "push_value s ob = push_value (s\<lparr>stack := st\<rparr>) (MAP (ys @ [(k, ob)]))"
      using assms item by (simp add: push_value_def) }
  { assume m: "unat (fcount c) = Suc (Suc m)"
    let ?c = "c\<lparr>fobj := MAP (ys @ [(k, ob)]), fcount := fcount c - 1, fct := CT_MAP_KEY\<rparr>"
    have nz': "fcount c - 1 \<noteq> 0" using dec m by (metis Suc_eq_plus1 Suc_neq_Zero add_diff_cancel_right' unsigned_0)
    then have "push_value s ob = Inr (Header_again, s\<lparr>stack := ?c # st\<rparr>)"
      using assms item by (simp add: push_value_def)
    moreover have "frame_ok ?c" using room m dec nz' by (simp add: frame_ok_def algebra_simps)
    ultimately show "\<exists>c'. push_value s ob = Inr (Header_again, s\<lparr>stack := c' # st\<rparr>) \<and>
           frame_ok c' \<and> fct c' = CT_MAP_KEY \<and> fobj c' = MAP (ys @ [(k, ob)]) \<and>
           unat (fcount c') = Suc m"
      using dec m by (intro exI [of _ ?c]) simp }
qed

text \<open>One pair: after the key the machine reads the value with the key stored.\<close>

lemma parses_key:
  assumes "u_cs s = CS_HEADER" and "zone_ok (uzone s)" and "stack s = c # st" and "frame_ok c"
      and "fct c = CT_MAP_KEY" and "parsable data d kb kv" and "parsable data d vb vv"
      and "at data (u_p s) (kb @ vb)" and "length (stack s) + d \<le> MSGPACK_EMBED_STACK_SIZE"
  shows "\<exists>s1 k ob. exec_loop all_ok data s = after_step all_ok data (push_value s1 ob) \<and>
     stack s1 = c\<lparr>fmap_key := Some k, fct := CT_MAP_VALUE\<rparr> # st \<and> zone_ok (uzone s1) \<and>
     Suc (u_p s1) = u_p s + length kb + length vb \<and> resolve data k = kv \<and> resolve data ob = vv"
proof -
  have ats: "at data (u_p s) kb" "at data (u_p s + length kb) vb"
    using assms(8) by (simp_all add: at_append)
  obtain s1 k where s1: "exec_loop all_ok data s = after_step all_ok data (push_value s1 k)"
    "stack s1 = c # st" "zone_ok (uzone s1)" "Suc (u_p s1) = u_p s + length kb" "resolve data k = kv"
    using parsesE [OF parsableD [OF assms(6,1,2) ats(1) assms(9)]] assms(3) by metis
  let ?c = "c\<lparr>fmap_key := Some k, fct := CT_MAP_VALUE\<rparr>"
  note key = push_map_key [OF s1(2) assms(4,5), of k]
  define s2 where "s2 = s1\<lparr>stack := ?c # st, u_cs := CS_HEADER, u_p := u_p s1 + 1\<rparr>"
  have at2: "at data (u_p s2) vb" using ats(2) s1(4) by (simp add: s2_def)
  have "vb \<noteq> []" using assms(7) by (simp add: parsable_def)
  then have "u_p s2 < length data" using at_more [OF at2] by simp
  then have step: "exec_loop all_ok data s = exec_loop all_ok data s2"
    using s1(1) key(1) after_step_header [of "s1\<lparr>stack := ?c # st\<rparr>" data all_ok] by (simp add: s2_def)
  have "parses data s2 (length vb) vv"
    using parsableD [OF assms(7), of s2] at2 s1(3) assms(3,9) by (simp add: s2_def)
  then obtain s3 ob where "exec_loop all_ok data s2 = after_step all_ok data (push_value s3 ob)"
    "stack s3 = stack s2" "zone_ok (uzone s3)" "Suc (u_p s3) = u_p s2 + length vb"
    "resolve data ob = vv"
    using parsesE by metis
  then show ?thesis
    using step s1(4,5) by (intro exI [of _ s3] exI [of _ k] exI [of _ ob]) (simp add: s2_def)
qed

lemma parses_pairs:
  assumes "u_cs s = CS_HEADER" and "zone_ok (uzone s)" and "stack s = c # st"
      and "frame_ok c" and "fct c = CT_MAP_KEY" and "fobj c = MAP ys"
      and "unat (fcount c) = length xs" and "xs \<noteq> []"
      and "\<forall>((kb, kv), (vb, vv)) \<in> set xs. parsable data d kb kv \<and> parsable data d vb vv"
      and "at data (u_p s) (concat (map (\<lambda>x. fst (fst x) @ fst (snd x)) xs))"
      and "length (stack s) + d \<le> MSGPACK_EMBED_STACK_SIZE"
  shows "\<exists>s1 zs. exec_loop all_ok data s = after_step all_ok data (push_value s1 (MAP (ys @ zs))) \<and>
     stack s1 = st \<and> zone_ok (uzone s1) \<and>
     Suc (u_p s1) = u_p s + length (concat (map (\<lambda>x. fst (fst x) @ fst (snd x)) xs)) \<and>
     map (\<lambda>kv. (resolve data (fst kv), resolve data (snd kv))) zs =
       map (\<lambda>x. (snd (fst x), snd (snd x))) xs"
  using assms
proof (induction xs arbitrary: s c ys)
  case Nil
  then show ?case by simp
next
  case (Cons x xs)
  obtain kb kv vb vv where x: "x = ((kb, kv), (vb, vv))" by (metis surj_pair)
  let ?bytes = "concat (map (\<lambda>x. fst (fst x) @ fst (snd x)) xs)"
  have ats: "at data (u_p s) (kb @ vb)" "at data (u_p s + length (kb @ vb)) ?bytes"
    using Cons.prems(10) x at_append [of data "u_p s" "kb @ vb" ?bytes] by simp_all
  have pk: "parsable data d kb kv" and pv: "parsable data d vb vv" using Cons.prems(9) x by simp_all
  obtain s1 k ob where s1: "exec_loop all_ok data s = after_step all_ok data (push_value s1 ob)"
    "stack s1 = c\<lparr>fmap_key := Some k, fct := CT_MAP_VALUE\<rparr> # st" "zone_ok (uzone s1)"
    "Suc (u_p s1) = u_p s + length kb + length vb" "resolve data k = kv" "resolve data ob = vv"
    using parses_key [OF Cons.prems(1-5) pk pv ats(1) Cons.prems(11)] by blast
  have fo: "frame_ok (c\<lparr>fmap_key := Some k, fct := CT_MAP_VALUE\<rparr>)"
    using push_map_key(2) [of "s1\<lparr>stack := c # st\<rparr>" c st] Cons.prems(4,5) by simp
  note item = push_map_value [OF s1(2) fo, of ys k]
  show ?case
  proof (cases "xs = []")
    case True
    then have "push_value s1 ob = push_value (s1\<lparr>stack := st\<rparr>) (MAP (ys @ [(k, ob)]))"
      using Cons.prems(6,7) by (intro item(1)) simp_all
    then show ?thesis
      using s1 x True by (intro exI [of _ "s1\<lparr>stack := st\<rparr>"] exI [of _ "[(k, ob)]"]) simp
  next
    case False
    then obtain m where m: "length xs = Suc m" by (cases xs) auto
    obtain c' where c': "push_value s1 ob = Inr (Header_again, s1\<lparr>stack := c' # st\<rparr>)"
      "frame_ok c'" "fct c' = CT_MAP_KEY" "fobj c' = MAP (ys @ [(k, ob)])" "unat (fcount c') = Suc m"
      using item(2) [of m] Cons.prems(6,7) m by auto
    define s2 where "s2 = s1\<lparr>stack := c' # st, u_cs := CS_HEADER, u_p := u_p s1 + 1\<rparr>"
    have at2: "at data (u_p s2) ?bytes" using ats(2) s1(4) by (simp add: s2_def add.assoc)
    have ne: "?bytes \<noteq> []" using False Cons.prems(9) by (cases xs) (auto simp: parsable_def)
    have "u_p s2 < length data" using at_more [OF at2 ne] .
    then have "after_step all_ok data (push_value s1 ob) = exec_loop all_ok data s2"
      using c'(1) after_step_header [of "s1\<lparr>stack := c' # st\<rparr>" data all_ok] by (simp add: s2_def)
    moreover have "\<exists>s3 zs. exec_loop all_ok data s2 =
          after_step all_ok data (push_value s3 (MAP ((ys @ [(k, ob)]) @ zs))) \<and>
        stack s3 = st \<and> zone_ok (uzone s3) \<and> Suc (u_p s3) = u_p s2 + length ?bytes \<and>
        map (\<lambda>kv. (resolve data (fst kv), resolve data (snd kv))) zs =
          map (\<lambda>x. (snd (fst x), snd (snd x))) xs"
      using Cons.IH [of s2 c' "ys @ [(k, ob)]"] c' m at2 s1(2,3) Cons.prems(3,9,11) False
      by (simp add: s2_def)
    ultimately obtain s3 zs where "exec_loop all_ok data s =
          after_step all_ok data (push_value s3 (MAP (ys @ ((k, ob) # zs))))"
      "stack s3 = st" "zone_ok (uzone s3)" "Suc (u_p s3) = u_p s2 + length ?bytes"
      "map (\<lambda>kv. (resolve data (fst kv), resolve data (snd kv))) zs =
          map (\<lambda>x. (snd (fst x), snd (snd x))) xs"
      using s1(1) by auto
    then show ?thesis
      using s1(4-6) x by (intro exI [of _ s3] exI [of _ "(k, ob) # zs"]) (simp add: s2_def)
  qed
qed

section \<open>Objects\<close>

lemma pack_headers_nonempty [simp]:
  "msgpack_pack_array k \<noteq> []" "msgpack_pack_map k \<noteq> []" "msgpack_pack_raw k \<noteq> []"
  "msgpack_pack_uint64 k \<noteq> []" "msgpack_pack_int64 i \<noteq> []"
  by (simp_all add: msgpack_pack_array_def msgpack_pack_map_def msgpack_pack_raw_def
      msgpack_pack_uint64_def msgpack_pack_int64_def)

lemma moved_pred: "bs \<noteq> [] \<Longrightarrow> moved s s1 (length bs - 1) \<Longrightarrow> Suc (u_p s1) = u_p s + length bs"
  by (cases bs) (auto simp: moved_def)

lemma parsable_array:
  assumes "unat (len :: u32) = length xs" and "\<forall>(bs, v) \<in> set xs. parsable data d bs v"
  shows "parsable data (Suc d) (msgpack_pack_array (ucast len) @ concat (map fst xs))
           (VArray (map snd xs))"
  unfolding parsable_def
proof (intro conjI allI impI)
  let ?h = "msgpack_pack_array (ucast len)"
  fix s :: ust assume s: "u_cs s = CS_HEADER" "zone_ok (uzone s)" "at data (u_p s) (?h @ concat (map fst xs))"
    "length (stack s) + Suc d \<le> MSGPACK_EMBED_STACK_SIZE"
  have ats: "at data (u_p s) ?h" "at data (u_p s + length ?h) (concat (map fst xs))"
    using s(3) by (simp_all add: at_append)
  obtain s1 where s1: "unpack_step all_ok data s =
        start_container (template_callback_array all_ok) s1 len CT_ARRAY_ITEM"
      "moved s s1 (length ?h - 1)"
    using step_array [OF s(1) ats(1)] by blast
  have p1: "Suc (u_p s1) = u_p s + length ?h" by (rule moved_pred [OF _ s1(2)]) simp
  have exec: "exec_loop all_ok data s = after_step all_ok data (unpack_step all_ok data s)"
    using exec_loop_after_step at_le [OF ats(1)] by blast
  have z1: "zone_ok (uzone s1)" "length (stack s1) < MSGPACK_EMBED_STACK_SIZE" "stack s1 = stack s"
    using s s1(2) by (auto simp: moved_def)
  obtain z where z: "zone_ok z"
    "if len = 0 then start_container (template_callback_array all_ok) s1 len CT_ARRAY_ITEM
          = push_value (s1\<lparr>uzone := z\<rparr>) (ARRAY [])
     else \<exists>c. start_container (template_callback_array all_ok) s1 len CT_ARRAY_ITEM
          = Inr (Header_again, s1\<lparr>uzone := z, stack := c # stack s1\<rparr>) \<and>
        frame_ok c \<and> fobj c = ARRAY [] \<and> fct c = CT_ARRAY_ITEM \<and> unat (fcount c) = unat len"
    using start_container_opens [OF z1(1,2) callback_array_ok callbacks_all_ok(1)] by blast
  show "parses data s (length (?h @ concat (map fst xs))) (VArray (map snd xs))"
  proof (cases "len = 0")
    case True
    then have "xs = []" using assms(1) by simp
    then show ?thesis
      using exec s1(1) z True p1 z1(3) unfolding parses_def
      by (intro exI [of _ "s1\<lparr>uzone := z\<rparr>"] exI [of _ "ARRAY []"]) simp
  next
    case False
    then obtain c where c: "start_container (template_callback_array all_ok) s1 len CT_ARRAY_ITEM
          = Inr (Header_again, s1\<lparr>uzone := z, stack := c # stack s1\<rparr>)"
        "frame_ok c" "fobj c = ARRAY []" "fct c = CT_ARRAY_ITEM" "unat (fcount c) = unat len"
      using z(2) by auto
    have ne: "xs \<noteq> []" using False assms(1) by (auto simp: unat_eq_zero)
    then have "concat (map fst xs) \<noteq> []" using assms(2) by (cases xs) (auto simp: parsable_def)
    then have lt: "u_p s1 + 1 < length data" using at_more [OF ats(2)] p1 by simp
    define s2 where "s2 = s1\<lparr>uzone := z, stack := c # stack s1, u_cs := CS_HEADER, u_p := u_p s1 + 1\<rparr>"
    have step: "exec_loop all_ok data s = exec_loop all_ok data s2"
      using exec s1(1) c(1) lt
        after_step_header [of "s1\<lparr>uzone := z, stack := c # stack s1\<rparr>" data all_ok]
      by (simp add: s2_def)
    have "\<exists>s3 zs. exec_loop all_ok data s2 = after_step all_ok data (push_value s3 (ARRAY ([] @ zs))) \<and>
        stack s3 = stack s1 \<and> zone_ok (uzone s3) \<and>
        Suc (u_p s3) = u_p s2 + length (concat (map fst xs)) \<and> map (resolve data) zs = map snd xs"
      using c(2-5) z(1) assms ne ats(2) p1 z1(3) s(4)
      by (intro parses_items) (simp_all add: s2_def)
    then show ?thesis
      using step p1 z1(3) unfolding parses_def by (force simp: s2_def)
  qed
qed simp

lemma parsable_map:
  assumes "unat (len :: u32) = length xs"
      and "\<forall>((kb, kv), (vb, vv)) \<in> set xs. parsable data d kb kv \<and> parsable data d vb vv"
  shows "parsable data (Suc d)
           (msgpack_pack_map (ucast len) @ concat (map (\<lambda>x. fst (fst x) @ fst (snd x)) xs))
           (VMap (map (\<lambda>x. (snd (fst x), snd (snd x))) xs))"
  unfolding parsable_def
proof (intro conjI allI impI)
  let ?h = "msgpack_pack_map (ucast len)"
  let ?bytes = "concat (map (\<lambda>x. fst (fst x) @ fst (snd x)) xs)"
  fix s :: ust assume s: "u_cs s = CS_HEADER" "zone_ok (uzone s)" "at data (u_p s) (?h @ ?bytes)"
    "length (stack s) + Suc d \<le> MSGPACK_EMBED_STACK_SIZE"
  have ats: "at data (u_p s) ?h" "at data (u_p s + length ?h) ?bytes"
    using s(3) by (simp_all add: at_append)
  obtain s1 where s1: "unpack_step all_ok data s =
        start_container (template_callback_map all_ok) s1 len CT_MAP_KEY"
      "moved s s1 (length ?h - 1)"
    using step_map [OF s(1) ats(1)] by blast
  have p1: "Suc (u_p s1) = u_p s + length ?h" by (rule moved_pred [OF _ s1(2)]) simp
  have exec: "exec_loop all_ok data s = after_step all_ok data (unpack_step all_ok data s)"
    using exec_loop_after_step at_le [OF ats(1)] by blast
  have z1: "zone_ok (uzone s1)" "length (stack s1) < MSGPACK_EMBED_STACK_SIZE" "stack s1 = stack s"
    using s s1(2) by (auto simp: moved_def)
  obtain z where z: "zone_ok z"
    "if len = 0 then start_container (template_callback_map all_ok) s1 len CT_MAP_KEY
          = push_value (s1\<lparr>uzone := z\<rparr>) (MAP [])
     else \<exists>c. start_container (template_callback_map all_ok) s1 len CT_MAP_KEY
          = Inr (Header_again, s1\<lparr>uzone := z, stack := c # stack s1\<rparr>) \<and>
        frame_ok c \<and> fobj c = MAP [] \<and> fct c = CT_MAP_KEY \<and> unat (fcount c) = unat len"
    using start_container_opens [OF z1(1,2) callback_map_ok callbacks_all_ok(2)] by blast
  show "parses data s (length (?h @ ?bytes)) (VMap (map (\<lambda>x. (snd (fst x), snd (snd x))) xs))"
  proof (cases "len = 0")
    case True
    then have "xs = []" using assms(1) by simp
    then show ?thesis
      using exec s1(1) z True p1 z1(3) unfolding parses_def
      by (intro exI [of _ "s1\<lparr>uzone := z\<rparr>"] exI [of _ "MAP []"]) simp
  next
    case False
    then obtain c where c: "start_container (template_callback_map all_ok) s1 len CT_MAP_KEY
          = Inr (Header_again, s1\<lparr>uzone := z, stack := c # stack s1\<rparr>)"
        "frame_ok c" "fobj c = MAP []" "fct c = CT_MAP_KEY" "unat (fcount c) = unat len"
      using z(2) by auto
    have ne: "xs \<noteq> []" using False assms(1) by (auto simp: unat_eq_zero)
    then have "?bytes \<noteq> []" using assms(2) by (cases xs) (auto simp: parsable_def)
    then have lt: "u_p s1 + 1 < length data" using at_more [OF ats(2)] p1 by simp
    define s2 where "s2 = s1\<lparr>uzone := z, stack := c # stack s1, u_cs := CS_HEADER, u_p := u_p s1 + 1\<rparr>"
    have step: "exec_loop all_ok data s = exec_loop all_ok data s2"
      using exec s1(1) c(1) lt
        after_step_header [of "s1\<lparr>uzone := z, stack := c # stack s1\<rparr>" data all_ok]
      by (simp add: s2_def)
    have "\<exists>s3 zs. exec_loop all_ok data s2 = after_step all_ok data (push_value s3 (MAP ([] @ zs))) \<and>
        stack s3 = stack s1 \<and> zone_ok (uzone s3) \<and> Suc (u_p s3) = u_p s2 + length ?bytes \<and>
        map (\<lambda>kv. (resolve data (fst kv), resolve data (snd kv))) zs =
          map (\<lambda>x. (snd (fst x), snd (snd x))) xs"
      using c(2-5) z(1) assms ne ats(2) p1 z1(3) s(4)
      by (intro parses_pairs) (simp_all add: s2_def)
    then show ?thesis
      using step p1 z1(3) unfolding parses_def by (force simp: s2_def)
  qed
qed simp

lemma parsable_raw:
  assumes "unat (len :: u32) = length body"
  shows "parsable data 0 (msgpack_pack_raw (ucast len) @ body) (VRaw body)"
  unfolding parsable_def
proof (intro conjI allI impI)
  let ?h = "msgpack_pack_raw (ucast len)"
  fix s :: ust assume s: "u_cs s = CS_HEADER" "zone_ok (uzone s)" "at data (u_p s) (?h @ body)"
  have ats: "at data (u_p s) ?h" "at data (u_p s + length ?h) body"
    using s(3) by (simp_all add: at_append)
  obtain s1 where s1: "unpack_step all_ok data s = again_raw data s1 len" "moved s s1 (length ?h - 1)"
    using step_raw [OF s(1) ats(1)] by blast
  have p1: "Suc (u_p s1) = u_p s + length ?h" by (rule moved_pred [OF _ s1(2)]) simp
  have at1: "at data (Suc (u_p s1)) body" using ats(2) p1 by simp
  obtain s2 ptr where s2: "again_raw data s1 len = push_value s2 (RAW ptr len)"
    "moved s1 s2 (length body)" "len \<noteq> 0 \<longrightarrow> ptr = Some (Suc (u_p s1))"
    using again_raw_at [OF at1 assms] by blast
  have "parses data s (Suc (length ?h - 1 + length body)) (VRaw body)"
    using parsesI [of data s s2 "RAW ptr len"] s1(1) s2(1) moved_trans [OF s1(2) s2(2)] s(2)
      at_le [OF s(3)] raw_resolve [OF at1 assms s2(3)] by simp
  then show "parses data s (length (?h @ body)) (VRaw body)" by (cases ?h) simp_all
qed simp

lemma seq_bytes_Inr:
  "seq_bytes ms = Inr b \<Longrightarrow> \<exists>bss. ms = map Inr bss \<and> b = concat bss"
proof (induction ms arbitrary: b)
  case (Cons m ms)
  then obtain x y where "m = Inr x" "seq_bytes ms = Inr y" "b = x @ y"
    by (auto elim!: bind_res_Inr_E)
  then show ?case using Cons.IH [of y] by (metis concat.simps(2) list.simps(9))
qed simp

lemma foldr_max_ge: "x \<in> set xs \<Longrightarrow> f x \<le> foldr (\<lambda>x m. max (f x) m) xs (0 :: nat)"
  by (induction xs) auto

lemma map_eq_mapD: "map f xs = map g ys \<Longrightarrow> length xs = length ys"
  by (metis length_map)

lemma unat_of_length: "k < 2 ^ 32 \<Longrightarrow> unat (of_nat k :: u32) = k"
  by (simp add: unat_of_nat)

lemma ucast_of_length: "k < 2 ^ 32 \<Longrightarrow> (ucast (of_nat k :: u32) :: u64) = of_nat k"
  by (simp add: word_unat_eq_iff unat_of_nat unat_ucast_32_64)

lemma pack_parsable:
  assumes "storable ob" and "msgpack_pack_object mem ob = Inr bs"
  shows "parsable data (depth ob) bs (resolve mem ob)"
  using assms
proof (induction mem ob arbitrary: bs rule: msgpack_pack_object.induct)
  case (1 mem)
  then show ?case using parses_simple(1) by (auto simp: parsable_def msgpack_pack_nil_def)
next
  case (2 mem b)
  then show ?case
    using parses_simple(2,3)
    by (cases b) (auto simp: parsable_def msgpack_pack_true_def msgpack_pack_false_def)
next
  case (3 mem u)
  then show ?case using parses_uint64 by (auto simp: parsable_def)
next
  case (4 mem i)
  then show ?case using parses_int64 by (auto simp: parsable_def)
next
  case (5 mem d)
  then show ?case using parses_simple(4) by (auto simp: parsable_def msgpack_pack_double_def)
next
  case (6 mem ptr l)
  then obtain body where b: "msgpack_pack_raw_body mem ptr l = Inr body"
    "bs = msgpack_pack_raw (ucast l) @ body" by auto
  have "unat l = length body \<and> resolve mem (RAW ptr l) = VRaw body"
  proof (cases "l = 0")
    case True
    then show ?thesis using b(1) by (cases ptr) (auto simp: msgpack_pack_raw_body_def)
  next
    case False
    then show ?thesis
      using b(1) by (auto simp: msgpack_pack_raw_body_def bytes_at_def split: option.splits if_splits)
  qed
  then show ?case using parsable_raw [of l body data] b(2) by simp
next
  case (7 mem xs)
  let ?d = "foldr (\<lambda>x m. max (depth x) m) xs 0"
  obtain bss where bss: "map (msgpack_pack_object mem) xs = map Inr bss"
    "bs = msgpack_pack_array (of_nat (length xs)) @ concat bss"
    using "7.prems"(2) seq_bytes_Inr by fastforce
  have len: "length xs = length bss" using map_eq_mapD [OF bss(1)] .
  let ?items = "zip bss (map (resolve mem) xs)"
  have "\<forall>(b, v) \<in> set ?items. parsable data ?d b v"
  proof clarify
    fix b v assume "(b, v) \<in> set ?items"
    then obtain i where i: "i < length xs" "b = bss ! i" "v = resolve mem (xs ! i)"
      using len by (auto simp: set_zip)
    have "msgpack_pack_object mem (xs ! i) = Inr b" using arg_cong [OF bss(1), of "\<lambda>l. l ! i"] i len by simp
    then have "parsable data (depth (xs ! i)) b v"
      using "7.IH" [of "xs ! i" b] "7.prems"(1) i by auto
    then show "parsable data ?d b v"
      using parsable_mono foldr_max_ge [of "xs ! i" xs depth] i(1) by auto
  qed
  then have "parsable data (Suc ?d)
      (msgpack_pack_array (ucast (of_nat (length xs) :: u32)) @ concat (map fst ?items))
      (VArray (map snd ?items))"
    using "7.prems"(1) len by (intro parsable_array) (simp_all add: unat_of_length)
  then show ?case using bss(2) len "7.prems"(1) by (simp add: ucast_of_length)
next
  case (8 mem kvs)
  let ?d = "foldr (\<lambda>kv m. max (max (depth (fst kv)) (depth (snd kv))) m) kvs 0"
  let ?pk = "\<lambda>kv. bind_res (msgpack_pack_object mem (fst kv)) (\<lambda>kb.
        bind_res (msgpack_pack_object mem (snd kv)) (\<lambda>vb. Inr (kb @ vb)))"
  obtain bss where bss: "map ?pk kvs = map Inr bss"
    "bs = msgpack_pack_map (of_nat (length kvs)) @ concat bss"
    using "8.prems"(2) seq_bytes_Inr by fastforce
  have len: "length kvs = length bss" using map_eq_mapD [OF bss(1)] .
  define item where "item = (\<lambda>kv. ((projr (msgpack_pack_object mem (fst kv)), resolve mem (fst kv)),
        (projr (msgpack_pack_object mem (snd kv)), resolve mem (snd kv))))"
  have both: "\<exists>kb vb. msgpack_pack_object mem (fst (kvs ! i)) = Inr kb \<and>
        msgpack_pack_object mem (snd (kvs ! i)) = Inr vb \<and> bss ! i = kb @ vb"
    if "i < length kvs" for i
    using arg_cong [OF bss(1), of "\<lambda>l. l ! i"] that len by (auto elim!: bind_res_Inr_E)
  have "\<forall>((kb, kv), (vb, vv)) \<in> set (map item kvs). parsable data ?d kb kv \<and> parsable data ?d vb vv"
  proof -
    have "parsable data ?d (fst (fst (item (kvs ! i)))) (snd (fst (item (kvs ! i)))) \<and>
          parsable data ?d (fst (snd (item (kvs ! i)))) (snd (snd (item (kvs ! i))))"
      if i: "i < length kvs" for i
    proof -
      obtain kb vb where kv: "msgpack_pack_object mem (fst (kvs ! i)) = Inr kb"
        "msgpack_pack_object mem (snd (kvs ! i)) = Inr vb" using both [OF i] by blast
      have st: "storable (fst (kvs ! i))" "storable (snd (kvs ! i))" using "8.prems"(1) i by auto
      have mem: "kvs ! i \<in> set kvs" using i by simp
      have "max (depth (fst (kvs ! i))) (depth (snd (kvs ! i))) \<le> ?d"
        using foldr_max_ge [OF mem, of "\<lambda>kv. max (depth (fst kv)) (depth (snd kv))"] .
      then show ?thesis
        using "8.IH"(1) [OF mem st(1) kv(1)] "8.IH"(2) [OF mem kv(1) st(2) kv(2)] kv
        by (auto simp: item_def intro: parsable_mono)
    qed
    note each = this
    have "\<forall>x \<in> set kvs. parsable data ?d (fst (fst (item x))) (snd (fst (item x))) \<and>
        parsable data ?d (fst (snd (item x))) (snd (snd (item x)))"
    proof
      fix x assume "x \<in> set kvs"
      then obtain i where "i < length kvs" and "kvs ! i = x" by (metis in_set_conv_nth)
      then show "parsable data ?d (fst (fst (item x))) (snd (fst (item x))) \<and>
          parsable data ?d (fst (snd (item x))) (snd (snd (item x)))" using each by blast
    qed
    then show ?thesis by (simp add: item_def)
  qed
  then have "parsable data (Suc ?d)
      (msgpack_pack_map (ucast (of_nat (length kvs) :: u32)) @
         concat (map (\<lambda>x. fst (fst x) @ fst (snd x)) (map item kvs)))
      (VMap (map (\<lambda>x. (snd (fst x), snd (snd x))) (map item kvs)))"
    using "8.prems"(1) by (intro parsable_map) (simp_all add: unat_of_length)
  moreover have "map (\<lambda>x. fst (fst x) @ fst (snd x)) (map item kvs) = bss"
  proof (rule nth_equalityI)
    fix i assume "i < length (map (\<lambda>x. fst (fst x) @ fst (snd x)) (map item kvs))"
    then have i: "i < length kvs" by simp
    then show "map (\<lambda>x. fst (fst x) @ fst (snd x)) (map item kvs) ! i = bss ! i"
      using both [OF i] by (auto simp: item_def)
  qed (simp add: len)
  ultimately show ?case
    using bss(2) "8.prems"(1) by (simp add: ucast_of_length item_def comp_def)
qed

section \<open>Properties\<close>

text \<open>C14: The decoder inverts the encoder: whatever object the encoder has written, with
  containers nested at most 32 deep, and whatever bytes follow, the decoder returns
  an object of the same value (raw bytes resolved in their buffers) and stops right
  behind it.\<close>

theorem unpack_pack:
  assumes "storable ob" and "depth ob \<le> 32" and "msgpack_pack_object mem ob = Inr bs"
  shows "\<exists>r'. msgpack_unpack_next all_ok r (bs @ rest) 0 = Inr (True, r', length bs) \<and>
           resolve (bs @ rest) (unpacked_data r') = resolve mem ob"
proof -
  let ?data = "bs @ rest"
  let ?s = "(template_init (msgpack_zone_new all_ok MSGPACK_ZONE_CHUNK_SIZE))\<lparr>u_p := 0, u_n := None\<rparr>"
  have p: "parsable ?data (depth ob) bs (resolve mem ob)" by (rule pack_parsable [OF assms(1,3)])
  then have ne: "bs \<noteq> []" by (simp add: parsable_def)
  have "parses ?data ?s (length bs) (resolve mem ob)"
    using parsableD [OF p, of ?s] zone_new_ok [of all_ok] assms(2)
    by (simp add: template_init_def at_def MSGPACK_EMBED_STACK_SIZE_def all_ok_def)
  then obtain s1 v where s1: "exec_loop all_ok ?data ?s = after_step all_ok ?data (push_value s1 v)"
    "stack s1 = []" "Suc (u_p s1) = length bs" and v: "resolve ?data v = resolve mem ob"
    by (auto simp: parses_def template_init_def)
  from s1 have fin: "exec_loop all_ok ?data ?s = Inr (Finish v, s1\<lparr>stack := []\<rparr>)"
    by (simp add: push_value_def after_step_def)
  have "msgpack_unpack_next all_ok r ?data 0 =
      Inr (True, \<lparr>unpacked_zone = uzone s1, unpacked_data = v\<rparr>, length bs)"
    unfolding unpack_next_True_iff fin using ne s1(3) by auto
  then show ?thesis using v by simp
qed

theorem unpack_pack_witness:
  "\<exists>r'. msgpack_unpack_next all_ok msgpack_unpacked_init
            ([0x92, 0x05, 0x81, 0xa1, 0x61, 0xff] @ [0x07]) 0 =
       Inr (True, r', length [0x92, 0x05, 0x81, 0xa1, 0x61, 0xff :: byte]) \<and>
     resolve ([0x92, 0x05, 0x81, 0xa1, 0x61, 0xff] @ [0x07]) (unpacked_data r') =
       VArray [VInt 5, VMap [(VRaw [0x61], VInt (-1))]]"
proof -
  let ?ob = "ARRAY [POSITIVE_INTEGER 5, MAP [(RAW (Some 0) 1, NEGATIVE_INTEGER (-1))]]"
  have bytes: "msgpack_pack_object [0x61] ?ob = Inr [0x92, 0x05, 0x81, 0xa1, 0x61, 0xff]"
    by (simp add: msgpack_pack_array_def msgpack_pack_map_def msgpack_pack_uint64_def
        msgpack_pack_int64_def msgpack_pack_raw_def msgpack_pack_raw_body_def bytes_at_def)
  have "storable ?ob" and "depth ?ob \<le> 32" by simp_all
  from unpack_pack [OF this bytes, of msgpack_unpacked_init "[0x07]"] show ?thesis by simp
qed

end
