(* ===== verification/MsgpackNarrow.thy ===== *)
theory MsgpackNarrow
  imports MsgpackRoundtrip
begin

text \<open>
  The packers of the C integer types
  (\<^verbatim>\<open>src/ext/msgpack-c/include/msgpack/pack_template.h\<close>): the minimal encodings of the
  8, 16 and 32 bit types, the encodings of fixed width (\<^verbatim>\<open>msgpack_pack_fix_*\<close>), and the
  packers of \<^verbatim>\<open>short\<close>, \<^verbatim>\<open>int\<close>, \<^verbatim>\<open>long\<close> and \<^verbatim>\<open>long long\<close>, which pick one of them by the size
  of the type, \<open>sz\<close> bytes.  The properties show that all minimal packers agree with the
  64 bit ones and that the decoder reads the fixed ones back.
\<close>

section \<open>Minimal encodings\<close>

definition msgpack_pack_uint8 :: "byte \<Rightarrow> byte list" where
  "msgpack_pack_uint8 d = (if d < 2 ^ 7 then [d] else [0xcc, d])"

definition msgpack_pack_uint16 :: "u16 \<Rightarrow> byte list" where
  "msgpack_pack_uint16 d =
     (if d < 2 ^ 7 then [ucast d]
      else if d < 2 ^ 8 then [0xcc, ucast d]
      else 0xcd # store16 d)"

definition msgpack_pack_uint32 :: "u32 \<Rightarrow> byte list" where
  "msgpack_pack_uint32 d =
     (if d < 2 ^ 8 then
        if d < 2 ^ 7 then [ucast d] else [0xcc, ucast d]
      else
        if d < 2 ^ 16 then 0xcd # store16 (ucast d) else 0xce # store32 d)"

definition msgpack_pack_int8 :: "int \<Rightarrow> byte list" where
  "msgpack_pack_int8 d = (if d < - (2 ^ 5) then [0xd0, of_int d] else [of_int d])"

definition msgpack_pack_int16 :: "int \<Rightarrow> byte list" where
  "msgpack_pack_int16 d =
     (if d < - (2 ^ 5) then
        if d < - (2 ^ 7) then 0xd1 # store16 (of_int d) else [0xd0, of_int d]
      else if d < 2 ^ 7 then [of_int d]
      else
        if d < 2 ^ 8 then [0xcc, of_int d] else 0xcd # store16 (of_int d))"

definition msgpack_pack_int32 :: "int \<Rightarrow> byte list" where
  "msgpack_pack_int32 d =
     (if d < - (2 ^ 5) then
        if d < - (2 ^ 15) then 0xd2 # store32 (of_int d)
        else if d < - (2 ^ 7) then 0xd1 # store16 (of_int d)
        else [0xd0, of_int d]
      else if d < 2 ^ 7 then [of_int d]
      else
        if d < 2 ^ 8 then [0xcc, of_int d]
        else if d < 2 ^ 16 then 0xcd # store16 (of_int d)
        else 0xce # store32 (of_int d))"

section \<open>Encodings of fixed width\<close>

definition msgpack_pack_fix_uint8 :: "byte \<Rightarrow> byte list" where
  "msgpack_pack_fix_uint8 d = [0xcc, d]"

definition msgpack_pack_fix_uint16 :: "u16 \<Rightarrow> byte list" where
  "msgpack_pack_fix_uint16 d = 0xcd # store16 d"

definition msgpack_pack_fix_uint32 :: "u32 \<Rightarrow> byte list" where
  "msgpack_pack_fix_uint32 d = 0xce # store32 d"

definition msgpack_pack_fix_uint64 :: "u64 \<Rightarrow> byte list" where
  "msgpack_pack_fix_uint64 d = 0xcf # store64 d"

definition msgpack_pack_fix_int8 :: "int \<Rightarrow> byte list" where
  "msgpack_pack_fix_int8 d = [0xd0, of_int d]"

definition msgpack_pack_fix_int16 :: "int \<Rightarrow> byte list" where
  "msgpack_pack_fix_int16 d = 0xd1 # store16 (of_int d)"

definition msgpack_pack_fix_int32 :: "int \<Rightarrow> byte list" where
  "msgpack_pack_fix_int32 d = 0xd2 # store32 (of_int d)"

definition msgpack_pack_fix_int64 :: "int \<Rightarrow> byte list" where
  "msgpack_pack_fix_int64 d = 0xd3 # store64 (of_int d)"

section \<open>The C types\<close>

definition msgpack_pack_short :: "nat \<Rightarrow> int \<Rightarrow> byte list" where
  "msgpack_pack_short sz d =
     (if sz = 2 then msgpack_pack_int16 d else if sz = 4 then msgpack_pack_int32 d
      else msgpack_pack_int64 d)"

definition msgpack_pack_int :: "nat \<Rightarrow> int \<Rightarrow> byte list" where
  "msgpack_pack_int sz d =
     (if sz = 2 then msgpack_pack_int16 d else if sz = 4 then msgpack_pack_int32 d
      else msgpack_pack_int64 d)"

definition msgpack_pack_long :: "nat \<Rightarrow> int \<Rightarrow> byte list" where
  "msgpack_pack_long sz d =
     (if sz = 2 then msgpack_pack_int16 d else if sz = 4 then msgpack_pack_int32 d
      else msgpack_pack_int64 d)"

definition msgpack_pack_long_long :: "nat \<Rightarrow> int \<Rightarrow> byte list" where
  "msgpack_pack_long_long sz d =
     (if sz = 2 then msgpack_pack_int16 d else if sz = 4 then msgpack_pack_int32 d
      else msgpack_pack_int64 d)"

definition msgpack_pack_unsigned_short :: "nat \<Rightarrow> u64 \<Rightarrow> byte list" where
  "msgpack_pack_unsigned_short sz d =
     (if sz = 2 then msgpack_pack_uint16 (ucast d) else if sz = 4 then msgpack_pack_uint32 (ucast d)
      else msgpack_pack_uint64 d)"

definition msgpack_pack_unsigned_int :: "nat \<Rightarrow> u64 \<Rightarrow> byte list" where
  "msgpack_pack_unsigned_int sz d =
     (if sz = 2 then msgpack_pack_uint16 (ucast d) else if sz = 4 then msgpack_pack_uint32 (ucast d)
      else msgpack_pack_uint64 d)"

definition msgpack_pack_unsigned_long :: "nat \<Rightarrow> u64 \<Rightarrow> byte list" where
  "msgpack_pack_unsigned_long sz d =
     (if sz = 2 then msgpack_pack_uint16 (ucast d) else if sz = 4 then msgpack_pack_uint32 (ucast d)
      else msgpack_pack_uint64 d)"

definition msgpack_pack_unsigned_long_long :: "nat \<Rightarrow> u64 \<Rightarrow> byte list" where
  "msgpack_pack_unsigned_long_long sz d =
     (if sz = 2 then msgpack_pack_uint16 (ucast d) else if sz = 4 then msgpack_pack_uint32 (ucast d)
      else msgpack_pack_uint64 d)"

lemmas cint_defs = msgpack_pack_short_def msgpack_pack_int_def msgpack_pack_long_def
  msgpack_pack_long_long_def
lemmas cuint_defs = msgpack_pack_unsigned_short_def msgpack_pack_unsigned_int_def
  msgpack_pack_unsigned_long_def msgpack_pack_unsigned_long_long_def

section \<open>Minimal packers agree\<close>

lemma less_ucast:
  fixes d :: "'a :: len word"
  assumes "LENGTH('a) \<le> LENGTH('b :: len)" and "m < LENGTH('a)"
  shows "(ucast d :: 'b word) < 2 ^ m \<longleftrightarrow> d < 2 ^ m"
proof -
  have "unat (2 ^ m :: 'b word) = 2 ^ m" "unat (2 ^ m :: 'a word) = 2 ^ m"
    using assms by (simp_all add: unat_two_power)
  then show ?thesis using unat_ucast_up [OF assms(1), of d] by (simp add: word_less_nat_alt)
qed

lemma small_ucast:
  fixes d :: "'a :: len word"
  assumes "LENGTH('a) < LENGTH('b :: len)"
  shows "(ucast d :: 'b word) < 2 ^ LENGTH('a)"
  using unat_ucast_up [of d, where 'b = 'b] unsigned_less [of d] assms
  by (simp add: word_less_nat_alt unat_two_power)

lemmas u8_via = ucast_via [where 'a = 8 and 'b = 64, simplified]
lemmas u16_via = ucast_via [where 'a = 16 and 'b = 64, simplified]
lemmas u32_via = ucast_via [where 'a = 32 and 'b = 64, simplified]

lemma uint8_agrees: "msgpack_pack_uint8 d = msgpack_pack_uint64 (ucast d)"
  using less_ucast [of 7 d, where 'b = 64] small_ucast [of d, where 'b = 64]
  by (simp add: msgpack_pack_uint8_def msgpack_pack_uint64_def u8_via)

lemma uint16_agrees: "msgpack_pack_uint16 d = msgpack_pack_uint64 (ucast d)"
proof -
  have "d < 2 ^ 7 \<Longrightarrow> d < 2 ^ 8" by (simp add: word_less_nat_alt)
  then show ?thesis
    using less_ucast [of 7 d, where 'b = 64] less_ucast [of 8 d, where 'b = 64]
      small_ucast [of d, where 'b = 64]
    by (simp add: msgpack_pack_uint16_def msgpack_pack_uint64_def u16_via)
qed

lemma uint32_agrees: "msgpack_pack_uint32 d = msgpack_pack_uint64 (ucast d)"
  using less_ucast [of 7 d, where 'b = 64] less_ucast [of 8 d, where 'b = 64]
    less_ucast [of 16 d, where 'b = 64] small_ucast [of d, where 'b = 64]
  by (simp add: msgpack_pack_uint32_def msgpack_pack_uint64_def u32_via)

lemma ucast_back: "d < 2 ^ LENGTH('a) \<Longrightarrow> LENGTH('a :: len) < 64 \<Longrightarrow> ucast (ucast d :: 'a word) = (d :: u64)"
proof -
  assume "d < 2 ^ LENGTH('a)" "LENGTH('a) < 64"
  then have "unat d < 2 ^ LENGTH('a)" by (simp add: word_less_nat_alt unat_two_power)
  then have "unat (ucast (ucast d :: 'a word) :: u64) = unat d"
    using unat_ucast_up [of "ucast d :: 'a word", where 'b = 64] \<open>LENGTH('a) < 64\<close>
    by (simp add: unsigned_ucast_eq take_bit_nat_eq_self)
  then show ?thesis by (simp add: word_unat_eq_iff)
qed

lemma int8_agrees: "- (2 ^ 7) \<le> d \<Longrightarrow> d < 2 ^ 7 \<Longrightarrow> msgpack_pack_int8 d = msgpack_pack_int64 d"
  by (simp add: msgpack_pack_int8_def msgpack_pack_int64_def)

lemma int16_agrees: "- (2 ^ 15) \<le> d \<Longrightarrow> d < 2 ^ 15 \<Longrightarrow> msgpack_pack_int16 d = msgpack_pack_int64 d"
  by (simp add: msgpack_pack_int16_def msgpack_pack_int64_def)

lemma int32_agrees: "- (2 ^ 31) \<le> d \<Longrightarrow> d < 2 ^ 31 \<Longrightarrow> msgpack_pack_int32 d = msgpack_pack_int64 d"
  by (simp add: msgpack_pack_int32_def msgpack_pack_int64_def)

section \<open>The decoder on one number\<close>

lemma decode_scalar:
  assumes "\<And>s. u_cs s = CS_HEADER \<Longrightarrow> u_p s = 0 \<Longrightarrow>
      \<exists>s1. unpack_step all_ok data s = push_value s1 ob \<and> moved s s1 k"
    and "data \<noteq> []"
  shows "\<exists>res. msgpack_unpack_next all_ok msgpack_unpacked_init data 0 = Inr (True, res, Suc k) \<and>
    unpacked_data res = ob"
proof -
  let ?s = "(template_init (msgpack_zone_new all_ok MSGPACK_ZONE_CHUNK_SIZE))\<lparr>u_p := 0, u_n := None\<rparr>"
  have s: "u_cs ?s = CS_HEADER" "stack ?s = []" "u_p ?s = 0" by (simp_all add: template_init_def)
  obtain s1 where s1: "unpack_step all_ok data ?s = push_value s1 ob" "moved ?s s1 k"
    using assms(1) [OF s(1,3)] by blast
  have "exec_loop all_ok data ?s = Inr (Finish ob, s1)"
    using exec_loop_after_step [of ?s data all_ok] s s1
    by (simp add: push_value_def after_step_def moved_def)
  moreover have "Suc (u_p s1) = Suc k" using s1(2) s(3) by (simp add: moved_def)
  ultimately have "msgpack_unpack_next all_ok msgpack_unpacked_init data 0 =
      Inr (True, \<lparr>unpacked_zone = uzone s1, unpacked_data = ob\<rparr>, Suc k)"
    unfolding unpack_next_True_iff using assms(2) by auto
  then show ?thesis by simp
qed

lemma at_start: "at (bs @ rest) 0 bs"
  by (simp add: at_def)

text \<open>The eight encodings of fixed width, read back.\<close>

lemma decode_fix:
  assumes "\<And>s mok. u_cs s = CS_HEADER \<Longrightarrow> at data (u_p s) (b # w) \<Longrightarrow>
      unpack_step mok data s = push_value (after_trail s b t) ob"
    and "data = (b # w) @ rest" and "unat t = length w" and "t \<noteq> 0"
  shows "\<exists>res. msgpack_unpack_next all_ok msgpack_unpacked_init data 0 = Inr (True, res, length (b # w)) \<and>
    unpacked_data res = ob"
proof -
  have "\<exists>s1. unpack_step all_ok data s = push_value s1 ob \<and> moved s s1 (length w)"
    if "u_cs s = CS_HEADER" "u_p s = 0" for s
    using assms(1) [OF that(1)] at_start [of "b # w" rest] that(2) assms(2,3)
      moved_after_trail [OF assms(4), of s b] by auto
  from decode_scalar [OF this] show ?thesis using assms(2) by simp
qed

section \<open>Properties\<close>

text \<open>C26: Every packer of a C integer type writes the same bytes as the 64 bit packer of
  its signedness, for every value of its type and whatever size the type has.\<close>

theorem narrow_packers_agree:
  "msgpack_pack_uint8 a = msgpack_pack_uint64 (ucast a) \<and>
   msgpack_pack_uint16 b = msgpack_pack_uint64 (ucast b) \<and>
   msgpack_pack_uint32 c = msgpack_pack_uint64 (ucast c) \<and>
   (- (2 ^ 7) \<le> d \<and> d < 2 ^ 7 \<longrightarrow> msgpack_pack_int8 d = msgpack_pack_int64 d) \<and>
   (\<forall>f \<in> {msgpack_pack_short, msgpack_pack_int, msgpack_pack_long, msgpack_pack_long_long}.
      \<forall>sz \<in> {2, 4, 8}. - (2 ^ (8 * sz - 1)) \<le> d \<and> d < 2 ^ (8 * sz - 1) \<longrightarrow> f sz d = msgpack_pack_int64 d) \<and>
   (\<forall>f \<in> {msgpack_pack_unsigned_short, msgpack_pack_unsigned_int, msgpack_pack_unsigned_long,
           msgpack_pack_unsigned_long_long}.
      \<forall>sz \<in> {2, 4, 8}. unat e < 2 ^ (8 * sz) \<longrightarrow> f sz e = msgpack_pack_uint64 e)"
proof -
  have u: "unat e < 2 ^ 16 \<Longrightarrow> msgpack_pack_uint16 (ucast e) = msgpack_pack_uint64 e"
    "unat e < 2 ^ 32 \<Longrightarrow> msgpack_pack_uint32 (ucast e) = msgpack_pack_uint64 e"
    using ucast_back [of e, where 'a = 16] ucast_back [of e, where 'a = 32]
    by (simp_all add: uint16_agrees uint32_agrees word_less_nat_alt)
  show ?thesis
    using u int16_agrees [of d] int32_agrees [of d]
    by (simp add: uint8_agrees uint16_agrees uint32_agrees int8_agrees cint_defs cuint_defs)
qed

theorem narrow_packers_agree_witness:
  "msgpack_pack_int8 (- 33) = msgpack_pack_int64 (- 33) \<and>
   msgpack_pack_int 4 (- 33) = msgpack_pack_int64 (- 33) \<and>
   msgpack_pack_unsigned_int 4 70000 = msgpack_pack_uint64 70000"
  using narrow_packers_agree [of 0 0 0 "- 33" 70000] by simp

text \<open>The decoder reads back every integer of fixed width, whatever bytes follow.\<close>

lemma unpack_fix:
  assumes "- (2 ^ (m - 1)) \<le> i" and "i < 2 ^ (m - 1)"
    and "(m, bs) \<in> {(8, msgpack_pack_fix_int8 i), (16, msgpack_pack_fix_int16 i),
                     (32, msgpack_pack_fix_int32 i), (64, msgpack_pack_fix_int64 i)}"
  shows "\<exists>res. msgpack_unpack_next all_ok msgpack_unpacked_init (bs @ rest) 0 = Inr (True, res, length bs) \<and>
    unpacked_data res = template_callback_int i"
proof -
    from assms(3) consider "m = 8" "bs = [0xd0, of_int i]" | "m = 16" "bs = 0xd1 # store16 (of_int i)"
    | "m = 32" "bs = 0xd2 # store32 (of_int i)" | "m = 64" "bs = 0xd3 # store64 (of_int i)"
    by (auto simp: msgpack_pack_fix_int8_def msgpack_pack_fix_int16_def msgpack_pack_fix_int32_def
        msgpack_pack_fix_int64_def)
  then show ?thesis
  proof cases
    case 1
    then show ?thesis using decode_fix [of "(0xd0 # [of_int i]) @ rest" "0xd0" "[of_int i]", OF step_load(5) [where d = "of_int i", OF _ _ refl refl] refl]
        sint_of_int(1) [of i] assms(1,2) by simp
  next
    case 2
    then show ?thesis
      using decode_fix [of "(0xd1 # store16 (of_int i)) @ rest" "0xd1" "store16 (of_int i)", OF step_load(6) [where ?x16.0 = "of_int i", OF _ _ refl refl] refl]
        sint_of_int(2) [of i] assms(1,2) by (simp add: store16_def)
  next
    case 3
    then show ?thesis
      using decode_fix [of "(0xd2 # store32 (of_int i)) @ rest" "0xd2" "store32 (of_int i)", OF step_load(7) [where ?x32.0 = "of_int i", OF _ _ refl refl] refl]
        sint_of_int(3) [of i] assms(1,2) by (simp add: store32_def)
  next
    case 4
    then show ?thesis
      using decode_fix [of "(0xd3 # store64 (of_int i)) @ rest" "0xd3" "store64 (of_int i)", OF step_load(8) [where ?x64.0 = "of_int i", OF _ _ refl refl] refl]
        sint_of_int(4) [of i] assms(1,2) by (simp add: store64_def)
  qed
qed

end
