(* ===== verification/Request.thy ===== *)
theory Request
  imports MsgpackNarrow
begin

text \<open>
  A request and the reading of its header block: \<^verbatim>\<open>Request\<close> of
  \<^verbatim>\<open>src/webapp/include/Webapp.h\<close> and the body of
  \<^verbatim>\<open>Worker::process_msgpack_request\<close> of \<^verbatim>\<open>src/webapp/src/Workers.cpp\<close>.

  A client sends a MessagePack number followed by that many bytes.  The bytes are
  read into the vector \<open>headers\<close>; \<open>headers_buf\<close> is a pointer into that vector,
  here the offset \<open>buf_off\<close>, with the announced length \<open>buf_len\<close> (0 while it is not
  known); \<open>ctr\<close> is the 16-bit counter of the bytes read.  What a call of
  \<^verbatim>\<open>read_some\<close> for at most \<open>k\<close> bytes yields is the parameter \<open>rs k\<close>: some bytes, or
  \<open>None\<close> when it throws.  Whether \<^verbatim>\<open>resize\<close> and \<^verbatim>\<open>calloc\<close> find memory is the parameter
  \<open>alloc\<close>.

  The conversions of the code are kept: the 64-bit number becomes an \<^verbatim>\<open>int32_t\<close>, sizes
  are 64-bit and unsigned, the counter wraps at 65536.
\<close>

section \<open>The request\<close>

record request =
  headers :: "byte list"
  buf_off :: nat
  buf_len :: int
  ctr :: u16
  lua_request :: "byte list option"

text \<open>\<^verbatim>\<open>std::vector<char>::resize\<close>.\<close>

definition resize :: "nat \<Rightarrow> byte list \<Rightarrow> byte list" where
  "resize k xs = take k xs @ replicate (k - length xs) 0"

definition request_reset :: "bool \<Rightarrow> request \<Rightarrow> request" where
  "request_reset destroy r =
     (let r = r\<lparr>ctr := 0\<rparr> in
      if \<not> destroy then
        (let r = (if buf_len r > 255 then r\<lparr>headers := resize 9 (headers r)\<rparr> else r)
         in r\<lparr>buf_off := 0, buf_len := 0\<rparr>)
      else r\<lparr>lua_request := None\<rparr>)"

definition new_Request :: request where
  "new_Request = request_reset False
     \<lparr>headers = resize 9 [], buf_off = 0, buf_len = 0, ctr = 0, lua_request = None\<rparr>"

section \<open>Reading\<close>

type_synonym read_some = "nat \<Rightarrow> byte list option"

datatype read_out = Complete | Incomplete | Thrown

text \<open>The size passed to \<^verbatim>\<open>buffer(data + n, to_read - n)\<close>: an \<^verbatim>\<open>int\<close> that becomes a
  \<^verbatim>\<open>size_t\<close>.\<close>

definition read_size :: "request \<Rightarrow> nat" where
  "read_size r =
     (let to_read = (if buf_len r = 0 then 9 else buf_len r)
      in unat (of_int (to_read - uint (ctr r)) :: u64))"

definition store_read :: "request \<Rightarrow> byte list \<Rightarrow> request res" where
  "store_read r bs =
     (let i = buf_off r + unat (ctr r)
      in if bs \<noteq> [] \<and> length (headers r) < i + length bs then Inl OutOfBounds
         else Inr (r\<lparr>headers := (if bs = [] then headers r else write_at (headers r) i bs),
                     ctr := ctr r + of_nat (length bs)\<rparr>))"

text \<open>The block that parses the length once a byte is there.  \<open>False\<close>: \<^verbatim>\<open>resize\<close> threw.\<close>

definition parse_length :: "malloc \<Rightarrow> (nat \<Rightarrow> bool) \<Rightarrow> request \<Rightarrow> (bool \<times> request) res" where
  "parse_length mok alloc r =
     bind_res (bytes_at (headers r) (buf_off r) (unat (ctr r))) (\<lambda>data.
     bind_res (msgpack_unpack_next mok msgpack_unpacked_init data 0) (\<lambda>(found, res, offset).
       case (found, unpacked_data res) of
         (True, POSITIVE_INTEGER u) \<Rightarrow>
           (let len = to_i32 (uint u);
                total = (of_int len + of_nat offset :: u64);
                r1 = r\<lparr>buf_len := len\<rparr>
            in if 9 < total then
                 if alloc (unat total) then
                   Inr (True, r1\<lparr>headers := resize (unat total) (headers r), buf_off := offset,
                                 ctr := ctr r - of_nat offset\<rparr>)
                 else Inr (False, r1)
               else Inr (True, r1\<lparr>buf_off := offset, ctr := ctr r - of_nat offset\<rparr>))
       | _ \<Rightarrow> Inr (True, r)))"

definition prepare_lua :: "(nat \<Rightarrow> bool) \<Rightarrow> u32 \<Rightarrow> request \<Rightarrow> request" where
  "prepare_lua alloc request_size r =
     r\<lparr>lua_request :=
         (if lua_request r = None then
            if alloc (unat request_size) then Some (replicate (unat request_size) 0) else None
          else Some (replicate (unat request_size) 0))\<rparr>"

definition read_headers ::
    "malloc \<Rightarrow> (nat \<Rightarrow> bool) \<Rightarrow> u32 \<Rightarrow> read_some \<Rightarrow> request \<Rightarrow> (read_out \<times> request) res" where
  "read_headers mok alloc request_size rs r =
     (case rs (read_size r) of
        None \<Rightarrow> Inr (Thrown, r)
      | Some bs \<Rightarrow>
          bind_res (store_read r bs) (\<lambda>r1.
          bind_res (if buf_len r1 = 0 \<and> ctr r1 \<ge> 1 then parse_length mok alloc r1 else Inr (True, r1))
            (\<lambda>(ok, r2).
              Inr (if \<not> ok then (Thrown, r2)
                   else if buf_len r2 > 0 \<and> uint (ctr r2) \<ge> buf_len r2 then
                     (Complete, prepare_lua alloc request_size r2)
                   else (Incomplete, r2)))))"

text \<open>What asio documents of \<^verbatim>\<open>read_some\<close>: never more than asked for, and at least one byte
  unless none was asked for.\<close>

definition read_law :: "read_some \<Rightarrow> bool" where
  "read_law rs \<longleftrightarrow> (\<forall>k bs. rs k = Some bs \<longrightarrow> length bs \<le> k \<and> (0 < k \<longrightarrow> bs \<noteq> []))"

section \<open>Safety\<close>

text \<open>A request that waits for more bytes: either the length is not known and fewer
  than ten bytes are there, or the announced bytes fit behind the offset.\<close>

definition waiting :: "request \<Rightarrow> bool" where
  "waiting r \<longleftrightarrow> 9 \<le> length (headers r) \<and> in_i32 (buf_len r) \<and>
     (buf_len r = 0 \<and> buf_off r = 0 \<and> uint (ctr r) \<le> 9 \<or>
      0 < buf_len r \<and> buf_off r + nat (buf_len r) \<le> length (headers r) \<and>
      uint (ctr r) < buf_len r)"

lemma length_resize [simp]: "length (resize k xs) = k"
  by (simp add: resize_def)

lemma take_resize: "j \<le> k \<Longrightarrow> j \<le> length xs \<Longrightarrow> take j (resize k xs) = take j xs"
  by (simp add: resize_def min_def)

lemma waiting_new: "waiting new_Request"
  by (simp add: waiting_def new_Request_def request_reset_def Let_def in_i32_def)

lemma waiting_reset: "9 \<le> length (headers r) \<Longrightarrow> waiting (request_reset False r)"
  by (simp add: waiting_def request_reset_def Let_def in_i32_def)

text \<open>The counter as a natural number.\<close>

lemma ctr_nat:
  obtains m where "uint (c :: u16) = int m" and "unat c = m" and "m < 65536"
proof
  show "uint c = int (unat c)" by simp
  show "unat c = unat c" ..
  show "unat c < 65536" using unsigned_less [of c] by simp
qed

lemma uint_of_int_u64: "0 \<le> d \<Longrightarrow> d < 2 ^ 64 \<Longrightarrow> uint (of_int d :: u64) = d"
  by (simp add: uint_word_of_int)

lemma read_size_waiting:
  assumes "waiting r"
  shows "int (read_size r) = (if buf_len r = 0 then 9 else buf_len r) - uint (ctr r)"
proof -
  obtain m where m: "uint (ctr r) = int m" using ctr_nat by blast
  let ?d = "(if buf_len r = 0 then 9 else buf_len r) - int m"
  have "0 \<le> ?d" and "?d < 2 ^ 64" using assms m by (auto simp: waiting_def in_i32_def)
  then have "uint (of_int ?d :: u64) = ?d" by (rule uint_of_int_u64)
  then show ?thesis unfolding read_size_def Let_def m by simp
qed

lemma uint_add_ctr: "uint (c + of_nat k :: u16) = (uint c + int k) mod 65536"
  by (simp add: uint_word_ariths unsigned_of_nat take_bit_eq_mod zmod_int mod_simps)

text \<open>Storing what was read keeps a waiting request inside its vector.\<close>

lemma store_read_ok:
  assumes "waiting r" and "length bs \<le> read_size r"
  shows "\<exists>r1. store_read r bs = Inr r1 \<and> length (headers r1) = length (headers r) \<and>
     buf_len r1 = buf_len r \<and> buf_off r1 = buf_off r \<and> lua_request r1 = lua_request r \<and>
     uint (ctr r1) = (uint (ctr r) + int (length bs)) mod 65536 \<and>
     take (buf_off r + unat (ctr r) + length bs) (headers r1) =
       take (buf_off r + unat (ctr r)) (headers r) @ bs"
proof -
  obtain m where m: "uint (ctr r) = int m" "unat (ctr r) = m" "m < 65536" using ctr_nat by blast
  have "int (length bs) \<le> (if buf_len r = 0 then 9 else buf_len r) - int m"
    using assms(2) read_size_waiting [OF assms(1)] m by linarith
  then have fits: "buf_off r + m + length bs \<le> length (headers r)"
    using assms(1) m(1) unfolding waiting_def by (auto split: if_splits)
  then show ?thesis
    by (cases "bs = []")
      (auto simp: store_read_def Let_def uint_add_ctr take_write_at_end [OF fits] m
        simp del: of_nat_add)
qed

text \<open>Parsing the length: nothing announced leaves the request as it is; a positive
  length makes room for the announced bytes behind the number.\<close>

lemma to_i32_bounds: "in_i32 (to_i32 x)"
  by simp

lemma uint_announced:
  assumes "0 < len" and "in_i32 len" and "k \<le> 9"
  shows "unat (of_int len + of_nat k :: u64) = nat len + k"
proof -
  have "uint (of_int (len + int k) :: u64) = len + int k"
    using assms by (intro uint_of_int_u64) (auto simp: in_i32_def)
  then have "nat (uint (of_int (len + int k) :: u64)) = nat len + k" using assms(1) by simp
  then show ?thesis by simp
qed

lemma uint_sub_ctr: "k \<le> unat c \<Longrightarrow> uint (c - of_nat k :: u16) = uint c - int k"
proof -
  assume k: "k \<le> unat c"
  have c: "uint c = int (unat c)" "unat c < 65536" using unsigned_less [of c] by simp_all
  have "uint (of_nat k :: u16) = int k" using k c(2) by (simp add: unsigned_of_nat take_bit_nat_eq_self)
  moreover have "int k \<le> uint c" using k c(1) by linarith
  ultimately show ?thesis by (simp add: uint_sub_if')
qed

lemma parse_length_ok:
  assumes "mok 0 (sizeof_zone + MSGPACK_ZONE_CHUNK_SIZE)" "mok 1 (sizeof_chunk + MSGPACK_ZONE_CHUNK_SIZE)"
      and "9 \<le> length (headers r)" and "buf_len r = 0" and "buf_off r = 0" and "uint (ctr r) \<le> 9"
      and "\<And>res k u. msgpack_unpack_next mok msgpack_unpacked_init (take (unat (ctr r)) (headers r)) 0
             = Inr (True, res, k) \<Longrightarrow> unpacked_data res = POSITIVE_INTEGER u \<Longrightarrow> 0 < to_i32 (uint u)"
  shows "\<exists>ok r2. parse_length mok alloc r = Inr (ok, r2) \<and>
     (ok \<longrightarrow> 9 \<le> length (headers r2) \<and> in_i32 (buf_len r2) \<and>
        (r2 = r \<or> 0 < buf_len r2 \<and> buf_off r2 + nat (buf_len r2) \<le> length (headers r2)))"
proof -
  let ?data = "take (unat (ctr r)) (headers r)"
  obtain m where m: "uint (ctr r) = int m" "unat (ctr r) = m" using ctr_nat by blast
  have m9: "m \<le> 9" using assms(6) m(1) by simp
  have data: "bytes_at (headers r) (buf_off r) (unat (ctr r)) = Inr ?data"
    using assms(3,5) m9 m(2) by (simp add: bytes_at_def)
  obtain b res k where u: "msgpack_unpack_next mok msgpack_unpacked_init ?data 0 = Inr (b, res, k)"
    "if b then 0 < k \<and> k \<le> length ?data else k = 0"
    using unpack_next_total [OF assms(1,2), of msgpack_unpacked_init ?data 0] by blast
  show ?thesis
  proof (cases "b \<and> (\<exists>u. unpacked_data res = POSITIVE_INTEGER u)")
    case False
    then have "parse_length mok alloc r = Inr (True, r)"
      using data u(1) by (auto simp: parse_length_def split: bool.splits msgpack_object.splits)
    then show ?thesis using assms(3,4) by (auto simp: in_i32_def)
  next
    case True
    then obtain v where v: "unpacked_data res = POSITIVE_INTEGER v" by blast
    let ?len = "to_i32 (uint v)"
    have pos: "0 < ?len" using assms(7) [of res k v] u(1) v True by simp
    have "k \<le> 9" using u(2) True m9 m(2) by simp
    then have total: "unat (of_int ?len + of_nat k :: u64) = nat ?len + k"
      using uint_announced [OF pos to_i32_bounds] by blast
    then have big: "9 < (of_int ?len + of_nat k :: u64) \<longleftrightarrow> 9 < nat ?len + k"
      by (simp add: word_less_nat_alt)
    then show ?thesis
      using data u(1) v True pos total assms(3)
      by (auto simp: parse_length_def Let_def)
  qed
qed

text \<open>A read of a waiting request never leaves the vector, as long as the number the
  client sent is positive as an \<^verbatim>\<open>int32_t\<close>; and an incomplete request waits again.\<close>

lemma read_headers_waiting:
  assumes "mok 0 (sizeof_zone + MSGPACK_ZONE_CHUNK_SIZE)" "mok 1 (sizeof_chunk + MSGPACK_ZONE_CHUNK_SIZE)"
      and "waiting r" and "read_law rs"
      and "\<And>bs res k u. buf_len r = 0 \<Longrightarrow> rs (read_size r) = Some bs \<Longrightarrow>
             msgpack_unpack_next mok msgpack_unpacked_init (take (unat (ctr r)) (headers r) @ bs) 0
               = Inr (True, res, k) \<Longrightarrow> unpacked_data res = POSITIVE_INTEGER u \<Longrightarrow> 0 < to_i32 (uint u)"
  shows "\<exists>out r'. read_headers mok alloc sz rs r = Inr (out, r') \<and>
           (out = Incomplete \<longrightarrow> waiting r')"
proof (cases "rs (read_size r)")
  case None
  then show ?thesis by (simp add: read_headers_def)
next
  case (Some bs)
  have len: "length bs \<le> read_size r" using assms(4) Some by (simp add: read_law_def)
  obtain r1 where r1: "store_read r bs = Inr r1" "length (headers r1) = length (headers r)"
     "buf_len r1 = buf_len r" "buf_off r1 = buf_off r"
     "uint (ctr r1) = (uint (ctr r) + int (length bs)) mod 65536"
     "take (buf_off r + unat (ctr r) + length bs) (headers r1) =
       take (buf_off r + unat (ctr r)) (headers r) @ bs"
    using store_read_ok [OF assms(3) len] by blast
  have size: "int (length bs) \<le> (if buf_len r = 0 then 9 else buf_len r) - uint (ctr r)"
    using len read_size_waiting [OF assms(3)] by linarith
  have nn: "0 \<le> uint (ctr r)" by simp
  show ?thesis
  proof (cases "buf_len r = 0")
    case False
    then have w: "0 < buf_len r" "buf_off r + nat (buf_len r) \<le> length (headers r)" "in_i32 (buf_len r)"
      "9 \<le> length (headers r)"
      using assms(3) by (auto simp: waiting_def)
    then show ?thesis
      using Some r1 by (auto simp: read_headers_def waiting_def)
  next
    case True
    then have w: "buf_off r = 0" "9 \<le> length (headers r)" using assms(3) by (auto simp: waiting_def)
    have c1: "uint (ctr r1) = uint (ctr r) + int (length bs)" "uint (ctr r1) \<le> 9"
      using r1(5) size nn True by auto
    then have n1: "unat (ctr r1) = unat (ctr r) + length bs" by (metis int_plus nat_int unat_eq_nat_uint uint_nat)
    have prefix: "take (unat (ctr r1)) (headers r1) = take (unat (ctr r)) (headers r) @ bs"
      using r1(6) w(1) n1 by simp
    have "\<exists>ok r2. parse_length mok alloc r1 = Inr (ok, r2) \<and>
       (ok \<longrightarrow> 9 \<le> length (headers r2) \<and> in_i32 (buf_len r2) \<and>
          (r2 = r1 \<or> 0 < buf_len r2 \<and> buf_off r2 + nat (buf_len r2) \<le> length (headers r2)))"
      using assms(1,2) r1(2,3,4) True w c1(2) prefix assms(5) [OF True Some]
      by (intro parse_length_ok) auto
    then obtain ok r2 where r2: "parse_length mok alloc r1 = Inr (ok, r2)"
      "ok \<longrightarrow> 9 \<le> length (headers r2) \<and> in_i32 (buf_len r2) \<and>
          (r2 = r1 \<or> 0 < buf_len r2 \<and> buf_off r2 + nat (buf_len r2) \<le> length (headers r2))" by blast
    have same: "waiting r1" using w r1(2,3,4) True c1(2) by (simp add: waiting_def in_i32_def)
    show ?thesis
      using Some r1(1,3) True r2 same by (auto simp: read_headers_def waiting_def)
  qed
qed

section \<open>A framed request\<close>

text \<open>The decoder on a prefix of a stream that starts with an encoded number.\<close>

lemma decode_number:
  "\<exists>res. msgpack_unpack_next all_ok msgpack_unpacked_init (msgpack_pack_uint64 d @ rest) 0
     = Inr (True, res, length (msgpack_pack_uint64 d)) \<and> unpacked_data res = POSITIVE_INTEGER d"
proof -
  let ?h = "msgpack_pack_uint64 d"
  have ne: "?h \<noteq> []" by (simp add: msgpack_pack_uint64_def)
  have "\<exists>s1. unpack_step all_ok (?h @ rest) s = push_value s1 (POSITIVE_INTEGER d) \<and>
      moved s s1 (length ?h - 1)" if "u_cs s = CS_HEADER" "u_p s = 0" for s
    using step_uint64 [OF that(1)] at_start [of ?h rest] that(2) by simp
  from decode_scalar [OF this] ne show ?thesis by (cases ?h) auto
qed

lemma decode_short:
  assumes "c < length (msgpack_pack_uint64 d)"
  shows "\<exists>res k. msgpack_unpack_next all_ok msgpack_unpacked_init
           (take c (msgpack_pack_uint64 d @ rest)) 0 = Inr (False, res, k)"
proof -
  let ?h = "msgpack_pack_uint64 d"
  obtain b res k where b: "msgpack_unpack_next all_ok msgpack_unpacked_init (take c (?h @ rest)) 0
      = Inr (b, res, k)" using mp.decode_total by blast
  have "\<not> b"
  proof
    assume "b"
    then have t: "msgpack_unpack_next all_ok msgpack_unpacked_init (take c (?h @ rest)) 0
      = Inr (True, res, k)" using b by simp
    have "k \<le> c" using mp.decode_bound [OF t] assms by simp
    moreover have "msgpack_unpack_next all_ok msgpack_unpacked_init
        (take (length (?h @ rest)) (?h @ rest)) 0 = Inr (True, res, k)"
      using mp.decode_take_mono [OF t, of "length (?h @ rest)"] assms by simp
    then have "k = length ?h" using decode_number [of d rest] by auto
    ultimately show False using assms by simp
  qed
  then show ?thesis using b by simp
qed

text \<open>A run: the socket becomes readable again and again, each time with \<open>j\<close> bytes of
  the stream \<open>xs\<close> available, until the request is complete or a read throws.\<close>

fun deliver :: "(nat \<Rightarrow> bool) \<Rightarrow> u32 \<Rightarrow> nat list \<Rightarrow> byte list \<Rightarrow> request \<Rightarrow> (read_out \<times> request) res" where
  "deliver alloc sz [] xs r = Inr (Incomplete, r)"
| "deliver alloc sz (j # js) xs r =
     bind_res (read_headers all_ok alloc sz (\<lambda>k. Some (take (min k j) xs)) r) (\<lambda>(out, r').
       if out = Incomplete then deliver alloc sz js (drop (min (read_size r) j) xs) r'
       else Inr (out, r'))"

text \<open>The two phases of reading a frame of number \<open>d\<close> and payload \<open>body\<close>, with \<open>c\<close> bytes of
  the stream read.\<close>

definition phase_number :: "u64 \<Rightarrow> byte list \<Rightarrow> nat \<Rightarrow> request \<Rightarrow> bool" where
  "phase_number d stream c r \<longleftrightarrow> buf_len r = 0 \<and> buf_off r = 0 \<and> 9 \<le> length (headers r) \<and>
     unat (ctr r) = c \<and> c < length (msgpack_pack_uint64 d) \<and> take c (headers r) = take c stream"

definition phase_body :: "u64 \<Rightarrow> byte list \<Rightarrow> nat \<Rightarrow> request \<Rightarrow> bool" where
  "phase_body d stream c r \<longleftrightarrow>
     (let k = length (msgpack_pack_uint64 d) in
      buf_len r = uint d \<and> buf_off r = k \<and> k + unat d \<le> length (headers r) \<and> k \<le> c \<and>
      unat (ctr r) = c - k \<and> take (c - k) (drop k (headers r)) = take (c - k) (drop k stream))"

lemma length_pack_uint64: "length (msgpack_pack_uint64 d) \<le> 9" "msgpack_pack_uint64 d \<noteq> []"
  by (simp_all add: msgpack_pack_uint64_def)

text \<open>Arithmetic of one read, with the counter as a number.\<close>

lemma store_read_nat:
  assumes "buf_off r + unat (ctr r) + length bs \<le> length (headers r)"
      and "unat (ctr r) + length bs < 65536"
  shows "\<exists>r1. store_read r bs = Inr r1 \<and> length (headers r1) = length (headers r) \<and>
     buf_len r1 = buf_len r \<and> buf_off r1 = buf_off r \<and> lua_request r1 = lua_request r \<and>
     unat (ctr r1) = unat (ctr r) + length bs \<and>
     take (buf_off r + unat (ctr r) + length bs) (headers r1) =
       take (buf_off r + unat (ctr r)) (headers r) @ bs"
proof -
  have "unat (of_nat (length bs) :: u16) = length bs" using assms(2) by (simp add: unat_of_nat)
  then have "unat (ctr r + of_nat (length bs)) = unat (ctr r) + length bs"
    using assms(2) by (simp add: unat_word_ariths)
  then show ?thesis
    using take_write_at_end [OF assms(1)] assms(1)
    by (cases "bs = []") (auto simp: store_read_def Let_def)
qed

lemma read_size_nat:
  "buf_len r = 0 \<Longrightarrow> unat (ctr r) \<le> 9 \<Longrightarrow> read_size r = 9 - unat (ctr r)"
  "buf_len r = int m \<Longrightarrow> 0 < m \<Longrightarrow> m < 2 ^ 31 \<Longrightarrow> unat (ctr r) \<le> m \<Longrightarrow> read_size r = m - unat (ctr r)"
proof -
  obtain c where c: "uint (ctr r) = int c" "unat (ctr r) = c" using ctr_nat by blast
  have of: "unat (of_int (int a - int c) :: u64) = a - c" if "c \<le> a" "a < 2 ^ 64" for a
  proof -
    have "uint (of_int (int a - int c) :: u64) = int a - int c"
      using that by (intro uint_of_int_u64) auto
    then have "nat (uint (of_int (int a - int c) :: u64)) = a - c" using that by simp
    then show ?thesis by simp
  qed
  { assume "buf_len r = 0" and "unat (ctr r) \<le> 9"
    then show "read_size r = 9 - unat (ctr r)"
      using of [of 9] c unfolding read_size_def Let_def by simp }
  { assume "buf_len r = int m" and "0 < m" and "m < 2 ^ 31" and "unat (ctr r) \<le> m"
    then show "read_size r = m - unat (ctr r)"
      using of [of m] c unfolding read_size_def Let_def by simp }
qed

text \<open>Parsing a prefix of the stream: too short, or the number found.\<close>

lemma parse_number_short:
  assumes "buf_off r = 0" and "unat (ctr r) = c" and "c < length (msgpack_pack_uint64 d)"
      and "c \<le> length (headers r)"
      and "take c (headers r) = take c (msgpack_pack_uint64 d @ rest)"
  shows "parse_length all_ok alloc r = Inr (True, r)"
  using decode_short [OF assms(3), of rest] assms
  by (auto simp: parse_length_def bytes_at_def split: bool.splits)

lemma parse_number_found:
  assumes "buf_off r = 0" and "unat (ctr r) = c" and "length (msgpack_pack_uint64 d) \<le> c"
      and "c \<le> 9" and "9 \<le> length (headers r)"
      and "take c (headers r) = take c (msgpack_pack_uint64 d @ rest)"
      and "0 < unat d" and "unat d < 2 ^ 31" and "alloc (unat d + length (msgpack_pack_uint64 d))"
  shows "\<exists>r2. parse_length all_ok alloc r = Inr (True, r2) \<and> buf_len r2 = uint d \<and>
     buf_off r2 = length (msgpack_pack_uint64 d) \<and>
     length (msgpack_pack_uint64 d) + unat d \<le> length (headers r2) \<and>
     unat (ctr r2) = c - length (msgpack_pack_uint64 d) \<and> take c (headers r2) = take c (headers r)"
proof -
  let ?k = "length (msgpack_pack_uint64 d)"
  have data: "bytes_at (headers r) 0 c = Inr (msgpack_pack_uint64 d @ take (c - ?k) rest)"
    using assms by (simp add: bytes_at_def)
  obtain res where res: "msgpack_unpack_next all_ok msgpack_unpacked_init
      (msgpack_pack_uint64 d @ take (c - ?k) rest) 0 = Inr (True, res, ?k)"
    "unpacked_data res = POSITIVE_INTEGER d" using decode_number by blast
  have du: "uint d = int (unat d)" by simp
  have "int (unat d) < int (2 ^ 31)" using assms(8) by (simp only: of_nat_less_iff)
  then have lt: "uint d < 2 ^ 31" by simp
  have "- (2 ^ 31) \<le> uint d" by (rule order_trans [of _ 0]) simp_all
  then have i32: "in_i32 (uint d)" using lt by (simp add: in_i32_def)
  note len = to_i32_id [OF i32]
  have pos: "0 < uint d" using assms(7) du by linarith
  have total: "unat (of_int (uint d) + of_nat ?k :: u64) = unat d + ?k"
    using uint_announced [OF pos i32 length_pack_uint64(1) [of d]] by simp
  have sub: "unat (ctr r - of_nat ?k) = c - ?k"
  proof -
    have "uint (ctr r - of_nat ?k) = uint (ctr r) - int ?k" using assms(2,3) by (intro uint_sub_ctr) simp
    then have "int (unat (ctr r - of_nat ?k)) = int (unat (ctr r)) - int ?k" by simp
    then show ?thesis using assms(2,3) by linarith
  qed
  show ?thesis
  proof (cases "9 < unat d + ?k")
    case True
    then have "9 < (of_int (uint d) + of_nat ?k :: u64)" using total by (simp add: word_less_nat_alt)
    then show ?thesis
      using data res len total sub True assms
      by (simp add: parse_length_def Let_def take_resize)
  next
    case False
    then have "\<not> 9 < (of_int (uint d) + of_nat ?k :: u64)" using total by (simp add: word_less_nat_alt)
    then show ?thesis
      using data res len sub False assms by (simp add: parse_length_def Let_def)
  qed
qed

text \<open>One read in each phase.  \<open>done_frame\<close>: the buffer shows the payload.\<close>

definition done_frame :: "u64 \<Rightarrow> byte list \<Rightarrow> request \<Rightarrow> bool" where
  "done_frame d stream r \<longleftrightarrow>
     (let k = length (msgpack_pack_uint64 d) in
      buf_len r = uint d \<and> buf_off r = k \<and>
      take (unat d) (drop k (headers r)) = take (unat d) (drop k stream))"

lemma take_drop_mono:
  assumes "take a xs = take a ys" and "k + b \<le> a"
  shows "take b (drop k xs) = take b (drop k ys)"
proof -
  have "take b (drop k xs) = take b (drop k (take a xs))" using assms(2) by (simp add: drop_take min_def)
  also have "\<dots> = take b (drop k ys)" using assms by (simp add: drop_take min_def)
  finally show ?thesis .
qed

lemma chunk_take:
  "take c stream @ take m (drop c stream) = take (c + length (take m (drop c stream))) stream"
  by (metis (no_types, lifting) append_take_drop_id length_take min.commute min_def take_add take_all_iff
      linorder_le_cases)

lemma chunk_drop: "drop m (drop c xs) = drop (c + length (take m (drop c xs))) xs"
proof (cases "m \<le> length xs - c")
  case True
  then show ?thesis by (simp add: min_def add.commute)
next
  case False
  then show ?thesis by simp
qed

lemma read_number_phase:
  assumes "stream = msgpack_pack_uint64 d @ rest" and "phase_number d stream c r"
      and "0 < j" and "length (msgpack_pack_uint64 d) + unat d \<le> length stream"
      and "0 < unat d" and "unat d < 2 ^ 31"
      and "alloc (unat d + length (msgpack_pack_uint64 d))"
  shows "\<exists>c' out r'. c < c' \<and>
     read_headers all_ok alloc sz (\<lambda>k. Some (take (min k j) (drop c stream))) r = Inr (out, r') \<and>
     drop (min (read_size r) j) (drop c stream) = drop c' stream \<and>
     (out = Incomplete \<and> (phase_number d stream c' r' \<or>
        phase_body d stream c' r' \<and> c' < length (msgpack_pack_uint64 d) + unat d) \<or>
      out = Complete \<and> done_frame d stream r')"
proof -
  let ?k = "length (msgpack_pack_uint64 d)"
  have ph: "buf_len r = 0" "buf_off r = 0" "9 \<le> length (headers r)" "unat (ctr r) = c" "c < ?k"
    "take c (headers r) = take c stream" using assms(2) by (auto simp: phase_number_def)
  have k9: "?k \<le> 9" by (rule length_pack_uint64(1))
  have size: "read_size r = 9 - c" using read_size_nat(1) [OF ph(1)] ph(4,5) k9 by simp
  define bs where "bs = take (min (9 - c) j) (drop c stream)"
  define c' where "c' = c + length bs"
  have "bs \<noteq> []" using assms(3,4) ph(5) k9 by (simp add: bs_def)
  then have cc: "c < c'" by (simp add: c'_def)
  have c9: "c' \<le> 9" using ph(5) k9 by (simp add: c'_def bs_def)
  obtain r1 where r1: "store_read r bs = Inr r1" "length (headers r1) = length (headers r)"
      "buf_len r1 = 0" "buf_off r1 = 0" "unat (ctr r1) = c'"
      "take c' (headers r1) = take c (headers r) @ bs"
    using store_read_nat [of r bs] ph c9 by (auto simp: c'_def)
  have pre: "take c' (headers r1) = take c' stream"
    using r1(6) ph(6) chunk_take [of c stream "min (9 - c) j"] by (simp add: c'_def bs_def)
  have one: "1 \<le> ctr r1" using r1(5) cc by (simp add: word_le_nat_alt)
  have dr: "drop (min (read_size r) j) (drop c stream) = drop c' stream"
    using chunk_drop [of "min (9 - c) j" c stream] by (simp only: size c'_def bs_def)
  show ?thesis
  proof (cases "c' < ?k")
    case True
    have "parse_length all_ok alloc r1 = Inr (True, r1)"
      using parse_number_short [OF r1(4,5) True] pre r1(2) ph(3) c9 assms(1) by simp
    then have "read_headers all_ok alloc sz (\<lambda>k. Some (take (min k j) (drop c stream))) r = Inr (Incomplete, r1)"
      using r1(1,3) one by (simp add: read_headers_def size flip: bs_def)
    moreover have "phase_number d stream c' r1"
      using r1 ph(3) True pre by (simp add: phase_number_def)
    ultimately show ?thesis using cc dr by blast
  next
    case False
    obtain r2 where r2: "parse_length all_ok alloc r1 = Inr (True, r2)" "buf_len r2 = uint d"
        "buf_off r2 = ?k" "?k + unat d \<le> length (headers r2)" "unat (ctr r2) = c' - ?k"
        "take c' (headers r2) = take c' (headers r1)"
      using parse_number_found [where alloc = alloc and rest = rest,
          OF r1(4,5) _ c9 _ _ assms(5,6,7)] pre r1(2) ph(3)
        assms(1) False by auto
    have pre2: "take c' (headers r2) = take c' stream" using r2(6) pre by simp
    have u: "uint (ctr r2) = int (c' - ?k)" "uint d = int (unat d)" using r2(5) by (simp_all flip: r2(5))
    have pos: "0 < buf_len r2" using r2(2) u(2) assms(5) by linarith
    have rh: "read_headers all_ok alloc sz (\<lambda>k. Some (take (min k j) (drop c stream))) r =
        Inr (if unat d \<le> c' - ?k then (Complete, prepare_lua alloc sz r2) else (Incomplete, r2))"
    proof -
      have "buf_len r2 \<le> uint (ctr r2) \<longleftrightarrow> unat d \<le> c' - ?k" using r2(2) u by linarith
      then show ?thesis
        using r1(1,3) one r2(1) pos by (simp add: read_headers_def size flip: bs_def)
    qed
    show ?thesis
    proof (cases "unat d \<le> c' - ?k")
      case True
      then have "done_frame d stream (prepare_lua alloc sz r2)"
        using r2(2,3) take_drop_mono [OF pre2, of ?k "unat d"] False
        by (simp add: done_frame_def prepare_lua_def)
      then show ?thesis using rh True cc dr by (intro exI [of _ c']) auto
    next
      case nd: False
      have "phase_body d stream c' r2"
        using r2(2-5) take_drop_mono [OF pre2, of ?k "c' - ?k"] False
        by (simp add: phase_body_def)
      then show ?thesis using rh nd cc dr by (intro exI [of _ c']) auto
    qed
  qed
qed

lemma read_body_phase:
  assumes "phase_body d stream c r" and "c < length (msgpack_pack_uint64 d) + unat d" and "0 < j"
      and "length (msgpack_pack_uint64 d) + unat d \<le> length stream" and "unat d < 65536"
  shows "\<exists>c' out r'. c < c' \<and>
     read_headers all_ok alloc sz (\<lambda>k. Some (take (min k j) (drop c stream))) r = Inr (out, r') \<and>
     drop (min (read_size r) j) (drop c stream) = drop c' stream \<and>
     (out = Incomplete \<and> phase_body d stream c' r' \<and> c' < length (msgpack_pack_uint64 d) + unat d \<or>
      out = Complete \<and> done_frame d stream r')"
proof -
  let ?k = "length (msgpack_pack_uint64 d)"
  have ph: "buf_len r = uint d" "buf_off r = ?k" "?k + unat d \<le> length (headers r)" "?k \<le> c"
    "unat (ctr r) = c - ?k" "take (c - ?k) (drop ?k (headers r)) = take (c - ?k) (drop ?k stream)"
    using assms(1) by (auto simp: phase_body_def Let_def)
  have len: "buf_len r = int (unat d)" using ph(1) by simp
  have size: "read_size r = unat d - (c - ?k)"
    using read_size_nat(2) [OF len] assms(2,5) ph(4,5) by simp
  define bs where "bs = take (min (unat d - (c - ?k)) j) (drop c stream)"
  define c' where "c' = c + length bs"
  have "bs \<noteq> []" using assms(2,3,4) ph(4) by (simp add: bs_def)
  then have cc: "c < c'" by (simp add: c'_def)
  have le: "c' \<le> ?k + unat d" using assms(2) ph(4) by (simp add: c'_def bs_def)
  obtain r1 where r1: "store_read r bs = Inr r1" "length (headers r1) = length (headers r)"
      "buf_len r1 = uint d" "buf_off r1 = ?k" "unat (ctr r1) = c' - ?k"
      "take c' (headers r1) = take c (headers r) @ bs"
  proof -
    have "unat (ctr r) + length bs < 65536" using ph(4,5) le assms(5) by (simp add: c'_def)
    then show ?thesis using that store_read_nat [of r bs] ph(1-5) le by (auto simp: c'_def)
  qed
  have ne: "buf_len r1 \<noteq> 0"
  proof -
    have "0 < unat d" using assms(2) ph(4) by simp
    moreover have "uint d = int (unat d)" by simp
    ultimately show ?thesis using r1(3) by linarith
  qed
  have content: "take (c' - ?k) (drop ?k (headers r1)) = take (c' - ?k) (drop ?k stream)"
  proof -
    have "take (c' - ?k) (drop ?k (headers r1)) = drop ?k (take c' (headers r1))"
      using cc ph(4) by (simp add: drop_take)
    also have "\<dots> = take (c - ?k) (drop ?k (headers r)) @ bs"
      using r1(6) ph(3,4) assms(2) by (simp add: drop_take)
    also have "\<dots> = take (c - ?k) (drop ?k stream) @ take (min (unat d - (c - ?k)) j) (drop (c - ?k) (drop ?k stream))"
      using ph(4,6) by (simp add: bs_def)
    also have "\<dots> = take (c' - ?k) (drop ?k stream)"
      unfolding chunk_take using ph(4) by (simp add: c'_def bs_def)
    finally show ?thesis .
  qed
  have dr: "drop (min (read_size r) j) (drop c stream) = drop c' stream"
    using chunk_drop [of "min (unat d - (c - ?k)) j" c stream] by (simp only: size c'_def bs_def)
  have u: "uint (ctr r1) = int (c' - ?k)" "uint d = int (unat d)" by (simp_all flip: r1(5))
  have rh: "read_headers all_ok alloc sz (\<lambda>k. Some (take (min k j) (drop c stream))) r =
      Inr (if unat d \<le> c' - ?k then (Complete, prepare_lua alloc sz r1) else (Incomplete, r1))"
  proof -
    have "buf_len r1 \<le> uint (ctr r1) \<longleftrightarrow> unat d \<le> c' - ?k" using r1(3) u by linarith
    moreover have "0 < buf_len r1" using r1(3) u(2) ne by linarith
    ultimately show ?thesis using r1(1) ne by (simp add: read_headers_def size flip: bs_def)
  qed
  show ?thesis
  proof (cases "unat d \<le> c' - ?k")
    case True
    then have "c' - ?k = unat d" using le by simp
    then have "done_frame d stream (prepare_lua alloc sz r1)"
      using r1(3,4) content by (simp add: done_frame_def prepare_lua_def)
    then show ?thesis using rh True cc dr by (intro exI [of _ c']) auto
  next
    case False
    have "phase_body d stream c' r1"
      using r1(2-5) content ph(3,4) cc by (simp add: phase_body_def)
    then show ?thesis using rh False cc dr by (intro exI [of _ c']) auto
  qed
qed

lemma deliver_frame:
  assumes "stream = msgpack_pack_uint64 d @ rest" and "unat d \<le> length rest"
      and "0 < unat d" and "unat d < 65536"
      and "alloc (unat d + length (msgpack_pack_uint64 d))"
      and "\<forall>j \<in> set js. 0 < j"
      and "phase_number d stream c r \<or>
           phase_body d stream c r \<and> c < length (msgpack_pack_uint64 d) + unat d"
      and "length (msgpack_pack_uint64 d) + unat d - c \<le> length js"
  shows "\<exists>r'. deliver alloc sz js (drop c stream) r = Inr (Complete, r') \<and> done_frame d stream r'"
  using assms(6-)
proof (induction js arbitrary: c r)
  case Nil
  then show ?case using assms(3) by (auto simp: phase_number_def)
next
  case (Cons j js)
  have j: "0 < j" using Cons.prems(1) by simp
  have d31: "unat d < 2 ^ 31" using assms(4) by simp
  have len: "length (msgpack_pack_uint64 d) + unat d \<le> length stream" using assms(1,2) by simp
  obtain c' out r' where st: "c < c'"
    "read_headers all_ok alloc sz (\<lambda>k. Some (take (min k j) (drop c stream))) r = Inr (out, r')"
    "drop (min (read_size r) j) (drop c stream) = drop c' stream"
    "out = Incomplete \<and> (phase_number d stream c' r' \<or>
        phase_body d stream c' r' \<and> c' < length (msgpack_pack_uint64 d) + unat d) \<or>
      out = Complete \<and> done_frame d stream r'"
    using Cons.prems(2) read_number_phase [where alloc = alloc and sz = sz,
        OF assms(1) _ j len assms(3) d31 assms(5)]
      read_body_phase [where alloc = alloc and sz = sz, OF _ _ j len assms(4)] by meson
  show ?case
  proof (cases "out = Incomplete")
    case True
    then have "\<exists>r''. deliver alloc sz js (drop c' stream) r' = Inr (Complete, r'') \<and> done_frame d stream r''"
      using Cons.IH [of c' r'] Cons.prems(1,3) st(1,4) by auto
    then show ?thesis using st(2,3) True by simp
  next
    case False
    then show ?thesis using st by auto
  qed
qed

lemma long_read:
  assumes "65535 < buf_len r" and "read_headers mok alloc sz rs r = Inr (out, r')"
  shows "out \<noteq> Complete \<and> buf_len r' = buf_len r"
proof (cases "rs (read_size r)")
  case None
  then show ?thesis using assms by (simp add: read_headers_def)
next
  case (Some bs)
  have "uint c < 65536" for c :: u16 using uint_bounded [of c] by simp
  then have "\<not> buf_len r \<le> uint c" for c :: u16 using assms(1) by (smt (verit))
  then show ?thesis
    using assms Some
    by (auto simp: read_headers_def store_read_def Let_def split: if_splits elim!: bind_res_Inr_E)
qed

text \<open>A number that is not positive as an \<^verbatim>\<open>int32_t\<close> moves the buffer behind the
  number without making room for what is read next.\<close>

lemma unat_announced_small:
  assumes "len \<le> 0" and "0 \<le> len + int k" and "k \<le> 9"
  shows "\<not> 9 < (of_int len + of_nat k :: u64)"
proof -
  have "uint (of_int (len + int k) :: u64) = len + int k" using assms by (intro uint_of_int_u64) auto
  then have "uint (of_int len + of_nat k :: u64) = len + int k" by simp
  then show ?thesis using assms by (simp add: word_less_def)
qed

lemma read_bad_number:
  assumes "to_i32 (uint d) \<le> 0" and "0 \<le> to_i32 (uint d) + int (length (msgpack_pack_uint64 d))"
  shows "\<exists>r1. read_headers all_ok alloc sz (\<lambda>k. Some (take k (msgpack_pack_uint64 d))) new_Request =
             Inr (Incomplete, r1) \<and>
           length (headers r1) = 9 \<and> buf_off r1 = length (msgpack_pack_uint64 d) \<and> ctr r1 = 0 \<and>
           buf_len r1 = to_i32 (uint d)"
proof -
  let ?h = "msgpack_pack_uint64 d"
  let ?k = "length ?h"
  have k: "?k \<le> 9" "?h \<noteq> []" by (rule length_pack_uint64)+
  have new: "read_size new_Request = 9" "buf_len new_Request = 0" "buf_off new_Request = 0"
    "ctr new_Request = 0" "length (headers new_Request) = 9"
    by (simp_all add: new_Request_def request_reset_def read_size_def)
  obtain r1 where r1: "store_read new_Request ?h = Inr r1" "length (headers r1) = 9"
      "buf_len r1 = 0" "buf_off r1 = 0" "unat (ctr r1) = ?k" "take ?k (headers r1) = ?h"
    using store_read_nat [of new_Request ?h] new k(1) by auto
  have ctr: "ctr r1 = of_nat ?k" by (simp flip: r1(5))
  obtain res where "msgpack_unpack_next all_ok msgpack_unpacked_init ?h 0 = Inr (True, res, ?k)"
    "unpacked_data res = POSITIVE_INTEGER d" using decode_number [of d "[]"] by auto
  then have "parse_length all_ok alloc r1 =
      Inr (True, r1\<lparr>buf_len := to_i32 (uint d), buf_off := ?k, ctr := 0\<rparr>)"
    using r1 k(1) unat_announced_small [OF assms k(1)] ctr
    by (simp add: parse_length_def bytes_at_def Let_def)
  moreover have "1 \<le> ctr r1" using r1(5) k(2) by (cases ?h) (simp_all add: word_le_nat_alt)
  ultimately show ?thesis
    using new(1) k(1) r1(1-3) assms(1) by (simp add: read_headers_def)
qed

lemma deliver_framed:
  assumes "0 < length body" and "length body \<le> 65535"
      and "d = of_nat (length body)"
      and "waiting r" and "buf_len r = 0" and "ctr r = 0"
      and "\<forall>j \<in> set js. 0 < j"
      and "length (msgpack_pack_uint64 d) + length body \<le> length js"
      and "\<forall>k. alloc k"
  shows "\<exists>r'. deliver alloc sz js (msgpack_pack_uint64 d @ body @ rest) r = Inr (Complete, r') \<and>
           buf_len r' = int (length body) \<and>
           take (nat (buf_len r')) (drop (buf_off r') (headers r')) = body"
proof -
  let ?stream = "msgpack_pack_uint64 d @ body @ rest"
  have d: "unat d = length body" using assms(2,3) by (simp add: unat_of_nat)
  have ne: "msgpack_pack_uint64 d \<noteq> []" by (rule length_pack_uint64(2))
  have "phase_number d ?stream 0 r"
    using assms(4-6) ne by (auto simp: phase_number_def waiting_def)
  then obtain r' where r': "deliver alloc sz js ?stream r = Inr (Complete, r')" "done_frame d ?stream r'"
    using deliver_frame [of ?stream d "body @ rest" alloc js 0 r sz] assms d by auto
  have "uint d = int (length body)" using d by (simp flip: d)
  then show ?thesis using r' d by (auto simp: done_frame_def Let_def)
qed

section \<open>Properties\<close>

text \<open>C18: A request that is framed as the protocol asks is delivered: whatever pieces
  the socket hands out, once the encoded length (at most 65535) and the payload have
  arrived the request is complete, and the header buffer it carries is exactly the
  payload, whatever follows it on the connection.\<close>

theorem framed_request_delivered:
  assumes "0 < length body" and "length body \<le> 65535"
      and "d = of_nat (length body)"
      and "waiting r" and "buf_len r = 0" and "ctr r = 0"
      and "\<forall>j \<in> set js. 0 < j"
      and "length (msgpack_pack_uint64 d) + length body \<le> length js"
      and "\<forall>k. alloc k"
  shows "\<exists>r'. deliver alloc sz js (msgpack_pack_uint64 d @ body @ rest) r = Inr (Complete, r') \<and>
           buf_len r' = int (length body) \<and>
           take (nat (buf_len r')) (drop (buf_off r') (headers r')) = body"
  by (rule deliver_framed [OF assms])

theorem framed_request_delivered_witness:
  "\<exists>r'. deliver (\<lambda>_. True) 1 [1, 2, 1, 1] (msgpack_pack_uint64 3 @ [7, 8, 9] @ [1]) new_Request =
       Inr (Complete, r') \<and>
     buf_len r' = int (length [7, 8, 9 :: byte]) \<and>
     take (nat (buf_len r')) (drop (buf_off r') (headers r')) = [7, 8, 9]"
  by (rule framed_request_delivered [OF _ _ _ waiting_new])
    (simp_all add: new_Request_def request_reset_def msgpack_pack_uint64_def)

text \<open>C19: As long as the number the client announces is positive as an \<^verbatim>\<open>int32_t\<close>, no
  read of a waiting request leaves the header vector, whatever the client sends and
  however the bytes arrive; and a request that is still incomplete waits in a state
  for which the same holds.\<close>

theorem read_headers_safe:
  assumes "mok 0 (sizeof_zone + MSGPACK_ZONE_CHUNK_SIZE)" "mok 1 (sizeof_chunk + MSGPACK_ZONE_CHUNK_SIZE)"
      and "waiting r" and "read_law rs"
      and "\<And>bs res k u. buf_len r = 0 \<Longrightarrow> rs (read_size r) = Some bs \<Longrightarrow>
             msgpack_unpack_next mok msgpack_unpacked_init (take (unat (ctr r)) (headers r) @ bs) 0
               = Inr (True, res, k) \<Longrightarrow> unpacked_data res = POSITIVE_INTEGER u \<Longrightarrow> 0 < to_i32 (uint u)"
  shows "\<exists>out r'. read_headers mok alloc sz rs r = Inr (out, r') \<and>
           (out = Incomplete \<longrightarrow> waiting r')"
  by (rule read_headers_waiting [OF assms])

theorem read_headers_safe_witness:
  "\<exists>out r'. read_headers all_ok (\<lambda>_. True) 1 (\<lambda>k. Some (take k [0x05, 0x61])) new_Request = Inr (out, r') \<and>
     (out = Incomplete \<longrightarrow> waiting r')"
proof (rule read_headers_safe)
  fix bs res k u
  assume bs: "(\<lambda>k. Some (take k [0x05, 0x61])) (read_size new_Request) = Some bs"
    and dec: "msgpack_unpack_next all_ok msgpack_unpacked_init
      (take (unat (ctr new_Request)) (headers new_Request) @ bs) 0 = Inr (True, res, k)"
    and pos: "unpacked_data res = POSITIVE_INTEGER u"
  have "ctr new_Request = 0" and "read_size new_Request = 9"
    by (simp_all add: new_Request_def request_reset_def read_size_def)
  then have "msgpack_unpack_next all_ok msgpack_unpacked_init (msgpack_pack_uint64 5 @ [0x61]) 0
      = Inr (True, res, k)"
    using bs dec by (simp add: msgpack_pack_uint64_def)
  then have "u = 5" using decode_number [of 5 "[0x61]"] pos by auto
  then show "0 < to_i32 (uint u)" by (simp add: to_i32_def)
qed (auto simp: all_ok_def waiting_new read_law_def)

text \<open>C20: A request of more than 65535 bytes is never delivered: the counter of the
  bytes read is 16 bits wide and can not reach the announced length, however much the
  client sends.\<close>

theorem long_request_never_complete:
  assumes "65535 < buf_len r"
  shows "deliver alloc sz js xs r \<noteq> Inr (Complete, r')"
  using assms
proof (induction js arbitrary: xs r)
  case Nil
  then show ?case by simp
next
  case (Cons j js)
  show ?case
  proof
    assume "deliver alloc sz (j # js) xs r = Inr (Complete, r')"
    then obtain out r1 where r1: "read_headers all_ok alloc sz (\<lambda>k. Some (take (min k j) xs)) r = Inr (out, r1)"
      "(if out = Incomplete then deliver alloc sz js (drop (min (read_size r) j) xs) r1
        else Inr (out, r1)) = Inr (Complete, r')"
      by (auto elim!: bind_res_Inr_E)
    have "out \<noteq> Complete" and "65535 < buf_len r1" using long_read [OF Cons.prems r1(1)] Cons.prems by auto
    then show False using r1(2) Cons.IH by (auto split: if_splits)
  qed
qed

theorem long_request_never_complete_witness:
  "\<forall>js xs r'. deliver (\<lambda>_. True) 1 js xs
     \<lparr>headers = replicate 10 0, buf_off = 5, buf_len = 65536, ctr = 65535, lua_request = None\<rparr>
   \<noteq> Inr (Complete, r')"
  by (intro allI long_request_never_complete) simp



end
