(* ===== verification/ReaderWriterQueue.thy ===== *)
theory ReaderWriterQueue
  imports Prelude
begin

unbundle bit_operations_syntax

text \<open>
  \<^verbatim>\<open>src/webapp/include/readerwriterqueue/readerwriterqueue.h\<close>: the queue of queues under
  every request queue.  Blocks are circular buffers that waste one slot; the blocks
  form a circular linked list through \<^verbatim>\<open>next\<close>; elements are taken from \<^verbatim>\<open>frontBlock\<close>
  and stored into \<^verbatim>\<open>tailBlock\<close>.  Blocks live in a store (a list) and a block pointer is
  an index into it; blocks are never removed.  A slot is \<open>None\<close> while it is raw memory.

  The operations are modelled one call at a time (the memory fences between the two
  threads are not part of the model).  \<open>queue_list\<close> is the abstraction to the list of
  queued elements and \<open>rwq_inv\<close> the representation invariant; the locale \<open>fifo\<close> is
  the contract clients rely on, interpreted here on the block implementation.
\<close>

section \<open>ceilToPow2\<close>

definition ceilToPow2 :: "u64 \<Rightarrow> u64" where
  "ceilToPow2 x0 =
     (let x = x0 - 1;
          x = x OR drop_bit 1 x;
          x = x OR drop_bit 2 x;
          x = x OR drop_bit 4 x;
          x = x OR drop_bit 8 x;
          x = x OR drop_bit 16 x;
          x = x OR drop_bit 32 x
      in x + 1)"

section \<open>Blocks and the queue\<close>

record 'a block =
  front :: nat
  tail :: nat
  nxt :: nat
  slots :: "'a option list"
  block_size :: nat

record 'a rwq =
  store :: "'a block list"
  frontBlock :: nat
  tailBlock :: nat
  largestBlockSize :: nat

definition sizeMask :: "'a block \<Rightarrow> nat" where
  "sizeMask b = block_size b - 1"

definition new_Block :: "nat \<Rightarrow> nat \<Rightarrow> 'a block" where
  "new_Block sz next_ptr =
     \<lparr>front = 0, tail = 0, nxt = next_ptr, slots = replicate sz None, block_size = sz\<rparr>"

definition new_ReaderWriterQueue :: "nat \<Rightarrow> 'a rwq" where
  "new_ReaderWriterQueue maxSize =
     (let sz = unat (ceilToPow2 (of_nat (maxSize + 1))) in
      \<lparr>store = [new_Block sz 0], frontBlock = 0, tailBlock = 0, largestBlockSize = sz\<rparr>)"

definition get_block :: "'a rwq \<Rightarrow> nat \<Rightarrow> 'a block" where
  "get_block q i = store q ! i"

definition set_block :: "'a rwq \<Rightarrow> nat \<Rightarrow> 'a block \<Rightarrow> 'a rwq" where
  "set_block q i b = q\<lparr>store := (store q)[i := b]\<rparr>"

text \<open>\<open>inner_enqueue canAlloc x q\<close>: whether the element was stored, and the queue after.\<close>

definition inner_enqueue :: "bool \<Rightarrow> 'a \<Rightarrow> 'a rwq \<Rightarrow> bool \<times> 'a rwq" where
  "inner_enqueue canAlloc x q =
     (let tb = tailBlock q;
          t = get_block q tb;
          blockFront = front t;
          blockTail = tail t;
          nextBlockTail = (blockTail + 1) AND sizeMask t
      in
      if nextBlockTail \<noteq> blockFront then
        (True, set_block q tb (t\<lparr>slots := (slots t)[blockTail := Some x], tail := nextBlockTail\<rparr>))
      else if nxt t \<noteq> frontBlock q then
        (let nb = nxt t;
             n = get_block q nb;
             nextTail = tail n
         in (True, (set_block q nb
                (n\<lparr>slots := (slots n)[nextTail := Some x],
                   tail := (nextTail + 1) AND sizeMask n\<rparr>))\<lparr>tailBlock := nb\<rparr>))
      else if canAlloc then
        (let sz = largestBlockSize q * 2;
             nb = length (store q);
             new = (new_Block sz (nxt t))\<lparr>slots := (replicate sz None)[0 := Some x], tail := 1\<rparr>
         in (True, q\<lparr>store := (store q)[tb := t\<lparr>nxt := nb\<rparr>] @ [new],
                     tailBlock := nb, largestBlockSize := sz\<rparr>))
      else (False, q))"

definition try_enqueue :: "'a \<Rightarrow> 'a rwq \<Rightarrow> bool \<times> 'a rwq" where
  "try_enqueue x q = inner_enqueue False x q"

definition rwq_enqueue :: "'a \<Rightarrow> 'a rwq \<Rightarrow> 'a rwq" where
  "rwq_enqueue x q = snd (inner_enqueue True x q)"

text \<open>Taking the element in the front slot of block \<open>i\<close>: the value is moved out, the
  slot becomes raw memory again and \<^verbatim>\<open>front\<close> advances.\<close>

definition take_front :: "'a rwq \<Rightarrow> nat \<Rightarrow> ('a option \<times> 'a rwq) res" where
  "take_front q i =
     (let b = get_block q i in
      case slots b ! front b of
        None \<Rightarrow> Inl Uninitialized
      | Some x \<Rightarrow>
          Inr (Some x, set_block q i
                 (b\<lparr>slots := (slots b)[front b := None],
                    front := (front b + 1) AND sizeMask b\<rparr>)))"

text \<open>\<^verbatim>\<open>try_dequeue\<close>: \<open>Inr (Some x, q')\<close> when it returns true with \<open>x\<close>,
  \<open>Inr (None, q)\<close> when it returns false.\<close>

definition rwq_try_dequeue :: "'a rwq \<Rightarrow> ('a option \<times> 'a rwq) res" where
  "rwq_try_dequeue q =
     (let tailBlockAtStart = tailBlock q;
          fb = frontBlock q;
          b = get_block q fb
      in
      if front b \<noteq> tail b then take_front q fb
      else if fb \<noteq> tailBlockAtStart then
        (let nb = nxt b in take_front (q\<lparr>frontBlock := nb\<rparr>) nb)
      else Inr (None, q))"

definition rwq_peek :: "'a rwq \<Rightarrow> 'a option res" where
  "rwq_peek q =
     (let tailBlockAtStart = tailBlock q;
          fb = frontBlock q;
          b = get_block q fb
      in
      if front b \<noteq> tail b then
        (case slots b ! front b of None \<Rightarrow> Inl Uninitialized | Some x \<Rightarrow> Inr (Some x))
      else if fb \<noteq> tailBlockAtStart then
        (let n = get_block q (nxt b) in
         case slots n ! front n of None \<Rightarrow> Inl Uninitialized | Some x \<Rightarrow> Inr (Some x))
      else Inr None)"

definition rwq_pop :: "'a rwq \<Rightarrow> (bool \<times> 'a rwq) res" where
  "rwq_pop q =
     (let tailBlockAtStart = tailBlock q;
          fb = frontBlock q;
          b = get_block q fb
      in
      if front b \<noteq> tail b then
        bind_res (take_front q fb) (\<lambda>(_, q'). Inr (True, q'))
      else if fb \<noteq> tailBlockAtStart then
        (let nb = nxt b in
         bind_res (take_front (q\<lparr>frontBlock := nb\<rparr>) nb) (\<lambda>(_, q'). Inr (True, q')))
      else Inr (False, q))"

section \<open>Abstraction\<close>

definition items :: "'a block \<Rightarrow> 'a option list" where
  "items b = map (\<lambda>i. slots b ! ((front b + i) mod block_size b))
               [0 ..< (tail b + block_size b - front b) mod block_size b]"

text \<open>The block pointers met by following \<^verbatim>\<open>next\<close>, up to and including the tail block.\<close>

fun blocks_to_tail :: "'a rwq \<Rightarrow> nat \<Rightarrow> nat \<Rightarrow> nat list" where
  "blocks_to_tail q b 0 = []"
| "blocks_to_tail q b (Suc n) =
     (if b = tailBlock q then [b] else b # blocks_to_tail q (nxt (get_block q b)) n)"

definition queue_list :: "'a rwq \<Rightarrow> 'a list" where
  "queue_list q =
     map the (concat (map (\<lambda>i. items (get_block q i))
                        (blocks_to_tail q (frontBlock q) (length (store q)))))"

section \<open>One block\<close>

definition block_ok :: "'a block \<Rightarrow> bool" where
  "block_ok b \<longleftrightarrow>
     (\<exists>k. block_size b = 2 ^ k) \<and> 2 \<le> block_size b \<and> length (slots b) = block_size b \<and>
     front b < block_size b \<and> tail b < block_size b \<and> None \<notin> set (items b)"

lemma and_mask_mod: "n = 2 ^ k \<Longrightarrow> (x :: nat) AND (n - 1) = x mod n"
  by (metis mask_eq_exp_minus_1 take_bit_eq_mask take_bit_eq_mod)

lemma and_sizeMask: "block_ok b \<Longrightarrow> x AND sizeMask b = x mod block_size b"
  unfolding block_ok_def sizeMask_def by (metis and_mask_mod)

text \<open>Index arithmetic of the circular buffer, by cases on whether an index wraps.\<close>

lemma ring_mod: "x < 2 * n \<Longrightarrow> x mod n = (if x < n then x else x - (n :: nat))"
  by (simp add: le_mod_geq)

lemma ring_index_neq: "f < n \<Longrightarrow> j < n \<Longrightarrow> 0 < j \<Longrightarrow> (f + j) mod n \<noteq> (f :: nat)"
  by (auto simp: ring_mod)

lemma ring_count:
  "f < n \<Longrightarrow> t < n \<Longrightarrow> (t + n - f) mod n = (if f \<le> t then t - f else t + n - (f :: nat))"
  by (simp add: ring_mod)

lemma ring_index_neq_tail:
  "f < n \<Longrightarrow> t < n \<Longrightarrow> i < (t + n - f) mod n \<Longrightarrow> (f + i) mod n \<noteq> (t :: nat)"
  by (auto simp: ring_mod split: if_splits)

lemma ring_index_tail: "f < n \<Longrightarrow> t < n \<Longrightarrow> (f + (t + n - f) mod n) mod n = (t :: nat)"
  by (auto simp: ring_mod)

lemma ring_count_push:
  "f < n \<Longrightarrow> t < n \<Longrightarrow> (t + 1) mod n \<noteq> f \<Longrightarrow>
   ((t + 1) mod n + n - f) mod n = Suc ((t + n - f) mod n)" for n :: nat
  by (auto simp: ring_mod split: if_splits)

lemma ring_count_pop:
  "f < n \<Longrightarrow> t < n \<Longrightarrow> f \<noteq> t \<Longrightarrow>
   (t + n - f) mod n = Suc ((t + n - (f + 1) mod n) mod n)" for n :: nat
  by (auto simp: ring_mod split: if_splits)

lemma ring_room:
  "f < n \<Longrightarrow> t < n \<Longrightarrow> Suc ((t + n - f) mod n) < n \<Longrightarrow> (t + 1) mod n \<noteq> (f :: nat)"
  by (auto simp: ring_mod split: if_splits)

lemma items_empty: "block_ok b \<Longrightarrow> items b = [] \<longleftrightarrow> front b = tail b"
  by (auto simp: items_def block_ok_def ring_count split: if_splits)

lemma items_push:
  assumes ok: "block_ok b" and room: "(tail b + 1) mod block_size b \<noteq> front b"
  shows "items (b\<lparr>slots := (slots b)[tail b := Some x], tail := (tail b + 1) mod block_size b\<rparr>) =
    items b @ [Some x]"
proof -
  let ?n = "block_size b" and ?c = "(tail b + block_size b - front b) mod block_size b"
  have b: "front b < ?n" "tail b < ?n" "length (slots b) = ?n" using ok by (auto simp: block_ok_def)
  have "(slots b)[tail b := Some x] ! ((front b + i) mod ?n) = slots b ! ((front b + i) mod ?n)"
    if "i < ?c" for i
    using ring_index_neq_tail [OF b(1,2) that] by (metis nth_list_update_neq)
  moreover have "(slots b)[tail b := Some x] ! ((front b + ?c) mod ?n) = Some x"
    using b by (simp add: ring_index_tail)
  ultimately show ?thesis
    using ring_count_push [OF b(1,2) room] by (simp add: items_def)
qed

lemma items_pop:
  assumes ok: "block_ok b" and ne: "front b \<noteq> tail b"
  shows "items b = slots b ! front b #
    items (b\<lparr>slots := (slots b)[front b := None], front := (front b + 1) mod block_size b\<rparr>)"
proof -
  let ?n = "block_size b" and ?f = "front b"
  define c where "c = (tail b + ?n - (?f + 1) mod ?n) mod ?n"
  let ?g = "\<lambda>i. slots b ! ((?f + i) mod ?n)"
  let ?g' = "\<lambda>i. (slots b)[?f := None] ! (((?f + 1) mod ?n + i) mod ?n)"
  have b: "?f < ?n" "tail b < ?n" using ok by (auto simp: block_ok_def)
  have c: "(tail b + ?n - ?f) mod ?n = Suc c"
    unfolding c_def by (rule ring_count_pop [OF b ne])
  have "Suc c < ?n" unfolding c [symmetric] using b by simp
  then have neq: "(?f + Suc i) mod ?n \<noteq> ?f" if "i < c" for i
    using that by (intro ring_index_neq b(1)) auto
  have "((?f + 1) mod ?n + i) mod ?n = (?f + Suc i) mod ?n" for i
    by (simp add: mod_add_left_eq)
  then have g: "?g (Suc i) = ?g' i" if "i < c" for i
    using neq [OF that] by (metis nth_list_update_neq)
  have "items b = map ?g (0 # map Suc [0..<c])"
    unfolding items_def c by (simp only: map_Suc_upt upt_conv_Cons)
  also have "\<dots> = ?g 0 # map ?g' [0..<c]" using g by simp
  also have "?g 0 = slots b ! ?f" using b by simp
  finally show ?thesis by (simp add: items_def c_def)
qed

lemma block_ok_push:
  assumes ok: "block_ok b" and room: "(tail b + 1) mod block_size b \<noteq> front b"
  shows "block_ok (b\<lparr>slots := (slots b)[tail b := Some x], tail := (tail b + 1) mod block_size b\<rparr>)"
proof -
  have "0 < block_size b" using ok by (auto simp: block_ok_def)
  then show ?thesis using ok items_push [OF ok room, of x] by (auto simp: block_ok_def)
qed

lemma block_ok_pop:
  assumes ok: "block_ok b" and ne: "front b \<noteq> tail b"
  shows "block_ok (b\<lparr>slots := (slots b)[front b := None], front := (front b + 1) mod block_size b\<rparr>)"
proof -
  have "0 < block_size b" using ok by (auto simp: block_ok_def)
  then show ?thesis using ok items_pop [OF ok ne] by (auto simp: block_ok_def)
qed

lemma block_ok_new: "0 < k \<Longrightarrow> block_ok (new_Block (2 ^ k) p)"
  by (cases k) (auto simp: block_ok_def new_Block_def items_def intro: exI [of _ k])

lemma items_new [simp]: "items (new_Block n p) = []"
  by (simp add: items_def new_Block_def)

lemma items_nxt [simp]: "items (b\<lparr>nxt := p\<rparr>) = items b"
  by (simp add: items_def)

lemma block_ok_nxt [simp]: "block_ok (b\<lparr>nxt := p\<rparr>) = block_ok b"
  by (simp add: block_ok_def)

text \<open>An empty block has room.\<close>

lemma room_of_empty: "block_ok b \<Longrightarrow> front b = tail b \<Longrightarrow> (tail b + 1) mod block_size b \<noteq> front b"
  using ring_index_neq [of "tail b" "block_size b" 1] by (auto simp: block_ok_def)

section \<open>The ring of blocks\<close>

text \<open>\<open>path q b is e\<close>: following \<^verbatim>\<open>next\<close> from block \<open>b\<close> visits \<open>is\<close> and arrives at \<open>e\<close>.\<close>

fun path :: "'a rwq \<Rightarrow> nat \<Rightarrow> nat list \<Rightarrow> nat \<Rightarrow> bool" where
  "path q b [] e \<longleftrightarrow> b = e"
| "path q b (i # is) e \<longleftrightarrow> b = i \<and> path q (nxt (get_block q i)) is e"

lemma path_append: "path q b (is @ js) e \<longleftrightarrow> (\<exists>m. path q b is m \<and> path q m js e)"
  by (induction "is" arbitrary: b) auto

lemma path_cong:
  "(\<And>i. i \<in> set is \<Longrightarrow> nxt (get_block q' i) = nxt (get_block q i)) \<Longrightarrow>
   path q' b is e \<longleftrightarrow> path q b is e"
  by (induction "is" arbitrary: b) auto

lemma path_hd: "path q b (is @ t # js) e \<Longrightarrow> b = hd (is @ [t])"
  by (cases "is") auto

text \<open>The ring from the front block: the blocks \<open>as\<close>, then the tail block, then the free
  blocks \<open>cs\<close>.  Every block after the front one, up to the tail block, has elements.\<close>

definition layout :: "'a rwq \<Rightarrow> nat list \<Rightarrow> nat list \<Rightarrow> bool" where
  "layout q as cs \<longleftrightarrow>
     path q (frontBlock q) (as @ tailBlock q # cs) (frontBlock q) \<and>
     distinct (as @ tailBlock q # cs) \<and>
     set (as @ tailBlock q # cs) = {..<length (store q)} \<and>
     (\<forall>b \<in> set (store q). block_ok b) \<and>
     (\<forall>i \<in> set (tl (as @ [tailBlock q])). front (get_block q i) \<noteq> tail (get_block q i)) \<and>
     (\<forall>i \<in> set cs. front (get_block q i) = tail (get_block q i)) \<and>
     (\<exists>k. largestBlockSize q = 2 ^ k)"

definition rwq_inv :: "'a rwq \<Rightarrow> bool" where
  "rwq_inv q \<longleftrightarrow> (\<exists>as cs. layout q as cs)"

abbreviation cont :: "'a rwq \<Rightarrow> nat \<Rightarrow> 'a option list" where
  "cont q i \<equiv> items (get_block q i)"

lemma rwq_invI [intro]: "layout q as cs \<Longrightarrow> rwq_inv q"
  by (auto simp: rwq_inv_def)

lemma layout_path: "layout q as cs \<Longrightarrow> path q (frontBlock q) (as @ tailBlock q # cs) (frontBlock q)"
  by (simp add: layout_def)

lemma layout_distinct: "layout q as cs \<Longrightarrow> distinct (as @ tailBlock q # cs)"
  by (simp add: layout_def)

lemma layout_lt: "layout q as cs \<Longrightarrow> i \<in> set (as @ tailBlock q # cs) \<Longrightarrow> i < length (store q)"
  unfolding layout_def by (metis lessThan_iff)

lemma layout_ok: "layout q as cs \<Longrightarrow> i < length (store q) \<Longrightarrow> block_ok (get_block q i)"
  by (simp add: layout_def get_block_def)

lemma cont_empty:
  "layout q as cs \<Longrightarrow> i < length (store q) \<Longrightarrow>
   front (get_block q i) = tail (get_block q i) \<Longrightarrow> cont q i = []"
  using items_empty layout_ok by blast

lemma layout_frontBlock: "layout q as cs \<Longrightarrow> frontBlock q = hd (as @ [tailBlock q])"
  by (metis layout_path path_hd)

lemma blocks_to_tail_path:
  "path q b (as @ tailBlock q # cs) e \<Longrightarrow> tailBlock q \<notin> set as \<Longrightarrow> length as < n \<Longrightarrow>
   blocks_to_tail q b n = as @ [tailBlock q]"
proof (induction as arbitrary: b n)
  case Nil
  then show ?case by (cases n) auto
next
  case (Cons a as)
  then show ?case by (cases n) auto
qed

lemma queue_list_layout:
  assumes "layout q as cs"
  shows "queue_list q = map the (concat (map (cont q) (as @ [tailBlock q])))"
proof -
  have "card (set (as @ tailBlock q # cs)) = length (store q)"
    using assms unfolding layout_def by (metis card_lessThan)
  then have "length as < length (store q)"
    using distinct_card [OF layout_distinct [OF assms]] by simp
  then show ?thesis
    unfolding queue_list_def
    using blocks_to_tail_path [OF layout_path [OF assms]] layout_distinct [OF assms] by simp
qed

lemma get_set_block:
  "i < length (store q) \<Longrightarrow> get_block (set_block q i b) j = (if j = i then b else get_block q j)"
  by (simp add: get_block_def set_block_def)

lemma set_block_sel [simp]:
  "frontBlock (set_block q i b) = frontBlock q" "tailBlock (set_block q i b) = tailBlock q"
  "largestBlockSize (set_block q i b) = largestBlockSize q"
  "length (store (set_block q i b)) = length (store q)"
  by (simp_all add: set_block_def)

lemma get_block_sel [simp]:
  "get_block (q\<lparr>frontBlock := f\<rparr>) = get_block q" "get_block (q\<lparr>tailBlock := t\<rparr>) = get_block q"
  by (simp_all add: get_block_def fun_eq_iff)

text \<open>Replacing the content of one block, keeping its link, keeps the layout.\<close>

lemma layout_set_block:
  assumes l: "layout q as cs" and i: "i < length (store q)" and ok: "block_ok b"
    and n: "nxt b = nxt (get_block q i)"
    and full: "i \<in> set (tl (as @ [tailBlock q])) \<Longrightarrow> front b \<noteq> tail b"
    and free: "i \<notin> set cs"
  shows "layout (set_block q i b) as cs"
proof -
  have "path (set_block q i b) (frontBlock q) (as @ tailBlock q # cs) (frontBlock q) =
        path q (frontBlock q) (as @ tailBlock q # cs) (frontBlock q)"
    by (rule path_cong) (simp add: get_set_block [OF i] n)
  moreover have "\<forall>c \<in> set (store (set_block q i b)). block_ok c"
    using l ok by (auto simp: layout_def set_block_def dest: set_update_subset_insert [THEN subsetD])
  ultimately show ?thesis
    using l full free by (auto simp: layout_def get_set_block [OF i])
qed

section \<open>Enqueue\<close>

lemma cont_set_block:
  "i < length (store q) \<Longrightarrow> i \<notin> set js \<Longrightarrow> map (cont (set_block q i b)) js = map (cont q) js"
  by (auto simp: get_set_block)

text \<open>There is room in the tail block.\<close>

lemma enqueue_room:
  assumes l: "layout q as cs" and t: "t = get_block q (tailBlock q)"
    and room: "(tail t + 1) mod block_size t \<noteq> front t"
    and q': "q' = set_block q (tailBlock q)
      (t\<lparr>slots := (slots t)[tail t := Some x], tail := (tail t + 1) mod block_size t\<rparr>)"
  shows "layout q' as cs \<and> queue_list q' = queue_list q @ [x]"
proof -
  let ?b = "t\<lparr>slots := (slots t)[tail t := Some x], tail := (tail t + 1) mod block_size t\<rparr>"
  have i: "tailBlock q < length (store q)" by (rule layout_lt [OF l]) simp
  have ok: "block_ok t" using layout_ok [OF l i] t by simp
  have d: "tailBlock q \<notin> set as" "tailBlock q \<notin> set cs" using layout_distinct [OF l] by auto
  have l': "layout q' as cs"
    unfolding q' by (rule layout_set_block [OF l i block_ok_push [OF ok room]])
      (use room d t in auto)
  have "cont q' (tailBlock q) = cont q (tailBlock q) @ [Some x]"
    using items_push [OF ok room] by (simp add: q' get_set_block [OF i] t)
  then have "queue_list q' = queue_list q @ [x]"
    using queue_list_layout [OF l] queue_list_layout [OF l'] cont_set_block [OF i d(1)]
    by (simp add: q')
  with l' show ?thesis by simp
qed

text \<open>The next block of the ring is free: it becomes the tail block and the element is
  stored there.\<close>

lemma layout_advance_tail:
  assumes l: "layout q as (c # cs)"
    and f: "front (get_block q (tailBlock q)) \<noteq> tail (get_block q (tailBlock q))"
    and b: "block_ok b" "nxt b = nxt (get_block q c)" "front b \<noteq> tail b"
  shows "layout ((set_block q c b)\<lparr>tailBlock := c\<rparr>) (as @ [tailBlock q]) cs"
proof -
  have c: "c < length (store q)" by (rule layout_lt [OF l]) simp
  have d: "distinct (as @ tailBlock q # c # cs)" by (rule layout_distinct [OF l])
  have "path (set_block q c b) (frontBlock q) (as @ tailBlock q # c # cs) (frontBlock q)"
    using layout_path [OF l] by (subst path_cong) (auto simp: get_set_block [OF c] b(2))
  then have p: "path ((set_block q c b)\<lparr>tailBlock := c\<rparr>) (frontBlock q)
      (as @ tailBlock q # c # cs) (frontBlock q)"
    by (subst path_cong [of _ _ "set_block q c b"]) auto
  have "\<forall>c \<in> set (store (set_block q c b)). block_ok c"
    using l b(1) by (auto simp: layout_def set_block_def dest: set_update_subset_insert [THEN subsetD])
  moreover have "\<forall>i \<in> set (tl (as @ [tailBlock q])) \<union> {tailBlock q}.
      front (get_block (set_block q c b) i) \<noteq> tail (get_block (set_block q c b) i)"
    using l f b(3) by (auto simp: layout_def get_set_block [OF c])
  moreover have "set (tl (as @ [tailBlock q, c])) \<subseteq> set (tl (as @ [tailBlock q])) \<union> {tailBlock q, c}"
    by (cases as) auto
  moreover have "\<forall>i \<in> set cs. front (get_block (set_block q c b) i) = tail (get_block (set_block q c b) i)"
    using l d by (auto simp: layout_def get_set_block [OF c])
  ultimately show ?thesis
    using l p d b(3) by (auto simp: layout_def get_set_block [OF c])
qed

lemma enqueue_next:
  assumes l: "layout q as (c # cs)"
    and f: "front (get_block q (tailBlock q)) \<noteq> tail (get_block q (tailBlock q))"
    and n: "n = get_block q c"
    and q': "q' = (set_block q c
      (n\<lparr>slots := (slots n)[tail n := Some x], tail := (tail n + 1) mod block_size n\<rparr>))\<lparr>tailBlock := c\<rparr>"
  shows "layout q' (as @ [tailBlock q]) cs \<and> queue_list q' = queue_list q @ [x]"
proof -
  let ?b = "n\<lparr>slots := (slots n)[tail n := Some x], tail := (tail n + 1) mod block_size n\<rparr>"
  have c: "c < length (store q)" by (rule layout_lt [OF l]) simp
  have ok: "block_ok n" using layout_ok [OF l c] n by simp
  have e: "front n = tail n" using l n by (simp add: layout_def)
  note room = room_of_empty [OF ok e]
  have l': "layout q' (as @ [tailBlock q]) cs"
    unfolding q' by (rule layout_advance_tail [OF l f block_ok_push [OF ok room]]) (use room n in auto)
  have d: "c \<notin> set (as @ [tailBlock q])" using layout_distinct [OF l] by auto
  have "items n = []" using items_empty [OF ok] e by simp
  then have i: "cont q' c = [Some x]"
    using items_push [OF ok room, of x] by (simp add: q' get_set_block [OF c])
  have m: "map (cont q') (as @ [tailBlock q]) = map (cont q) (as @ [tailBlock q])"
    using cont_set_block [OF c d, of ?b] by (simp add: q')
  have "tailBlock q' = c" by (simp add: q')
  then have "queue_list q' = map the (concat (map (cont q') (as @ [tailBlock q]))) @ [x]"
    using queue_list_layout [OF l'] i by simp
  with l' show ?thesis unfolding m queue_list_layout [OF l] by blast
qed

text \<open>The ring is full: a new block, twice as large as the largest one, is linked in behind
  the tail block.\<close>

definition grown :: "'a rwq \<Rightarrow> 'a \<Rightarrow> 'a rwq" where
  "grown q x =
     (let t = get_block q (tailBlock q); sz = largestBlockSize q * 2; nb = length (store q) in
      q\<lparr>store := (store q)[tailBlock q := t\<lparr>nxt := nb\<rparr>] @
          [(new_Block sz (nxt t))\<lparr>slots := (replicate sz None)[0 := Some x], tail := 1\<rparr>],
        tailBlock := nb, largestBlockSize := sz\<rparr>)"

lemma new_block_with:
  assumes "0 < k"
  shows "block_ok ((new_Block (2 ^ k) p)\<lparr>slots := (replicate (2 ^ k) None)[0 := Some x], tail := 1\<rparr>)"
    and "items ((new_Block (2 ^ k) p)\<lparr>slots := (replicate (2 ^ k) None)[0 := Some x], tail := 1\<rparr>) = [Some x]"
proof -
  let ?b = "new_Block (2 ^ k) p :: 'a block"
  have e: "front ?b = tail ?b" "tail ?b = 0" "slots ?b = replicate (2 ^ k) None" "block_size ?b = 2 ^ k"
    by (simp_all add: new_Block_def)
  note ok = block_ok_new [OF assms, of p]
  note room = room_of_empty [OF ok e(1)]
  have "(0 + 1) mod 2 ^ k = (1 :: nat)" using assms by (cases k) auto
  then show "block_ok (?b\<lparr>slots := (replicate (2 ^ k) None)[0 := Some x], tail := 1\<rparr>)"
    and "items (?b\<lparr>slots := (replicate (2 ^ k) None)[0 := Some x], tail := 1\<rparr>) = [Some x]"
    using block_ok_push [OF ok room, of x] items_push [OF ok room, of x] by (simp_all add: e)
qed

lemma get_grown:
  assumes "tailBlock q < length (store q)"
  shows "get_block (grown q x) i =
    (if i = tailBlock q then (get_block q i)\<lparr>nxt := length (store q)\<rparr>
     else if i < length (store q) then get_block q i
     else if i = length (store q) then
       (new_Block (largestBlockSize q * 2) (nxt (get_block q (tailBlock q))))
         \<lparr>slots := (replicate (largestBlockSize q * 2) None)[0 := Some x], tail := 1\<rparr>
     else get_block (grown q x) i)"
  using assms by (auto simp: grown_def Let_def get_block_def nth_append)

lemma layout_grown:
  assumes l: "layout q as []"
    and f: "front (get_block q (tailBlock q)) \<noteq> tail (get_block q (tailBlock q))"
  shows "layout (grown q x) (as @ [tailBlock q]) []"
proof -
  let ?n = "length (store q)" and ?q = "grown q x"
  have i: "tailBlock q < ?n" by (rule layout_lt [OF l]) simp
  note g = get_grown [OF i, of x]
  from l obtain k where k: "largestBlockSize q = 2 ^ k" by (auto simp: layout_def)
  have sel: "tailBlock ?q = ?n" "frontBlock ?q = frontBlock q" "length (store ?q) = Suc ?n"
    "largestBlockSize ?q = 2 ^ Suc k"
    by (simp_all add: grown_def Let_def k)
  have lt: "j < ?n" if "j \<in> set as" for j by (rule layout_lt [OF l]) (use that in simp)
  have d: "tailBlock q \<notin> set as" using layout_distinct [OF l] by auto
  have "path ?q (frontBlock q) as (tailBlock q)"
    using layout_path [OF l] d lt by (subst path_cong [of _ _ q]) (auto simp: g path_append)
  moreover have "path ?q (tailBlock q) [tailBlock q, ?n] (frontBlock q)"
    using layout_path [OF l] i by (auto simp: g path_append new_Block_def)
  ultimately have "path ?q (frontBlock q) (as @ [tailBlock q, ?n]) (frontBlock q)"
    by (auto simp: path_append)
  moreover have "block_ok (get_block ?q j)" if "j < Suc ?n" for j
    using that i layout_ok [OF l] new_block_with(1) [of "Suc k"] by (auto simp: g k mult.commute)
  then have "\<forall>b \<in> set (store ?q). block_ok b"
    unfolding all_set_conv_all_nth sel by (simp add: get_block_def)
  moreover have "{..<Suc ?n} = insert ?n {..<?n}" by auto
  then have "set (as @ [tailBlock q, ?n]) = {..<Suc ?n}"
    using l by (auto simp: layout_def)
  moreover have "\<forall>j \<in> insert ?n (insert (tailBlock q) (set (tl (as @ [tailBlock q])))).
      front (get_block ?q j) \<noteq> tail (get_block ?q j)"
    using l f lt i by (cases as) (auto simp: g new_Block_def layout_def)
  moreover have "set (tl (as @ [tailBlock q, ?n])) \<subseteq>
      insert ?n (insert (tailBlock q) (set (tl (as @ [tailBlock q]))))"
    by (cases as) auto
  moreover have "\<exists>ka. largestBlockSize ?q = 2 ^ ka" using sel by blast
  ultimately show ?thesis
    using layout_distinct [OF l] lt i unfolding layout_def sel(1,2,3) by (auto dest: lt)
qed

lemma enqueue_grown:
  assumes l: "layout q as []"
    and f: "front (get_block q (tailBlock q)) \<noteq> tail (get_block q (tailBlock q))"
  shows "queue_list (grown q x) = queue_list q @ [x]"
proof -
  let ?n = "length (store q)" and ?q = "grown q x"
  have i: "tailBlock q < ?n" by (rule layout_lt [OF l]) simp
  note g = get_grown [OF i, of x]
  from l obtain k where k: "largestBlockSize q = 2 ^ k" by (auto simp: layout_def)
  have "cont ?q ?n = [Some x]" using i new_block_with(2) [of "Suc k"] by (simp add: g k mult.commute)
  moreover have "tailBlock ?q = ?n" by (simp add: grown_def Let_def)
  moreover have m: "map (cont ?q) (as @ [tailBlock q]) = map (cont q) (as @ [tailBlock q])"
    by (rule map_cong) (use layout_lt [OF l] in \<open>auto simp: g\<close>)
  ultimately have "queue_list ?q = map the (concat (map (cont ?q) (as @ [tailBlock q]))) @ [x]"
    using queue_list_layout [OF layout_grown [OF l f, of x]] by simp
  then show ?thesis unfolding m queue_list_layout [OF l] by blast
qed

text \<open>The tail block's link tells the three cases apart.\<close>

lemma layout_tail_nxt:
  assumes "layout q as cs"
  shows "nxt (get_block q (tailBlock q)) = (case cs of [] \<Rightarrow> frontBlock q | c # _ \<Rightarrow> c)"
  using layout_path [OF assms] by (cases cs) (auto simp: path_append)

lemma layout_free_not_front: "layout q as (c # cs) \<Longrightarrow> c \<noteq> frontBlock q"
  using layout_distinct [of q as "c # cs"] layout_frontBlock [of q as "c # cs"] by (cases as) auto

lemma inner_enqueue_layout:
  assumes l: "layout q as cs"
  shows "case inner_enqueue canAlloc x q of (r, q') \<Rightarrow>
    (if r then rwq_inv q' \<and> queue_list q' = queue_list q @ [x] else q' = q \<and> \<not> canAlloc)"
proof -
  let ?t = "get_block q (tailBlock q)"
  have i: "tailBlock q < length (store q)" by (rule layout_lt [OF l]) simp
  note ok = layout_ok [OF l i]
  have m: "(tail ?t + 1) AND sizeMask ?t = (tail ?t + 1) mod block_size ?t"
    by (rule and_sizeMask [OF ok])
  show ?thesis
  proof (cases "(tail ?t + 1) mod block_size ?t = front ?t")
    case False
    then show ?thesis
      using enqueue_room [OF l refl False refl, of x] m
      by (auto simp: inner_enqueue_def Let_def)
  next
    case True
    then have f: "front ?t \<noteq> tail ?t" using room_of_empty [OF ok] by auto
    show ?thesis
    proof (cases cs)
      case Nil
      then have n: "nxt ?t = frontBlock q" using layout_tail_nxt [OF l] by simp
      have "rwq_inv (grown q x) \<and> queue_list (grown q x) = queue_list q @ [x]"
        using layout_grown [OF l [unfolded Nil] f] enqueue_grown [OF l [unfolded Nil] f]
        by auto
      then show ?thesis using True m n by (simp add: inner_enqueue_def Let_def grown_def)
    next
      case (Cons c cs')
      then have n: "nxt ?t = c" using layout_tail_nxt [OF l] by simp
      have c: "c < length (store q)" by (rule layout_lt [OF l]) (simp add: Cons)
      have m': "(tail (get_block q c) + 1) AND sizeMask (get_block q c) =
          (tail (get_block q c) + 1) mod block_size (get_block q c)"
        by (rule and_sizeMask [OF layout_ok [OF l c]])
      show ?thesis
        using enqueue_next [OF l [unfolded Cons] f refl refl, of x] True m m' n
          layout_free_not_front [OF l [unfolded Cons]]
        by (auto simp: inner_enqueue_def Let_def)
    qed
  qed
qed

section \<open>Dequeue\<close>

lemma take_front_layout:
  assumes l: "layout q as cs"
    and ne: "front (get_block q (frontBlock q)) \<noteq> tail (get_block q (frontBlock q))"
  shows "\<exists>x q'. take_front q (frontBlock q) = Inr (Some x, q') \<and> layout q' as cs \<and>
    queue_list q = x # queue_list q'"
proof -
  let ?b = "get_block q (frontBlock q)"
  let ?b' = "?b\<lparr>slots := (slots ?b)[front ?b := None], front := (front ?b + 1) mod block_size ?b\<rparr>"
  let ?q' = "set_block q (frontBlock q) ?b'"
  have h: "frontBlock q = hd (as @ [tailBlock q])" by (rule layout_frontBlock [OF l])
  then obtain bs where bs: "as @ [tailBlock q] = frontBlock q # bs" by (cases as) auto
  have "frontBlock q \<in> set (as @ [tailBlock q])" unfolding bs by simp
  then have i: "frontBlock q < length (store q)" by (intro layout_lt [OF l]) auto
  note ok = layout_ok [OF l i]
  have "frontBlock q \<notin> set bs" "frontBlock q \<notin> set cs"
    using layout_distinct [OF l] bs by (metis append_Cons append_assoc append_Nil
        distinct.simps(2) distinct_append not_distinct_conv_prefix Un_iff set_append)+
  note d = this
  have l': "layout ?q' as cs"
    by (rule layout_set_block [OF l i block_ok_pop [OF ok ne]]) (use bs d in auto)
  have "slots ?b ! front ?b \<in> set (items ?b)"
    using items_pop [OF ok ne] by (metis list.set_intros(1))
  then have "slots ?b ! front ?b \<noteq> None" using ok by (metis block_ok_def)
  then obtain x where x: "slots ?b ! front ?b = Some x" by blast
  have "take_front q (frontBlock q) = Inr (Some x, ?q')"
    using x and_sizeMask [OF ok] by (simp add: take_front_def Let_def)
  moreover have "cont q (frontBlock q) = Some x # cont ?q' (frontBlock q)"
    using items_pop [OF ok ne] x by (simp add: get_set_block [OF i])
  then have "queue_list q = x # queue_list ?q'"
    using queue_list_layout [OF l] queue_list_layout [OF l'] cont_set_block [OF i d(1), of ?b']
    by (simp only: set_block_sel bs list.map concat.simps append_Cons option.sel)
  ultimately show ?thesis using l' by blast
qed

lemma layout_rotate:
  assumes l: "layout q (f # as) cs"
    and e: "front (get_block q f) = tail (get_block q f)"
  shows "layout (q\<lparr>frontBlock := hd (as @ [tailBlock q])\<rparr>) as (cs @ [f])"
proof -
  let ?n = "hd (as @ [tailBlock q])"
  have p: "path q f (f # as @ tailBlock q # cs) f" using layout_path [OF l] by auto
  then have "path q (nxt (get_block q f)) (as @ tailBlock q # cs) f" by simp
  moreover from path_hd [OF this] have "nxt (get_block q f) = ?n" .
  ultimately have "path q ?n ((as @ tailBlock q # cs) @ [f]) ?n"
    by (subst path_append) auto
  then have "path (q\<lparr>frontBlock := ?n\<rparr>) ?n (as @ tailBlock q # cs @ [f]) ?n"
    by (subst path_cong [of _ _ q]) auto
  moreover have "set (tl (as @ [tailBlock q])) \<subseteq> set (as @ [tailBlock q])"
    by (cases as) auto
  ultimately show ?thesis
    using l e by (auto simp: layout_def)
qed

lemma try_dequeue_layout:
  assumes l: "layout q as cs"
  shows "\<exists>q'. rwq_try_dequeue q =
      Inr (case queue_list q of [] \<Rightarrow> None | x # _ \<Rightarrow> Some x, q') \<and>
    rwq_inv q' \<and> queue_list q' = tl (queue_list q)"
proof (cases "front (get_block q (frontBlock q)) = tail (get_block q (frontBlock q))")
  case False
  then show ?thesis
    using take_front_layout [OF l False] by (auto simp: rwq_try_dequeue_def Let_def)
next
  case e: True
  show ?thesis
  proof (cases as)
    case Nil
    then have t: "frontBlock q = tailBlock q" using layout_frontBlock [OF l] by simp
    have "cont q (tailBlock q) = []"
      using e t layout_lt [OF l, of "tailBlock q"] by (intro cont_empty [OF l]) auto
    then have "queue_list q = []" using queue_list_layout [OF l] Nil by simp
    then show ?thesis using e t l by (auto simp: rwq_try_dequeue_def)
  next
    case (Cons f as')
    then have f: "frontBlock q = f" using layout_frontBlock [OF l] by simp
    have nt: "f \<noteq> tailBlock q" using layout_distinct [OF l] Cons by auto
    let ?q = "q\<lparr>frontBlock := hd (as' @ [tailBlock q])\<rparr>"
    have l1: "layout ?q as' (cs @ [f])" using layout_rotate [of q f as' cs] l e f Cons by simp
    have n: "nxt (get_block q f) = hd (as' @ [tailBlock q])"
      using layout_path [OF l] Cons path_hd by auto
    have "hd (as' @ [tailBlock q]) \<in> set (tl (as @ [tailBlock q]))" using Cons by (cases as') auto
    then have ne: "front (get_block ?q (frontBlock ?q)) \<noteq> tail (get_block ?q (frontBlock ?q))"
      using l by (simp add: layout_def)
    have "f < length (store q)" by (rule layout_lt [OF l]) (simp add: Cons)
    then have "cont q f = []" using e f by (intro cont_empty [OF l]) auto
    then have same: "queue_list q = queue_list ?q"
      using queue_list_layout [OF l] queue_list_layout [OF l1] Cons by simp
    show ?thesis
      using take_front_layout [OF l1 ne] e f nt n same
      by (auto simp: rwq_try_dequeue_def Let_def)
  qed
qed

lemma rwq_peek_layout:
  assumes l: "layout q as cs"
  shows "rwq_peek q = Inr (case queue_list q of [] \<Rightarrow> None | x # _ \<Rightarrow> Some x)"
proof -
  obtain q' where d: "rwq_try_dequeue q = Inr (case queue_list q of [] \<Rightarrow> None | x # _ \<Rightarrow> Some x, q')"
    using try_dequeue_layout [OF l] by blast
  then show ?thesis
    by (cases "queue_list q")
      (auto simp: rwq_peek_def rwq_try_dequeue_def take_front_def Let_def
        split: if_splits option.splits)
qed

lemma rwq_pop_layout:
  assumes l: "layout q as cs"
  shows "\<exists>q'. rwq_pop q = Inr (queue_list q \<noteq> [], q') \<and> rwq_inv q' \<and>
    queue_list q' = tl (queue_list q)"
proof -
  obtain q' where d: "rwq_try_dequeue q = Inr (case queue_list q of [] \<Rightarrow> None | x # _ \<Rightarrow> Some x, q')"
    and q': "rwq_inv q'" "queue_list q' = tl (queue_list q)"
    using try_dequeue_layout [OF l] by blast
  from d have "rwq_pop q = Inr (queue_list q \<noteq> [], q')"
    by (cases "queue_list q")
      (auto simp: rwq_pop_def rwq_try_dequeue_def take_front_def Let_def
        split: if_splits option.splits)
  with q' show ?thesis by blast
qed

section \<open>Construction\<close>

text \<open>\<open>covers m w v\<close>: bit \<open>i\<close> of \<open>v\<close> says whether \<open>w\<close> has a bit among
  \<open>i, ..., i + m - 1\<close>.  Each step of the smearing doubles \<open>m\<close>.\<close>

definition covers :: "nat \<Rightarrow> u64 \<Rightarrow> u64 \<Rightarrow> bool" where
  "covers m w v \<longleftrightarrow> (\<forall>i. bit v i \<longleftrightarrow> (\<exists>j. i \<le> j \<and> j < i + m \<and> bit w j))"

lemma covers_1: "covers 1 w w"
proof -
  have "(i \<le> j \<and> j < i + 1) = (j = i)" for i j :: nat by auto
  then show ?thesis unfolding covers_def by (metis le_refl less_add_one)
qed

lemma covers_double:
  assumes "covers m w v"
  shows "covers (m + m) w (v OR drop_bit m v)"
proof -
  have split: "(i \<le> j \<and> j < i + (m + m) \<and> P) \<longleftrightarrow>
      (i \<le> j \<and> j < i + m \<and> P) \<or> (m + i \<le> j \<and> j < m + i + m \<and> P)" for i j P
    by auto
  have "bit (v OR drop_bit m v) i \<longleftrightarrow> (\<exists>j. i \<le> j \<and> j < i + (m + m) \<and> bit w j)" for i
  proof -
    have "bit (v OR drop_bit m v) i \<longleftrightarrow> bit v i \<or> bit v (m + i)"
      by (simp add: bit_or_iff bit_drop_bit_eq)
    also have "\<dots> \<longleftrightarrow> (\<exists>j. i \<le> j \<and> j < i + m \<and> bit w j) \<or>
        (\<exists>j. m + i \<le> j \<and> j < m + i + m \<and> bit w j)"
      using assms by (simp add: covers_def)
    also have "\<dots> \<longleftrightarrow> (\<exists>j. i \<le> j \<and> j < i + (m + m) \<and> bit w j)"
      unfolding split by blast
    finally show ?thesis .
  qed
  then show ?thesis by (simp add: covers_def)
qed

lemma covers_mask:
  assumes c: "covers 64 w v" and lo: "2 ^ k \<le> unat w" and hi: "unat w < 2 ^ Suc k"
  shows "v = mask (Suc k)"
proof (rule bit_word_eqI)
  fix i :: nat
  assume i: "i < LENGTH(64)"
  have bits: "bit (unat w) j = bit w j" for j by (simp add: bit_unsigned_iff)
  have "bit (unat w) k"
  proof -
    have "unat w div 2 ^ k = 1"
      by (rule div_nat_eqI) (use lo hi in simp_all)
    then show ?thesis by (simp add: bit_iff_odd)
  qed
  then have k: "bit w k" by (simp add: bits)
  then have k64: "k < 64" using bit_imp_le_length [OF k] by simp
  have none: "\<not> bit w j" if "Suc k \<le> j" for j
  proof -
    have "unat w < 2 ^ j" using hi that by (meson less_le_trans one_le_numeral power_increasing)
    then have "\<not> bit (unat w) j" by (simp add: bit_iff_odd)
    then show ?thesis by (simp add: bits)
  qed
  have "bit v i \<longleftrightarrow> i \<le> k"
  proof
    assume "bit v i"
    then obtain j where "i \<le> j" "bit w j" using c by (auto simp: covers_def)
    then show "i \<le> k" using none [of j] by (cases "Suc k \<le> j") auto
  next
    assume "i \<le> k"
    moreover have "k < i + 64" using k64 by simp
    ultimately show "bit v i" using c k by (auto simp: covers_def)
  qed
  then show "bit v i \<longleftrightarrow> bit (mask (Suc k) :: u64) i"
    using i by (auto simp: bit_mask_iff)
qed

lemma ceilToPow2_covers: "\<exists>v. ceilToPow2 x = v + 1 \<and> covers 64 (x - 1) v"
proof -
  define v1 where "v1 = (x - 1) OR drop_bit 1 (x - 1)"
  define v2 where "v2 = v1 OR drop_bit 2 v1"
  define v3 where "v3 = v2 OR drop_bit 4 v2"
  define v4 where "v4 = v3 OR drop_bit 8 v3"
  define v5 where "v5 = v4 OR drop_bit 16 v4"
  define v6 where "v6 = v5 OR drop_bit 32 v5"
  note v = v1_def v2_def v3_def v4_def v5_def v6_def
  have "covers (1 + 1) (x - 1) v1" unfolding v by (rule covers_double [OF covers_1])
  then have "covers (2 + 2) (x - 1) v2" unfolding v2_def by (intro covers_double) (simp add: numeral_2_eq_2)
  then have "covers (4 + 4) (x - 1) v3" unfolding v3_def by (intro covers_double) simp
  then have "covers (8 + 8) (x - 1) v4" unfolding v4_def by (intro covers_double) simp
  then have "covers (16 + 16) (x - 1) v5" unfolding v5_def by (intro covers_double) simp
  then have "covers (32 + 32) (x - 1) v6" unfolding v6_def by (intro covers_double) simp
  then have "covers 64 (x - 1) v6" by simp
  moreover have "ceilToPow2 x = v6 + 1" by (simp add: ceilToPow2_def Let_def v)
  ultimately show ?thesis by blast
qed

lemma ceilToPow2_power:
  assumes "1 \<le> unat x" and "unat x \<le> 2 ^ 63"
  shows "\<exists>k. unat (ceilToPow2 x) = 2 ^ k \<and> unat x \<le> 2 ^ k \<and> 2 ^ k < 2 * unat x"
proof -
  have "x \<noteq> 0" using assms(1) by auto
  then have w: "unat (x - 1) = unat x - 1" by (rule unat_minus_one)
  obtain v where v: "ceilToPow2 x = v + 1" "covers 64 (x - 1) v" using ceilToPow2_covers by blast
  show ?thesis
  proof (cases "unat x = 1")
    case True
    then have "x = 1" by (metis unat_1 word_unat_eq_iff)
    moreover have "v = 0"
      using v(2) \<open>x = 1\<close> by (intro bit_word_eqI) (simp add: covers_def)
    ultimately show ?thesis using v(1) by (intro exI [of _ 0]) simp
  next
    case False
    then have "1 \<le> unat x - 1" using assms(1) by simp
    then obtain k where k: "2 ^ k \<le> unat x - 1" "unat x - 1 < 2 ^ (k + 1)"
      using ex_power_ivl1 [of 2 "unat x - 1"] by auto
    then have "v = mask (Suc k)" using v(2) w by (intro covers_mask [of "x - 1"]) auto
    then have c: "ceilToPow2 x = 2 ^ Suc k" using v(1) by (simp add: mask_eq_exp_minus_1)
    have "(2 :: nat) ^ k < 2 ^ 63" using k(1) assms by simp
    then have "k < 63" by (rule power_less_imp_less_exp [rotated]) simp
    then have "Suc k < 64" by simp
    then have "unat (of_nat (2 ^ Suc k) :: u64) = 2 ^ Suc k"
      unfolding unat_of_nat by (intro mod_less power_strict_increasing) simp_all
    then have "unat (2 ^ Suc k :: u64) = 2 ^ Suc k" by simp
    then show ?thesis using c k assms(1) by (intro exI [of _ "Suc k"]) auto
  qed
qed

lemma new_queue_size:
  assumes "1 \<le> n" and "n < 2 ^ 63"
  shows "\<exists>k. 0 < k \<and> unat (ceilToPow2 (of_nat (n + 1))) = 2 ^ k \<and> n + 1 \<le> 2 ^ k"
proof -
  have u: "unat (of_nat (n + 1) :: u64) = n + 1"
    using assms(2) unfolding unat_of_nat by simp
  obtain k where k: "unat (ceilToPow2 (of_nat (n + 1))) = 2 ^ k" "n + 1 \<le> 2 ^ k"
    using ceilToPow2_power [of "of_nat (n + 1)"] assms unfolding u by auto
  moreover have "0 < k" using k(2) assms(1) by (cases k) auto
  ultimately show ?thesis by blast
qed

lemma new_queue_layout:
  assumes "1 \<le> n" and "n < 2 ^ 63"
  shows "layout (new_ReaderWriterQueue n :: 'a rwq) [] []"
    and "queue_list (new_ReaderWriterQueue n :: 'a rwq) = []"
proof -
  obtain k where k: "0 < k" "unat (ceilToPow2 (of_nat (n + 1))) = 2 ^ k"
    using new_queue_size [OF assms] by blast
  let ?q = "new_ReaderWriterQueue n :: 'a rwq"
  have q: "?q = \<lparr>store = [new_Block (2 ^ k) 0], frontBlock = 0, tailBlock = 0, largestBlockSize = 2 ^ k\<rparr>"
    unfolding new_ReaderWriterQueue_def Let_def k(2) ..
  show "layout ?q [] []"
    using block_ok_new [OF k(1), of 0] by (auto simp: q layout_def get_block_def new_Block_def)
  then show "queue_list ?q = []"
    by (simp add: queue_list_layout) (simp add: q get_block_def)
qed

section \<open>The contract of a FIFO queue\<close>

datatype 'a qop = Enq 'a | Deq

fun run_ops ::
  "('a \<Rightarrow> 'q \<Rightarrow> 'q) \<Rightarrow> ('q \<Rightarrow> ('a option \<times> 'q) res) \<Rightarrow> 'a qop list \<Rightarrow> 'q \<Rightarrow> ('a option list \<times> 'q) res" where
  "run_ops enq deq [] q = Inr ([], q)"
| "run_ops enq deq (Enq x # ops) q = run_ops enq deq ops (enq x q)"
| "run_ops enq deq (Deq # ops) q =
     bind_res (deq q) (\<lambda>(r, q1). bind_res (run_ops enq deq ops q1) (\<lambda>(rs, q2). Inr (r # rs, q2)))"

fun spec_ops :: "'a qop list \<Rightarrow> 'a list \<Rightarrow> 'a option list \<times> 'a list" where
  "spec_ops [] xs = ([], xs)"
| "spec_ops (Enq x # ops) xs = spec_ops ops (xs @ [x])"
| "spec_ops (Deq # ops) [] = (let (rs, ys) = spec_ops ops [] in (None # rs, ys))"
| "spec_ops (Deq # ops) (x # xs) = (let (rs, ys) = spec_ops ops xs in (Some x # rs, ys))"

locale fifo =
  fixes enq :: "'a \<Rightarrow> 'q \<Rightarrow> 'q"
    and deq :: "'q \<Rightarrow> ('a option \<times> 'q) res"
    and contents :: "'q \<Rightarrow> 'a list"
    and inv :: "'q \<Rightarrow> bool"
  assumes inv_enq: "inv q \<Longrightarrow> inv (enq x q)"
    and contents_enq: "inv q \<Longrightarrow> contents (enq x q) = contents q @ [x]"
    and deq_hd: "inv q \<Longrightarrow>
      \<exists>q'. deq q = Inr (case contents q of [] \<Rightarrow> None | x # _ \<Rightarrow> Some x, q') \<and>
        inv q' \<and> contents q' = tl (contents q)"
begin

lemma deq_Nil: "inv q \<Longrightarrow> contents q = [] \<Longrightarrow> \<exists>q'. deq q = Inr (None, q') \<and> inv q' \<and> contents q' = []"
  using deq_hd by fastforce

lemma deq_Cons:
  "inv q \<Longrightarrow> contents q = x # xs \<Longrightarrow> \<exists>q'. deq q = Inr (Some x, q') \<and> inv q' \<and> contents q' = xs"
  using deq_hd by fastforce

lemma deq_cases:
  assumes "inv q" and "deq q = Inr (r, q')"
  shows "inv q' \<and> contents q = (case r of None \<Rightarrow> [] | Some x \<Rightarrow> x # contents q') \<and>
    (r = None \<longrightarrow> contents q' = [])"
  using deq_hd [OF assms(1)] assms(2) by (auto split: list.splits)

lemma run_ops_refines:
  "inv q \<Longrightarrow> \<exists>q'. run_ops enq deq ops q = Inr (fst (spec_ops ops (contents q)), q') \<and>
     inv q' \<and> contents q' = snd (spec_ops ops (contents q))"
proof (induction ops arbitrary: q)
  case Nil
  then show ?case by simp
next
  case (Cons op ops)
  show ?case
  proof (cases op)
    case (Enq x)
    then show ?thesis
      using Cons.IH [of "enq x q"] Cons.prems by (simp add: inv_enq contents_enq)
  next
    case Deq
    show ?thesis
    proof (cases "contents q")
      case Nil
      then obtain q1 where q1: "deq q = Inr (None, q1)" "inv q1" "contents q1 = []"
        using deq_Nil [OF Cons.prems] by blast
      then show ?thesis using Cons.IH [of q1] Deq Nil by (auto simp: case_prod_beta)
    next
      case (Cons x xs)
      then obtain q1 where q1: "deq q = Inr (Some x, q1)" "inv q1" "contents q1 = xs"
        using deq_Cons [OF Cons.prems] by blast
      then show ?thesis using Cons.IH [of q1] Deq Cons by (auto simp: case_prod_beta)
    qed
  qed
qed

end

interpretation rw: fifo rwq_enqueue rwq_try_dequeue queue_list rwq_inv
proof unfold_locales
  fix q :: "'a rwq" and x :: 'a
  assume "rwq_inv q"
  then obtain as cs where l: "layout q as cs" by (auto simp: rwq_inv_def)
  show "rwq_inv (rwq_enqueue x q)" and "queue_list (rwq_enqueue x q) = queue_list q @ [x]"
    using inner_enqueue_layout [OF l, where canAlloc = True and x = x] by (auto simp: rwq_enqueue_def split: prod.splits if_splits)
  show "\<exists>q'. rwq_try_dequeue q = Inr (case queue_list q of [] \<Rightarrow> None | x # _ \<Rightarrow> Some x, q') \<and>
      rwq_inv q' \<and> queue_list q' = tl (queue_list q)"
    by (rule try_dequeue_layout [OF l])
qed

section \<open>Properties\<close>

text \<open>C1: on any sequence of enqueues and dequeues, started on a new queue, the block
  implementation returns exactly what a list used first-in first-out returns and
  ends with the same elements; no dequeue ever reads a slot that holds no element.\<close>

theorem rwq_refines_fifo:
  assumes "1 \<le> n" and "n < 2 ^ 63"
  shows "\<exists>q'. run_ops rwq_enqueue rwq_try_dequeue ops (new_ReaderWriterQueue n) =
      Inr (fst (spec_ops ops []), q') \<and> queue_list q' = snd (spec_ops ops [])"
proof -
  have "rwq_inv (new_ReaderWriterQueue n :: 'a rwq)"
    using new_queue_layout(1) [OF assms] by blast
  from rw.run_ops_refines [OF this, of ops] show ?thesis
    using new_queue_layout(2) [OF assms, where 'a = 'a] by auto
qed

theorem rwq_refines_fifo_witness:
  "\<exists>q'. run_ops rwq_enqueue rwq_try_dequeue
      [Enq (1 :: nat), Enq 2, Enq 3, Enq 4, Deq, Enq 5, Deq, Deq, Deq, Deq, Deq] (new_ReaderWriterQueue 1) =
      Inr ([Some 1, Some 2, Some 3, Some 4, Some 5, None], q') \<and> queue_list q' = []"
  using rwq_refines_fifo
    [of 1 "[Enq (1 :: nat), Enq 2, Enq 3, Enq 4, Deq, Enq 5, Deq, Deq, Deq, Deq, Deq]"]
  by simp

text \<open>C12: \<^verbatim>\<open>ceilToPow2\<close> rounds up to the next power of two for every argument a
  \<^verbatim>\<open>size_t\<close> can round: the result is a power of two, not below the argument and
  below twice the argument.\<close>

theorem ceilToPow2_least:
  assumes "1 \<le> unat x" and "unat x \<le> 2 ^ 63"
  shows "\<exists>k. unat (ceilToPow2 x) = 2 ^ k \<and> unat x \<le> 2 ^ k \<and> 2 ^ k < 2 * unat x"
  using assms by (rule ceilToPow2_power)

theorem ceilToPow2_least_witness:
  "\<exists>k. unat (ceilToPow2 101) = 2 ^ k \<and> (101 :: nat) \<le> 2 ^ k \<and> (2 :: nat) ^ k < 202"
  using ceilToPow2_least [of 101] by simp

text \<open>Storing elements without allocating, until one does not fit.\<close>

fun try_enqueue_all :: "'a list \<Rightarrow> 'a rwq \<Rightarrow> bool \<times> 'a rwq" where
  "try_enqueue_all [] q = (True, q)"
| "try_enqueue_all (x # xs) q =
     (let (r, q') = try_enqueue x q in if r then try_enqueue_all xs q' else (False, q'))"

lemma length_items: "block_ok b \<Longrightarrow> length (items b) = (tail b + block_size b - front b) mod block_size b"
  by (simp add: items_def)

lemma items_less_room:
  assumes "block_ok b" and "Suc (length (items b)) < block_size b"
  shows "(tail b + 1) mod block_size b \<noteq> front b"
  using ring_room [of "front b" "block_size b" "tail b"] assms length_items [OF assms(1)]
  by (auto simp: block_ok_def)

lemma try_enqueue_room:
  assumes l: "layout q [] []" and room: "Suc (length (queue_list q)) < block_size (get_block q (tailBlock q))"
  shows "\<exists>q'. try_enqueue x q = (True, q') \<and> layout q' [] [] \<and> length (store q') = length (store q) \<and>
    block_size (get_block q' (tailBlock q')) = block_size (get_block q (tailBlock q)) \<and>
    queue_list q' = queue_list q @ [x]"
proof -
  let ?t = "get_block q (tailBlock q)"
  have i: "tailBlock q < length (store q)" by (rule layout_lt [OF l]) simp
  note ok = layout_ok [OF l i]
  have "length (items ?t) = length (queue_list q)" using queue_list_layout [OF l] by simp
  then have r: "(tail ?t + 1) mod block_size ?t \<noteq> front ?t"
    using items_less_room [OF ok] room by simp
  have "try_enqueue x q = (True, set_block q (tailBlock q)
      (?t\<lparr>slots := (slots ?t)[tail ?t := Some x], tail := (tail ?t + 1) mod block_size ?t\<rparr>))"
    using r and_sizeMask [OF ok] by (simp add: try_enqueue_def inner_enqueue_def Let_def)
  then show ?thesis
    using enqueue_room [OF l refl r refl, of x] by (simp add: get_set_block [OF i])
qed

lemma try_enqueue_all_room:
  assumes "layout q [] []"
    and "length (queue_list q) + length xs < block_size (get_block q (tailBlock q))"
  shows "\<exists>q'. try_enqueue_all xs q = (True, q') \<and> length (store q') = length (store q) \<and>
    queue_list q' = queue_list q @ xs"
  using assms
proof (induction xs arbitrary: q)
  case Nil
  then show ?case by simp
next
  case (Cons x xs)
  from try_enqueue_room [OF Cons.prems(1), of x] Cons.prems(2) obtain q1 where
    q1: "try_enqueue x q = (True, q1)" "layout q1 [] []" "length (store q1) = length (store q)"
      "block_size (get_block q1 (tailBlock q1)) = block_size (get_block q (tailBlock q))"
      "queue_list q1 = queue_list q @ [x]"
    by auto
  then show ?case using Cons.IH [of q1] Cons.prems(2) by auto
qed

text \<open>C13: a queue constructed for \<open>maxSize\<close> elements takes \<open>maxSize\<close> elements without
  allocating another block: each of that many \<^verbatim>\<open>try_enqueue\<close> calls returns true.\<close>

theorem rwq_capacity:
  assumes "1 \<le> n" and "n < 2 ^ 63" and "length xs \<le> n"
  shows "\<exists>q'. try_enqueue_all xs (new_ReaderWriterQueue n) = (True, q') \<and>
    length (store q') = 1 \<and> queue_list q' = xs"
proof -
  let ?q = "new_ReaderWriterQueue n :: 'a rwq"
  obtain k where k: "unat (ceilToPow2 (of_nat (n + 1))) = 2 ^ k" "n + 1 \<le> 2 ^ k"
    using new_queue_size [OF assms(1,2)] by blast
  have "block_size (get_block ?q (tailBlock ?q)) = 2 ^ k" "length (store ?q) = 1"
    unfolding new_ReaderWriterQueue_def Let_def k(1) by (simp_all add: get_block_def new_Block_def)
  then show ?thesis
    using try_enqueue_all_room [OF new_queue_layout(1) [OF assms(1,2)], of xs]
      new_queue_layout(2) [OF assms(1,2), where 'a = 'a] k(2) assms(3) by auto
qed

theorem rwq_capacity_witness:
  "\<exists>q'. try_enqueue_all [''a'', ''b'', ''c''] (new_ReaderWriterQueue 3) = (True, q') \<and>
    length (store q') = 1 \<and> queue_list q' = [''a'', ''b'', ''c'']"
  using rwq_capacity [of 3 "[''a'', ''b'', ''c'']"] by simp

end
