(* ===== verification/LockedQueue.thy ===== *)
theory LockedQueue
  imports ReaderWriterQueue
begin

text \<open>
  \<^verbatim>\<open>LockedQueue\<close> of \<^verbatim>\<open>src/webapp/include/Webapp.h\<close>: a \<^verbatim>\<open>ReaderWriterQueue\<close> with a
  counter under a mutex, a condition variable and an abort flag.

  The methods are given twice.  \<open>lq_enqueue\<close>, \<open>lq_dequeue\<close> and \<open>lq_try_dequeue\<close> are
  the methods run to completion by one thread (\<open>Blocks\<close>: the call does not return).
  \<open>lq_step\<close> is the interleaving of any number of threads, one step per critical
  section or queue access, in the order of the source; \<^verbatim>\<open>cv.wait\<close> puts the thread to
  sleep until a \<^verbatim>\<open>notify_one\<close> picks it or it wakes up spuriously.  The accesses to the
  underlying queue are atomic steps.

  The ghost fields \<open>puts\<close> and \<open>gets\<close> record the elements in the order in which they
  entered and left the underlying queue.
\<close>

section \<open>The methods\<close>

record 'a lq =
  aborted :: bool
  count :: nat
  queue :: "'a rwq"

definition new_LockedQueue :: "nat \<Rightarrow> 'a lq" where
  "new_LockedQueue sz =
     \<lparr>aborted = False, count = 0, queue = new_ReaderWriterQueue (if sz = 0 then 100 else sz)\<rparr>"

datatype 'a call_result = Returned "'a option" | Blocks

definition lq_enqueue :: "'a \<Rightarrow> 'a lq \<Rightarrow> 'a lq" where
  "lq_enqueue x s =
     (if aborted s then s
      else s\<lparr>queue := rwq_enqueue x (queue s), count := count s + 1\<rparr>)"

definition lq_dequeue :: "'a lq \<Rightarrow> ('a call_result \<times> 'a lq) res" where
  "lq_dequeue s =
     (if aborted s then Inr (Returned None, s)
      else if count s = 0 then Inr (Blocks, s)
      else bind_res (rwq_try_dequeue (queue s)) (\<lambda>(r, q).
           Inr (Returned r, s\<lparr>count := count s - 1, queue := q\<rparr>)))"

definition lq_try_dequeue :: "'a lq \<Rightarrow> ('a option \<times> 'a lq) res" where
  "lq_try_dequeue s =
     (if aborted s then Inr (None, s)
      else bind_res (rwq_try_dequeue (queue s)) (\<lambda>(r, q).
           let s' = s\<lparr>queue := q\<rparr> in
           Inr (r, if r \<noteq> None \<and> count s' \<noteq> 0 then s'\<lparr>count := count s' - 1\<rparr> else s')))"

section \<open>Threads\<close>

datatype 'a op = OpEnq 'a | OpDeq | OpTry

datatype 'a pc =
    Idle
  | EnqPut 'a      \<comment> \<open>past the abort check of \<^verbatim>\<open>enqueue\<close>\<close>
  | EnqSignal      \<comment> \<open>about to take the mutex and count the element\<close>
  | DeqWait        \<comment> \<open>holding the mutex, at the loop condition of \<^verbatim>\<open>dequeue\<close>\<close>
  | DeqSleep       \<comment> \<open>inside \<^verbatim>\<open>cv.wait\<close>\<close>
  | DeqTake        \<comment> \<open>counted out, about to take an element\<close>
  | TryTake        \<comment> \<open>past the abort check of \<^verbatim>\<open>try_dequeue\<close>\<close>
  | TryCount       \<comment> \<open>took an element, about to count it out\<close>

record 'a sys =
  lq_of :: "'a lq"
  pcs :: "'a pc list"
  puts :: "'a list"
  gets :: "'a list"

definition goto :: "'a sys \<Rightarrow> nat \<Rightarrow> 'a pc \<Rightarrow> 'a sys" where
  "goto s i p = s\<lparr>pcs := (pcs s)[i := p]\<rparr>"

definition at_pc :: "'a sys \<Rightarrow> nat \<Rightarrow> 'a pc \<Rightarrow> bool" where
  "at_pc s i p \<longleftrightarrow> i < length (pcs s) \<and> pcs s ! i = p"

definition set_lq :: "'a sys \<Rightarrow> 'a lq \<Rightarrow> 'a sys" where
  "set_lq s l = s\<lparr>lq_of := l\<rparr>"

text \<open>\<open>may i op\<close> says which operations thread \<open>i\<close> calls.\<close>

inductive lq_step :: "(nat \<Rightarrow> 'a op \<Rightarrow> bool) \<Rightarrow> 'a sys \<Rightarrow> 'a sys \<Rightarrow> bool"
  for may :: "nat \<Rightarrow> 'a op \<Rightarrow> bool" where
  enq_start: "at_pc s i Idle \<Longrightarrow> may i (OpEnq x) \<Longrightarrow> \<not> aborted (lq_of s) \<Longrightarrow>
    lq_step may s (goto s i (EnqPut x))"
| enq_put: "at_pc s i (EnqPut x) \<Longrightarrow>
    lq_step may s (goto (set_lq s ((lq_of s)\<lparr>queue := rwq_enqueue x (queue (lq_of s))\<rparr>)
      \<lparr>puts := puts s @ [x]\<rparr>) i EnqSignal)"
| enq_signal: "at_pc s i EnqSignal \<Longrightarrow> \<forall>j. \<not> at_pc s j DeqSleep \<Longrightarrow>
    lq_step may s (goto (set_lq s ((lq_of s)\<lparr>count := count (lq_of s) + 1\<rparr>)) i Idle)"
| enq_notify: "at_pc s i EnqSignal \<Longrightarrow> at_pc s j DeqSleep \<Longrightarrow>
    lq_step may s (goto (goto (set_lq s ((lq_of s)\<lparr>count := count (lq_of s) + 1\<rparr>)) i Idle) j DeqWait)"
| deq_start: "at_pc s i Idle \<Longrightarrow> may i OpDeq \<Longrightarrow> \<not> aborted (lq_of s) \<Longrightarrow>
    lq_step may s (goto s i DeqWait)"
| deq_sleep: "at_pc s i DeqWait \<Longrightarrow> count (lq_of s) = 0 \<Longrightarrow> lq_step may s (goto s i DeqSleep)"
| deq_spurious: "at_pc s i DeqSleep \<Longrightarrow> lq_step may s (goto s i DeqWait)"
| deq_claim: "at_pc s i DeqWait \<Longrightarrow> count (lq_of s) \<noteq> 0 \<Longrightarrow>
    lq_step may s (goto (set_lq s ((lq_of s)\<lparr>count := count (lq_of s) - 1\<rparr>)) i DeqTake)"
| deq_take: "at_pc s i DeqTake \<Longrightarrow> rwq_try_dequeue (queue (lq_of s)) = Inr (r, q) \<Longrightarrow>
    lq_step may s (goto (set_lq s ((lq_of s)\<lparr>queue := q\<rparr>)
      \<lparr>gets := gets s @ (case r of None \<Rightarrow> [] | Some x \<Rightarrow> [x])\<rparr>) i Idle)"
| try_start: "at_pc s i Idle \<Longrightarrow> may i OpTry \<Longrightarrow> \<not> aborted (lq_of s) \<Longrightarrow>
    lq_step may s (goto s i TryTake)"
| try_take: "at_pc s i TryTake \<Longrightarrow> rwq_try_dequeue (queue (lq_of s)) = Inr (r, q) \<Longrightarrow>
    lq_step may s (goto (set_lq s ((lq_of s)\<lparr>queue := q\<rparr>)
      \<lparr>gets := gets s @ (case r of None \<Rightarrow> [] | Some x \<Rightarrow> [x])\<rparr>) i
      (case r of None \<Rightarrow> Idle | Some _ \<Rightarrow> TryCount))"
| try_count: "at_pc s i TryCount \<Longrightarrow>
    lq_step may s (goto (set_lq s ((lq_of s)\<lparr>count :=
      (if count (lq_of s) \<noteq> 0 then count (lq_of s) - 1 else 0)\<rparr>)) i Idle)"
| set_aborted: "lq_step may s (set_lq s ((lq_of s)\<lparr>aborted := True\<rparr>))"

text \<open>The step that sets the flag is the first statement of \<^verbatim>\<open>Worker_ClearCache\<close> and
  \<^verbatim>\<open>Worker_Shutdown\<close>; their \<^verbatim>\<open>enqueue(NULL)\<close> then returns at the abort check.\<close>

definition init_sys :: "nat \<Rightarrow> nat \<Rightarrow> 'a sys" where
  "init_sys sz threads =
     \<lparr>lq_of = new_LockedQueue sz, pcs = replicate threads Idle, puts = [], gets = []\<rparr>"

inductive reachable :: "(nat \<Rightarrow> 'a op \<Rightarrow> bool) \<Rightarrow> 'a sys \<Rightarrow> 'a sys \<Rightarrow> bool"
  for may :: "nat \<Rightarrow> 'a op \<Rightarrow> bool" and s0 :: "'a sys" where
  start: "reachable may s0 s0"
| step: "reachable may s0 s \<Longrightarrow> lq_step may s t \<Longrightarrow> reachable may s0 t"

section \<open>Counting threads\<close>

definition pending :: "'a pc \<Rightarrow> nat" where
  "pending p = (case p of EnqSignal \<Rightarrow> 1 | DeqTake \<Rightarrow> 1 | _ \<Rightarrow> 0)"

lemma pending_simps [simp]:
  "pending Idle = 0" "pending (EnqPut x) = 0" "pending EnqSignal = 1" "pending DeqWait = 0"
  "pending DeqSleep = 0" "pending DeqTake = 1" "pending TryTake = 0" "pending TryCount = 0"
  by (simp_all add: pending_def)

primrec total :: "'a pc list \<Rightarrow> nat" where
  "total [] = 0"
| "total (p # ps) = pending p + total ps"

lemma total_update:
  "i < length ps \<Longrightarrow> total (ps[i := p]) + pending (ps ! i) = total ps + pending p"
proof (induction ps arbitrary: i)
  case Nil
  then show ?case by simp
next
  case (Cons a ps)
  then show ?case by (cases i) auto
qed

lemma total_ge: "i < length ps \<Longrightarrow> pending (ps ! i) \<le> total ps"
  using total_update [of i ps Idle] by simp

lemma goto_sel [simp]:
  "lq_of (goto s i p) = lq_of s" "puts (goto s i p) = puts s" "gets (goto s i p) = gets s"
  "pcs (goto s i p) = (pcs s)[i := p]"
  "length (pcs (goto s i p)) = length (pcs s)"
  by (simp_all add: goto_def)

lemma set_lq_sel [simp]:
  "lq_of (set_lq s l) = l" "puts (set_lq s l) = puts s" "gets (set_lq s l) = gets s"
  "pcs (set_lq s l) = pcs s"
  by (simp_all add: set_lq_def)

lemma total_goto: "at_pc s i p \<Longrightarrow> total (pcs (goto s i p')) + pending p = total (pcs s) + pending p'"
  using total_update [of i "pcs s" p'] by (simp add: at_pc_def)

section \<open>Invariants\<close>

definition fifo_inv :: "'a sys \<Rightarrow> bool" where
  "fifo_inv s \<longleftrightarrow>
     rwq_inv (queue (lq_of s)) \<and> puts s = gets s @ queue_list (queue (lq_of s))"

lemma fifo_inv_step: "lq_step may s t \<Longrightarrow> fifo_inv s \<Longrightarrow> fifo_inv t"
proof (induction rule: lq_step.induct)
  case (deq_take s i r q)
  then show ?case
    using rw.deq_cases [of "queue (lq_of s)" r q] by (cases r) (auto simp: fifo_inv_def)
next
  case (try_take s i r q)
  then show ?case
    using rw.deq_cases [of "queue (lq_of s)" r q] by (cases r) (auto simp: fifo_inv_def)
qed (auto simp: fifo_inv_def rw.inv_enq rw.contents_enq)

lemma fifo_inv_init: "sz < 2 ^ 63 \<Longrightarrow> fifo_inv (init_sys sz n :: 'a sys)"
  using new_queue_layout [of "if sz = 0 then 100 else sz", where 'a = 'a]
  by (auto simp: fifo_inv_def init_sys_def new_LockedQueue_def)

lemma reachable_fifo_inv: "reachable may s0 s \<Longrightarrow> fifo_inv s0 \<Longrightarrow> fifo_inv s"
  by (induction rule: reachable.induct) (auto intro: fifo_inv_step)

text \<open>When every consumer uses \<^verbatim>\<open>dequeue\<close>, the counter and the queue agree up to the
  threads that are between their two accesses.\<close>

definition count_inv :: "'a sys \<Rightarrow> bool" where
  "count_inv s \<longleftrightarrow>
     fifo_inv s \<and> TryTake \<notin> set (pcs s) \<and> TryCount \<notin> set (pcs s) \<and>
     length (queue_list (queue (lq_of s))) = count (lq_of s) + total (pcs s)"

lemma at_pc_in_set: "at_pc s i p \<Longrightarrow> p \<in> set (pcs s)"
  by (auto simp: at_pc_def)

lemma in_set_update: "p \<in> set (xs[i := p']) \<Longrightarrow> p = p' \<or> p \<in> set xs"
  using set_update_subset_insert [of xs i p'] by auto

lemma count_inv_nonempty:
  assumes "count_inv s" and "at_pc s i DeqTake"
  shows "\<exists>x xs. queue_list (queue (lq_of s)) = x # xs"
proof -
  have "1 \<le> total (pcs s)" using assms(2) total_ge [of i "pcs s"] by (auto simp: at_pc_def)
  then have "1 \<le> length (queue_list (queue (lq_of s)))" using assms(1) by (simp add: count_inv_def)
  then show ?thesis by (cases "queue_list (queue (lq_of s))") auto
qed

lemma count_inv_step:
  assumes step: "lq_step may s t" and inv: "count_inv s" and no_try: "\<forall>i. \<not> may i OpTry"
  shows "count_inv t"
proof -
  have f: "fifo_inv t" using step inv fifo_inv_step by (auto simp: count_inv_def)
  have n: "TryTake \<notin> set (pcs t) \<and> TryCount \<notin> set (pcs t)"
    using step inv no_try
    by (induction rule: lq_step.induct)
      (auto simp: count_inv_def dest: at_pc_in_set dest!: in_set_update)
  from step have "length (queue_list (queue (lq_of t))) = count (lq_of t) + total (pcs t)"
    using inv no_try
  proof (induction rule: lq_step.induct)
    case (enq_put s i x)
    then show ?case
      using total_goto [OF enq_put.hyps, of EnqSignal]
      by (simp add: count_inv_def fifo_inv_def rw.contents_enq)
  next
    case (enq_notify s i j)
    have ne: "j \<noteq> i" using enq_notify.hyps by (auto simp: at_pc_def)
    have "at_pc (goto s i Idle) j DeqSleep"
      using enq_notify.hyps ne by (simp add: at_pc_def)
    from total_goto [OF this, of DeqWait] total_goto [OF enq_notify.hyps(1), of Idle]
    show ?case using enq_notify.prems by (simp add: count_inv_def)
  next
    case (deq_take s i r q)
    obtain x xs where x: "queue_list (queue (lq_of s)) = x # xs"
      using count_inv_nonempty [OF deq_take.prems(1) deq_take.hyps(1)] by blast
    then have "r = Some x" "queue_list q = xs"
      using rw.deq_cases [of "queue (lq_of s)" r q] deq_take
      by (auto simp: count_inv_def fifo_inv_def split: option.splits)
    then show ?case
      using total_goto [OF deq_take.hyps(1), of Idle] deq_take.prems x by (simp add: count_inv_def)
  next
    case (enq_start s i x)
    then show ?case using total_goto [OF enq_start.hyps(1), of "EnqPut x"] by (simp add: count_inv_def)
  next
    case (enq_signal s i)
    then show ?case using total_goto [OF enq_signal.hyps(1), of Idle] by (simp add: count_inv_def)
  next
    case (deq_start s i)
    then show ?case using total_goto [OF deq_start.hyps(1), of DeqWait] by (simp add: count_inv_def)
  next
    case (deq_sleep s i)
    then show ?case using total_goto [OF deq_sleep.hyps(1), of DeqSleep] by (simp add: count_inv_def)
  next
    case (deq_spurious s i)
    then show ?case using total_goto [OF deq_spurious.hyps(1), of DeqWait] by (simp add: count_inv_def)
  next
    case (deq_claim s i)
    then show ?case using total_goto [OF deq_claim.hyps(1), of DeqTake] by (simp add: count_inv_def)
  next
    case (try_take s i r q)
    then show ?case by (auto simp: count_inv_def dest: at_pc_in_set)
  next
    case (try_count s i)
    then show ?case by (auto simp: count_inv_def dest: at_pc_in_set)
  qed (auto simp: count_inv_def)
  with f n show ?thesis by (simp add: count_inv_def)
qed

lemma total_replicate_Idle [simp]: "total (replicate n Idle) = 0"
  by (induction n) auto

lemma count_inv_init: "sz < 2 ^ 63 \<Longrightarrow> count_inv (init_sys sz n :: 'a sys)"
  using fifo_inv_init [of sz n, where 'a = 'a]
    new_queue_layout(2) [of "if sz = 0 then 100 else sz", where 'a = 'a]
  by (auto simp: count_inv_def init_sys_def new_LockedQueue_def)

lemma reachable_count_inv:
  "reachable may s0 s \<Longrightarrow> count_inv s0 \<Longrightarrow> \<forall>i. \<not> may i OpTry \<Longrightarrow> count_inv s"
  by (induction rule: reachable.induct) (auto intro: count_inv_step)

text \<open>With one consumer, \<open>c\<close>, a counted element never finds it asleep.\<close>

definition wake_inv :: "nat \<Rightarrow> 'a sys \<Rightarrow> bool" where
  "wake_inv c s \<longleftrightarrow>
     (\<forall>i. i \<noteq> c \<longrightarrow> \<not> at_pc s i DeqWait \<and> \<not> at_pc s i DeqSleep) \<and>
     (at_pc s c DeqSleep \<longrightarrow> count (lq_of s) = 0)"

lemma at_pc_goto:
  "at_pc (goto s i p') j p \<longleftrightarrow> (if j = i then i < length (pcs s) \<and> p' = p else at_pc s j p)"
  by (auto simp: at_pc_def)

lemma at_pc_lt: "at_pc s i p \<Longrightarrow> i < length (pcs s)"
  by (simp add: at_pc_def)

lemma at_pc_unique: "at_pc s i p \<Longrightarrow> at_pc s i p' \<longleftrightarrow> p' = p"
  by (auto simp: at_pc_def)

lemma at_pc_set_lq [simp]: "at_pc (set_lq s l) j p = at_pc s j p"
  by (simp add: at_pc_def)

lemma at_pc_ghost [simp]:
  "at_pc (s\<lparr>puts := ps\<rparr>) j p = at_pc s j p" "at_pc (s\<lparr>gets := gs\<rparr>) j p = at_pc s j p"
  by (simp_all add: at_pc_def)

lemma wake_inv_step:
  assumes "lq_step may s t" and "wake_inv c s" and "\<forall>i. i \<noteq> c \<longrightarrow> \<not> may i OpDeq"
  shows "wake_inv c t"
  using assms
proof (induction rule: lq_step.induct)
  case (enq_notify s i j)
  then have "j = c" by (auto simp: wake_inv_def)
  with enq_notify show ?case by (auto simp: wake_inv_def at_pc_goto)
next
  case (deq_start s i)
  then have "i = c" by auto
  with deq_start show ?case by (auto simp: wake_inv_def at_pc_goto)
next
  case (deq_sleep s i)
  then have "i = c" by (auto simp: wake_inv_def)
  with deq_sleep show ?case by (auto simp: wake_inv_def at_pc_goto)
next
  case (deq_spurious s i)
  then have "i = c" by (auto simp: wake_inv_def)
  with deq_spurious show ?case by (auto simp: wake_inv_def at_pc_goto)
next
  case (try_take s i r q)
  then show ?case by (auto simp: wake_inv_def at_pc_goto split: option.splits)
qed (auto simp: wake_inv_def at_pc_goto)

lemma wake_inv_init: "wake_inv c (init_sys sz n)"
  by (auto simp: wake_inv_def init_sys_def at_pc_def)

lemma reachable_wake_inv:
  "reachable may s0 s \<Longrightarrow> wake_inv c s0 \<Longrightarrow> \<forall>i. i \<noteq> c \<longrightarrow> \<not> may i OpDeq \<Longrightarrow> wake_inv c s"
  by (induction rule: reachable.induct) (auto intro: wake_inv_step)

text \<open>Once the queue is aborted with nothing counted and nothing on its way, a consumer
  inside \<^verbatim>\<open>dequeue\<close> stays there.\<close>

definition stranded :: "nat \<Rightarrow> 'a sys \<Rightarrow> bool" where
  "stranded c s \<longleftrightarrow>
     aborted (lq_of s) \<and> count (lq_of s) = 0 \<and>
     (\<forall>i. \<not> at_pc s i EnqSignal \<and> (\<forall>x. \<not> at_pc s i (EnqPut x))) \<and>
     (at_pc s c DeqWait \<or> at_pc s c DeqSleep)"

lemma stranded_step: "lq_step may s t \<Longrightarrow> stranded c s \<Longrightarrow> stranded c t"
proof (induction rule: lq_step.induct)
  case (deq_sleep s i)
  then show ?case by (auto simp: stranded_def at_pc_goto dest: at_pc_lt)
next
  case (deq_spurious s i)
  then show ?case by (auto simp: stranded_def at_pc_goto dest: at_pc_lt)
next
  case (try_take s i r q)
  then have "i \<noteq> c" by (auto simp: stranded_def at_pc_unique)
  with try_take show ?case by (auto simp: stranded_def at_pc_goto split: option.splits)
next
  case (deq_take s i r q)
  then have "i \<noteq> c" by (auto simp: stranded_def at_pc_unique)
  with deq_take show ?case by (auto simp: stranded_def at_pc_goto)
next
  case (try_count s i)
  then have "i \<noteq> c" by (auto simp: stranded_def at_pc_unique)
  with try_count show ?case by (auto simp: stranded_def at_pc_goto)
qed (auto simp: stranded_def)

lemma reachable_stranded: "reachable may s0 s \<Longrightarrow> stranded c s0 \<Longrightarrow> stranded c s"
  by (induction rule: reachable.induct) (auto intro: stranded_step)

section \<open>The methods, run to completion\<close>

definition lq_inv :: "'a lq \<Rightarrow> bool" where
  "lq_inv s \<longleftrightarrow> \<not> aborted s \<and> rwq_inv (queue s)"

definition lq_contents :: "'a lq \<Rightarrow> 'a list" where
  "lq_contents s = queue_list (queue s)"

text \<open>A queue used through \<^verbatim>\<open>enqueue\<close> and \<^verbatim>\<open>try_dequeue\<close>, as \<^verbatim>\<open>finished_requests\<close> is, meets
  the FIFO contract until it is aborted.\<close>

interpretation lqf: fifo lq_enqueue lq_try_dequeue lq_contents lq_inv
proof unfold_locales
  fix s :: "'a lq" and x :: 'a
  assume s: "lq_inv s"
  then show "lq_inv (lq_enqueue x s)" and "lq_contents (lq_enqueue x s) = lq_contents s @ [x]"
    by (simp_all add: lq_inv_def lq_enqueue_def lq_contents_def rw.inv_enq rw.contents_enq)
  from s obtain q where q: "rwq_try_dequeue (queue s) =
      Inr (case queue_list (queue s) of [] \<Rightarrow> None | x # _ \<Rightarrow> Some x, q)"
    "rwq_inv q" "queue_list q = tl (queue_list (queue s))"
    using rw.deq_hd [of "queue s"] by (auto simp: lq_inv_def)
  then show "\<exists>s'. lq_try_dequeue s = Inr (case lq_contents s of [] \<Rightarrow> None | x # _ \<Rightarrow> Some x, s') \<and>
      lq_inv s' \<and> lq_contents s' = tl (lq_contents s)"
    using s by (auto simp: lq_try_dequeue_def lq_inv_def lq_contents_def Let_def)
qed

lemma new_LockedQueue_inv:
  "sz < 2 ^ 63 \<Longrightarrow> lq_inv (new_LockedQueue sz :: 'a lq)"
  "sz < 2 ^ 63 \<Longrightarrow> lq_contents (new_LockedQueue sz :: 'a lq) = []"
  using new_queue_layout [of "if sz = 0 then 100 else sz", where 'a = 'a]
  by (auto simp: lq_inv_def lq_contents_def new_LockedQueue_def)

lemma lq_aborted_enqueue [simp]: "aborted s \<Longrightarrow> lq_enqueue x s = s"
  by (simp add: lq_enqueue_def)

section \<open>Properties\<close>


text \<open>A run of two threads: thread 0 enqueues 7, thread 1 dequeues.\<close>

definition sample_may :: "nat \<Rightarrow> nat op \<Rightarrow> bool" where
  "sample_may i op \<longleftrightarrow> (i = 0 \<and> op = OpEnq 7) \<or> (i = 1 \<and> op = OpDeq)"

definition sample_waiting :: "nat sys" where
  "sample_waiting = goto (goto (init_sys 1 2) 1 DeqWait) 1 DeqSleep"

definition sample_put :: "nat sys" where
  "sample_put = (let s = goto (init_sys 1 2) 0 (EnqPut 7) in
     goto (set_lq s ((lq_of s)\<lparr>queue := rwq_enqueue 7 (queue (lq_of s))\<rparr>)
       \<lparr>puts := puts s @ [7]\<rparr>) 0 EnqSignal)"

definition sample_counted :: "nat sys" where
  "sample_counted =
     goto (goto (set_lq sample_put ((lq_of sample_put)\<lparr>count := count (lq_of sample_put) + 1\<rparr>)) 0 Idle) 1 DeqWait"

definition sample_take :: "nat sys" where
  "sample_take =
     goto (set_lq sample_counted ((lq_of sample_counted)\<lparr>count := count (lq_of sample_counted) - 1\<rparr>)) 1 DeqTake"

lemma init_sys_sel [simp]:
  "pcs (init_sys sz n) = replicate n Idle" "count (lq_of (init_sys sz n)) = 0"
  "\<not> aborted (lq_of (init_sys sz n))" "puts (init_sys sz n) = []" "gets (init_sys sz n) = []"
  by (simp_all add: init_sys_def new_LockedQueue_def)

lemma sample_waiting_reachable: "reachable sample_may (init_sys 1 2) sample_waiting"
proof -
  have "lq_step sample_may (init_sys 1 2) (goto (init_sys 1 2) 1 DeqWait)"
    by (rule deq_start) (simp_all add: at_pc_def sample_may_def)
  moreover have "lq_step sample_may (goto (init_sys 1 2) 1 DeqWait) sample_waiting"
    unfolding sample_waiting_def by (rule deq_sleep) (simp_all add: at_pc_def)
  ultimately show ?thesis by (meson reachable.intros)
qed

lemma sample_put_sel [simp]:
  "pcs sample_put = [EnqSignal, Idle]" "\<not> aborted (lq_of sample_put)" "count (lq_of sample_put) = 0"
  by (simp_all add: sample_put_def Let_def numeral_2_eq_2)

lemma sample_counted_sel [simp]:
  "pcs sample_counted = [Idle, DeqWait]" "count (lq_of sample_counted) = 1"
  by (simp_all add: sample_counted_def)

lemma sample_counted_reachable: "reachable sample_may (init_sys 1 2) sample_counted"
proof -
  let ?a = "goto (init_sys 1 2) 0 (EnqPut 7) :: nat sys"
  let ?b = "goto (set_lq sample_put ((lq_of sample_put)\<lparr>count := count (lq_of sample_put) + 1\<rparr>)) 0 Idle"
  have "lq_step sample_may (init_sys 1 2) ?a"
    by (rule enq_start) (simp_all add: at_pc_def sample_may_def)
  moreover have "lq_step sample_may ?a sample_put"
    unfolding sample_put_def Let_def by (rule enq_put) (simp add: at_pc_def)
  moreover have "lq_step sample_may sample_put ?b"
    by (rule enq_signal) (simp add: at_pc_def, auto dest: at_pc_in_set)
  moreover have "lq_step sample_may ?b sample_counted"
    unfolding sample_counted_def by (rule deq_start) (simp_all add: at_pc_def sample_may_def)
  ultimately show ?thesis by (meson reachable.intros)
qed

lemma sample_take_reachable: "reachable sample_may (init_sys 1 2) sample_take"
proof -
  have "lq_step sample_may sample_counted sample_take"
    unfolding sample_take_def by (rule deq_claim) (simp_all add: at_pc_def)
  with sample_counted_reachable show ?thesis by (rule reachable.step)
qed




text \<open>C4: no wake-up is lost: with a single consumer, whenever an element is counted
  and the consumer is waiting for one, the consumer is awake and can take it in its
  next step.\<close>

theorem no_lost_wakeup:
  assumes "reachable may (init_sys sz n) s" and "\<forall>i. i \<noteq> c \<longrightarrow> \<not> may i OpDeq"
    and "at_pc s c DeqWait \<or> at_pc s c DeqSleep" and "count (lq_of s) \<noteq> 0"
  shows "at_pc s c DeqWait \<and> (\<exists>t. lq_step may s t \<and> at_pc t c DeqTake)"
proof -
  have "wake_inv c s" using reachable_wake_inv [OF assms(1) wake_inv_init assms(2)] .
  then have w: "at_pc s c DeqWait" using assms(3,4) by (auto simp: wake_inv_def)
  moreover have "at_pc (goto (set_lq s ((lq_of s)\<lparr>count := count (lq_of s) - 1\<rparr>)) c DeqTake) c DeqTake"
    using w by (simp add: at_pc_goto at_pc_lt)
  ultimately show ?thesis using lq_step.deq_claim [OF w assms(4), of may] by blast
qed

theorem no_lost_wakeup_witness:
  "count (lq_of sample_counted) \<noteq> 0 \<and> at_pc sample_counted 1 DeqWait \<and>
   (\<exists>t. lq_step sample_may sample_counted t \<and> at_pc t 1 DeqTake)"
proof -
  have "\<forall>i. i \<noteq> 1 \<longrightarrow> \<not> sample_may i OpDeq" by (simp add: sample_may_def)
  moreover have "at_pc sample_counted 1 DeqWait" by (simp add: at_pc_def)
  ultimately show ?thesis
    using no_lost_wakeup [OF sample_counted_reachable, of 1] by simp
qed

text \<open>C5: aborting does not wake the consumer: \<^verbatim>\<open>Worker_ClearCache\<close> and
  \<^verbatim>\<open>Worker_Shutdown\<close> set the flag before they call \<^verbatim>\<open>enqueue(NULL)\<close>, which therefore
  returns without counting anything.  From a state where the consumer waits, the queue
  is aborted, nothing is counted and no other \<^verbatim>\<open>enqueue\<close> is under way, no continuation
  ever takes the consumer out of \<^verbatim>\<open>dequeue\<close>.\<close>

theorem abort_strands_consumer:
  assumes "stranded c s" and "reachable may s t"
  shows "(at_pc t c DeqWait \<or> at_pc t c DeqSleep) \<and>
    count (lq_of t) = 0 \<and> lq_enqueue x (lq_of t) = lq_of t"
  using reachable_stranded [OF assms(2,1)] by (auto simp: stranded_def)

definition sample_stranded :: "nat sys" where
  "sample_stranded = set_lq sample_waiting ((lq_of sample_waiting)\<lparr>aborted := True\<rparr>)"

theorem abort_strands_consumer_witness:
  "reachable sample_may (init_sys 1 2) sample_stranded \<and>
   reachable sample_may sample_stranded (goto sample_stranded 1 DeqWait) \<and>
   (at_pc (goto sample_stranded 1 DeqWait) 1 DeqWait \<or> at_pc (goto sample_stranded 1 DeqWait) 1 DeqSleep) \<and>
   lq_enqueue 0 (lq_of sample_stranded) = lq_of sample_stranded"
proof -
  have p: "pcs sample_stranded = [Idle, DeqSleep]" "aborted (lq_of sample_stranded)"
    "count (lq_of sample_stranded) = 0"
    by (simp_all add: sample_stranded_def sample_waiting_def numeral_2_eq_2)
  have "lq_step sample_may sample_waiting sample_stranded"
    unfolding sample_stranded_def by (rule set_aborted)
  with sample_waiting_reachable have a: "reachable sample_may (init_sys 1 2) sample_stranded"
    by (rule reachable.step)
  have s: "stranded 1 sample_stranded"
    using p by (auto simp: stranded_def dest: at_pc_in_set) (simp add: at_pc_def)
  have "lq_step sample_may sample_stranded (goto sample_stranded 1 DeqWait)"
    by (rule deq_spurious) (simp add: at_pc_def p)
  then have r: "reachable sample_may sample_stranded (goto sample_stranded 1 DeqWait)"
    by (meson reachable.intros)
  from abort_strands_consumer [OF s r, of 0] a r show ?thesis by simp
qed

end
