(* ===== verification/Worker.thy ===== *)
theory Worker
  imports Request LockedQueue "HOL-Library.Multiset"
begin

text \<open>
  \<^verbatim>\<open>Worker\<close> of \<^verbatim>\<open>src/webapp/src/Workers.cpp\<close>: the pools of requests, the handlers of the
  connections a worker accepts, and the hooks through which its script takes, requeues
  and finishes requests (\<^verbatim>\<open>src/webapp/src/Hooks.cpp\<close>).

  A request is named by its pool and its index there.  \<open>pending\<close> holds the
  asynchronous operations that were started and have not completed: accepting on a
  request's socket, waiting for it to become readable, its timer, and posted calls.  An
  operation that was cancelled still completes, with \<^verbatim>\<open>operation_aborted\<close>.  \<open>held\<close> are the
  requests the script has taken and not yet given back.

  \<open>wstep\<close> is the worker as asio and the script drive it: one completion, or one call of
  the script, per step.  Whether a timer that was not cancelled may expire is a
  parameter of the relation, since an expiry is handled like readability.
\<close>

section \<open>State\<close>

type_synonym rid = "nat \<times> nat"

datatype io = Accept | ReadReady | Timer | Post

record pend =
  who :: rid
  what :: io
  cancelled :: bool

datatype ec = Success | Operation_aborted | Other_error

record worker =
  wq :: "rid lq"
  finished_requests :: "rid lq"
  request_pools :: "request list list"
  current_request :: int
  current_pool :: int
  request_size :: u32
  request_pool_size :: u32
  pending :: "pend list"
  held :: "rid list"

text \<open>The constructor: a pool size of 0 becomes 100, a request size of 0 becomes 1.\<close>

definition new_Worker :: "nat \<Rightarrow> u32 \<Rightarrow> u32 \<Rightarrow> worker" where
  "new_Worker queue_size pool_size req_size =
     \<lparr>wq = new_LockedQueue queue_size, finished_requests = new_LockedQueue queue_size,
      request_pools = [], current_request = 0, current_pool = 0,
      request_size = (if req_size = 0 then 1 else req_size),
      request_pool_size = (if pool_size = 0 then 100 else pool_size),
      pending = [], held = []\<rparr>"

definition get_request :: "worker \<Rightarrow> rid \<Rightarrow> request res" where
  "get_request w i =
     (if fst i < length (request_pools w) \<and> snd i < length (request_pools w ! fst i) then
        Inr (request_pools w ! fst i ! snd i)
      else Inl OutOfBounds)"

definition set_request :: "worker \<Rightarrow> rid \<Rightarrow> request \<Rightarrow> worker" where
  "set_request w i r =
     w\<lparr>request_pools := (request_pools w)[fst i := (request_pools w ! fst i)[snd i := r]]\<rparr>"

definition start :: "rid \<Rightarrow> io \<Rightarrow> worker \<Rightarrow> worker" where
  "start i x w = w\<lparr>pending := pending w @ [\<lparr>who = i, what = x, cancelled = False\<rparr>]\<rparr>"

text \<open>\<^verbatim>\<open>timer.cancel()\<close>, which \<^verbatim>\<open>expires_from_now\<close> also does, and \<^verbatim>\<open>Socket::abort\<close>, which
  cancels the operations of the socket; accepting is an operation of the acceptor.\<close>

definition cancel_timer :: "rid \<Rightarrow> worker \<Rightarrow> worker" where
  "cancel_timer i w = w\<lparr>pending :=
     map (\<lambda>x. if who x = i \<and> what x = Timer then x\<lparr>cancelled := True\<rparr> else x) (pending w)\<rparr>"

definition socket_abort :: "rid \<Rightarrow> worker \<Rightarrow> worker" where
  "socket_abort i w = w\<lparr>pending :=
     map (\<lambda>x. if who x = i \<and> (what x = ReadReady \<or> what x = Timer) then x\<lparr>cancelled := True\<rparr> else x) (pending w)\<rparr>"

section \<open>Handlers\<close>

text \<open>\<open>pool_ok\<close>: a new pool finds memory.  The loop that constructs its requests counts
  with an \<^verbatim>\<open>int\<close>.\<close>

definition accept_conn :: "bool \<Rightarrow> worker \<Rightarrow> worker res" where
  "accept_conn pool_ok w =
     bind_res (lq_try_dequeue (finished_requests w)) (\<lambda>(r, q).
       let w = w\<lparr>finished_requests := q\<rparr> in
       case r of
         None \<Rightarrow>
           if current_request w \<ge> int (unat (request_pool_size w)) \<or> current_request w = 0 then
             if \<not> pool_ok then Inl BadAlloc
             else if unat (request_pool_size w) \<ge> 2 ^ 31 then Inl SignedOverflow
             else (let w = w\<lparr>request_pools := request_pools w @
                          [replicate (unat (request_pool_size w)) new_Request]\<rparr>;
                  w = w\<lparr>current_pool := int (length (request_pools w)) - 1, current_request := 1\<rparr>
              in Inr (start (length (request_pools w) - 1, 0) Accept w))
           else
             (let i = (nat (current_pool w), nat (current_request w))
              in bind_res (get_request w i) (\<lambda>_.
                 Inr (start i Accept (w\<lparr>current_request := current_request w + 1\<rparr>))))
       | Some i \<Rightarrow>
           bind_res (get_request w i) (\<lambda>req.
           Inr (start i Accept (set_request w i (request_reset False req)))))"

definition read_request :: "rid \<Rightarrow> int \<Rightarrow> worker \<Rightarrow> worker" where
  "read_request i timeout_ms w =
     start i ReadReady (if timeout_ms > 0 then start i Timer (cancel_timer i w) else w)"

definition finish_request :: "rid \<Rightarrow> worker \<Rightarrow> worker" where
  "finish_request i w =
     (let w = socket_abort i w
      in w\<lparr>finished_requests := lq_enqueue i (finished_requests w)\<rparr>)"

text \<open>\<open>throws\<close>: \<^verbatim>\<open>read_request\<close> throws a \<^verbatim>\<open>system_error\<close>, before it has started an operation.\<close>

definition accept_conn_async :: "bool \<Rightarrow> rid \<Rightarrow> ec \<Rightarrow> bool \<Rightarrow> worker \<Rightarrow> worker res" where
  "accept_conn_async pool_ok i err throws w =
     (if err = Success then
        if \<not> throws then accept_conn pool_ok (read_request i 5000 w)
        else accept_conn pool_ok (finish_request i w)
      else accept_conn pool_ok w)"

definition worker_enqueue :: "rid \<Rightarrow> worker \<Rightarrow> worker" where
  "worker_enqueue i w = w\<lparr>wq := lq_enqueue i (wq w)\<rparr>"

definition process_msgpack_request ::
    "malloc \<Rightarrow> (nat \<Rightarrow> bool) \<Rightarrow> read_some \<Rightarrow> rid \<Rightarrow> ec \<Rightarrow> worker \<Rightarrow> worker res" where
  "process_msgpack_request mok alloc rs i err w =
     (if err = Success then
        let w = cancel_timer i w in
        bind_res (get_request w i) (\<lambda>r.
        bind_res (read_headers mok alloc (request_size w) rs r) (\<lambda>(out, r').
          let w = set_request w i r' in
          Inr (case out of
                 Complete \<Rightarrow> worker_enqueue i w
               | Incomplete \<Rightarrow> read_request i 5000 w
               | Thrown \<Rightarrow> finish_request i w)))
      else if err \<noteq> Operation_aborted then Inr (finish_request i w)
      else Inr w)"

text \<open>The script's side: \<^verbatim>\<open>Request_GetNext\<close>, \<^verbatim>\<open>Request_Queue\<close> and \<^verbatim>\<open>Request_Finish\<close>.\<close>

definition Request_GetNext :: "worker \<Rightarrow> (rid call_result \<times> worker) res" where
  "Request_GetNext w =
     bind_res (lq_dequeue (wq w)) (\<lambda>(r, q).
     Inr (r, w\<lparr>wq := q, held := (case r of Returned (Some i) \<Rightarrow> i # held w | _ \<Rightarrow> held w)\<rparr>))"

definition Request_Queue :: "rid \<Rightarrow> worker \<Rightarrow> worker" where
  "Request_Queue i w = start i Post (w\<lparr>held := remove1 i (held w)\<rparr>)"

definition Request_Finish :: "rid \<Rightarrow> worker \<Rightarrow> worker res" where
  "Request_Finish i w =
     bind_res (get_request w i) (\<lambda>r.
     Inr (read_request i 0 (set_request (w\<lparr>held := remove1 i (held w)\<rparr>) i (request_reset False r))))"

text \<open>\<^verbatim>\<open>Worker_ClearCache\<close>: with the flag set, \<^verbatim>\<open>enqueue(NULL)\<close> returns at once.\<close>

definition Worker_ClearCache :: "worker \<Rightarrow> worker" where
  "Worker_ClearCache w = w\<lparr>wq := (wq w)\<lparr>aborted := True\<rparr>\<rparr>"

section \<open>Steps\<close>

definition complete :: "pend \<Rightarrow> worker \<Rightarrow> worker" where
  "complete x w = w\<lparr>pending := remove1 x (pending w)\<rparr>"

inductive wstep :: "malloc \<Rightarrow> (nat \<Rightarrow> bool) \<Rightarrow> bool \<Rightarrow> worker \<Rightarrow> worker \<Rightarrow> bool"
  for mok :: malloc and alloc :: "nat \<Rightarrow> bool" and expiry :: bool where
  accepted: "\<lparr>who = i, what = Accept, cancelled = False\<rparr> \<in> set (pending w) \<Longrightarrow>
    accept_conn_async pool_ok i err throws (complete \<lparr>who = i, what = Accept, cancelled = False\<rparr> w) = Inr w' \<Longrightarrow>
    wstep mok alloc expiry w w'"
| readable: "\<lparr>who = i, what = ReadReady, cancelled = False\<rparr> \<in> set (pending w) \<Longrightarrow> err \<noteq> Operation_aborted \<Longrightarrow>
    process_msgpack_request mok alloc rs i err
      (complete \<lparr>who = i, what = ReadReady, cancelled = False\<rparr> w) = Inr w' \<Longrightarrow>
    wstep mok alloc expiry w w'"
| expired: "expiry \<Longrightarrow> \<lparr>who = i, what = Timer, cancelled = False\<rparr> \<in> set (pending w) \<Longrightarrow>
    process_msgpack_request mok alloc rs i Success
      (complete \<lparr>who = i, what = Timer, cancelled = False\<rparr> w) = Inr w' \<Longrightarrow>
    wstep mok alloc expiry w w'"
| aborted: "x \<in> set (pending w) \<Longrightarrow> cancelled x \<Longrightarrow> what x = ReadReady \<or> what x = Timer \<Longrightarrow>
    process_msgpack_request mok alloc rs (who x) Operation_aborted (complete x w) = Inr w' \<Longrightarrow>
    wstep mok alloc expiry w w'"
| posted: "\<lparr>who = i, what = Post, cancelled = False\<rparr> \<in> set (pending w) \<Longrightarrow>
    wstep mok alloc expiry w (worker_enqueue i (complete \<lparr>who = i, what = Post, cancelled = False\<rparr> w))"
| get_next: "Request_GetNext w = Inr (r, w') \<Longrightarrow> wstep mok alloc expiry w w'"
| requeue: "i \<in> set (held w) \<Longrightarrow> wstep mok alloc expiry w (Request_Queue i w)"
| finish: "i \<in> set (held w) \<Longrightarrow> Request_Finish i w = Inr w' \<Longrightarrow> wstep mok alloc expiry w w'"
| clear_cache: "wstep mok alloc expiry w (Worker_ClearCache w)"

inductive wreach :: "malloc \<Rightarrow> (nat \<Rightarrow> bool) \<Rightarrow> bool \<Rightarrow> worker \<Rightarrow> worker \<Rightarrow> bool"
  for mok :: malloc and alloc :: "nat \<Rightarrow> bool" and expiry :: bool and w0 :: worker where
  start: "wreach mok alloc expiry w0 w0"
| step: "wreach mok alloc expiry w0 w \<Longrightarrow> wstep mok alloc expiry w w' \<Longrightarrow> wreach mok alloc expiry w0 w'"


section \<open>Requests in circulation\<close>

text \<open>Where a request can be: in an operation whose completion will act on it, in one of
  the two queues, or with the script.  A timer only repeats what the wait for
  readability does.\<close>

definition active :: "pend \<Rightarrow> bool" where
  "active x \<longleftrightarrow> what x \<noteq> Timer \<and> \<not> cancelled x"

definition live_list :: "worker \<Rightarrow> rid list" where
  "live_list w = map who (filter active (pending w)) @
     lq_contents (wq w) @ lq_contents (finished_requests w) @ held w"

abbreviation live :: "worker \<Rightarrow> rid multiset" where
  "live w \<equiv> mset (live_list w)"

definition ids :: "worker \<Rightarrow> rid set" where
  "ids w = who ` set (pending w) \<union> set (live_list w)"

text \<open>A request is in use once a pool holds it and the cursor has passed it.\<close>

definition in_use :: "worker \<Rightarrow> rid \<Rightarrow> bool" where
  "in_use w i \<longleftrightarrow> fst i < length (request_pools w) \<and> snd i < unat (request_pool_size w) \<and>
     (int (fst i) = current_pool w \<longrightarrow> int (snd i) < current_request w)"

definition pools_inv :: "worker \<Rightarrow> bool" where
  "pools_inv w \<longleftrightarrow> 0 < unat (request_pool_size w) \<and> rwq_inv (queue (wq w)) \<and>
     lq_inv (finished_requests w) \<and>
     (\<forall>p \<in> set (request_pools w). length p = unat (request_pool_size w)) \<and>
     0 \<le> current_request w \<and> current_request w \<le> int (unat (request_pool_size w)) \<and>
     (request_pools w = [] \<longleftrightarrow> current_request w = 0) \<and>
     (request_pools w \<noteq> [] \<longrightarrow> current_pool w = int (length (request_pools w)) - 1)"

definition worker_inv :: "worker \<Rightarrow> bool" where
  "worker_inv w \<longleftrightarrow> pools_inv w \<and> (\<forall>i \<in> ids w. in_use w i)"

definition accepting :: "worker \<Rightarrow> nat" where
  "accepting w = length (filter (\<lambda>x. what x = Accept) (pending w))"


text \<open>What a piece of a handler does to the circulation: it adds at most the requests
  \<open>M\<close> to it and starts operations of the requests \<open>I\<close> only.\<close>

definition moves :: "worker \<Rightarrow> rid multiset \<Rightarrow> rid set \<Rightarrow> worker \<Rightarrow> bool" where
  "moves w M I w' \<longleftrightarrow> (pools_inv w \<longrightarrow> pools_inv w' \<and> (\<forall>i. in_use w i \<longrightarrow> in_use w' i) \<and>
     live w' \<subseteq># live w + M \<and> who ` set (pending w') \<subseteq> who ` set (pending w) \<union> I)"

lemma moves_refl: "moves w {#} {} w"
  by (simp add: moves_def)

lemma moves_trans:
  assumes "moves w M I w'" and "moves w' M' I' w''"
  shows "moves w (M + M') (I \<union> I') w''"
proof -
  have "live w'' \<subseteq># live w + (M + M')"
    if "live w'' \<subseteq># live w' + M'" "live w' \<subseteq># live w + M"
    using subset_mset.order_trans [OF that(1) subset_mset.add_right_mono [OF that(2)]]
    by (simp add: add.assoc)
  then show ?thesis using assms unfolding moves_def by blast
qed

lemma moves_mono: "moves w M J w' \<Longrightarrow> J \<subseteq> I \<Longrightarrow> moves w M I w'"
  unfolding moves_def by blast

lemma moves_start: "moves w (if x = Timer then {#} else {#i#}) {i} (start i x w)"
  by (auto simp: moves_def start_def pools_inv_def in_use_def live_list_def active_def)

lemma live_map_cancel:
  assumes "\<And>x. who (f x) = who x" and "\<And>x. active (f x) \<Longrightarrow> active x"
  shows "mset (map who (filter active (map f xs))) \<subseteq># mset (map who (filter active xs))"
proof (induction xs)
  case Nil
  then show ?case by simp
next
  case (Cons x xs)
  have "mset (map who (filter active (map f xs))) \<subseteq># add_mset a (mset (map who (filter active xs)))" for a
    using Cons.IH by (rule subset_mset.order_trans) simp
  then show ?case using Cons assms by auto
qed

lemma moves_map_cancel:
  assumes "\<And>x. who (f x) = who x" and "\<And>x. active (f x) \<Longrightarrow> active x"
  shows "moves w {#} {} (w\<lparr>pending := map f (pending w)\<rparr>)"
  using live_map_cancel [of f "pending w", OF assms] assms(1)
  by (auto simp: moves_def pools_inv_def in_use_def live_list_def)

lemma moves_cancel_timer: "moves w {#} {} (cancel_timer i w)"
  unfolding cancel_timer_def by (rule moves_map_cancel) (auto simp: active_def split: if_splits)

lemma moves_socket_abort: "moves w {#} {} (socket_abort i w)"
  unfolding socket_abort_def by (rule moves_map_cancel) (auto simp: active_def split: if_splits)

lemma set_request_sel [simp]:
  "wq (set_request w i r) = wq w" "finished_requests (set_request w i r) = finished_requests w"
  "current_request (set_request w i r) = current_request w"
  "current_pool (set_request w i r) = current_pool w"
  "request_size (set_request w i r) = request_size w"
  "request_pool_size (set_request w i r) = request_pool_size w"
  "pending (set_request w i r) = pending w" "held (set_request w i r) = held w"
  "length (request_pools (set_request w i r)) = length (request_pools w)"
  "request_pools (set_request w i r) = [] \<longleftrightarrow> request_pools w = []"
  by (simp_all add: set_request_def)

lemma set_request_lengths:
  "map length (request_pools (set_request w i r)) = map length (request_pools w)"
  by (cases "fst i < length (request_pools w)")
    (simp_all add: set_request_def map_update list_update_same_conv list_update_beyond)

lemma moves_set_request: "moves w {#} {} (set_request w i r)"
proof -
  have all_map: "(\<forall>p \<in> set ps. length p = k) \<longleftrightarrow> (\<forall>l \<in> set (map length ps). l = k)"
    for ps :: "request list list" and k
    by simp
  have "(\<forall>p \<in> set (request_pools (set_request w i r)). length p = k) \<longleftrightarrow>
      (\<forall>p \<in> set (request_pools w). length p = k)" for k
    unfolding all_map set_request_lengths ..
  then show ?thesis by (simp add: moves_def pools_inv_def in_use_def live_list_def)
qed

lemma moves_read_request: "moves w {#i#} {i} (read_request i t w)"
proof -
  have "moves w {#} {i} (start i Timer (cancel_timer i w))"
    using moves_trans [OF moves_cancel_timer moves_start [of _ Timer i]] by simp
  from moves_trans [OF this moves_start [of _ ReadReady i]]
    moves_start [of w ReadReady i]
  show ?thesis by (simp add: read_request_def)
qed

lemma moves_finished: "moves w {#i#} {} (w\<lparr>finished_requests := lq_enqueue i (finished_requests w)\<rparr>)"
  by (auto simp: moves_def pools_inv_def in_use_def live_list_def lqf.inv_enq lqf.contents_enq)

lemma moves_finish_request: "moves w {#i#} {} (finish_request i w)"
  using moves_trans [OF moves_socket_abort moves_finished] by (simp add: finish_request_def Let_def)

lemma moves_worker_enqueue: "moves w {#i#} {} (worker_enqueue i w)"
  by (auto simp: moves_def worker_enqueue_def pools_inv_def in_use_def live_list_def lq_enqueue_def
      lq_contents_def rw.inv_enq rw.contents_enq)

lemma moves_process:
  assumes "process_msgpack_request mok alloc rs i err w = Inr w'" and "err \<noteq> Operation_aborted"
  shows "moves w {#i#} {i} w'"
proof (cases "err = Success")
  case True
  with assms obtain r out r' where "w' = (case out of
      Complete \<Rightarrow> worker_enqueue i (set_request (cancel_timer i w) i r')
    | Incomplete \<Rightarrow> read_request i 5000 (set_request (cancel_timer i w) i r')
    | Thrown \<Rightarrow> finish_request i (set_request (cancel_timer i w) i r'))"
    by (auto simp: process_msgpack_request_def Let_def elim!: bind_res_Inr_E)
  moreover note s = moves_trans [OF moves_cancel_timer moves_set_request, of w i i r']
  ultimately show ?thesis
    using moves_mono [OF moves_trans [OF s moves_worker_enqueue [of _ i]], of "{i}"]
      moves_trans [OF s moves_read_request [of _ i 5000]]
      moves_mono [OF moves_trans [OF s moves_finish_request [of _ i]], of "{i}"]
    by (cases out) simp_all
next
  case False
  then show ?thesis using assms moves_finish_request [of w i]
    by (auto simp: process_msgpack_request_def moves_def)
qed


text \<open>A request that \<open>accept_conn\<close> waits with comes from the finished ones or is new.\<close>

lemma get_request_in_use: "pools_inv w \<Longrightarrow> in_use w i \<Longrightarrow> \<exists>r. get_request w i = Inr r"
  by (auto simp: pools_inv_def in_use_def get_request_def)

lemma pool_size_pos: "pools_inv w \<Longrightarrow> 1 \<le> uint (request_pool_size w)"
proof -
  assume "pools_inv w"
  then have "0 < unat (request_pool_size w)" by (simp add: pools_inv_def)
  moreover have "uint (request_pool_size w) = int (unat (request_pool_size w))" by simp
  ultimately show ?thesis by linarith
qed

lemma accept_conn_new_pool:
  assumes "pools_inv w"
    and "current_request w \<ge> int (unat (request_pool_size w)) \<or> current_request w = 0"
    and "w' = start (length (request_pools w), 0) Accept
      (w\<lparr>request_pools := request_pools w @ [replicate (unat (request_pool_size w)) new_Request],
         current_pool := int (length (request_pools w)), current_request := 1\<rparr>)"
  shows "moves w {#(length (request_pools w), 0)#} {(length (request_pools w), 0)} w'"
    and "in_use w' (length (request_pools w), 0)" and "\<not> in_use w (length (request_pools w), 0)"
proof -
  show "moves w {#(length (request_pools w), 0)#} {(length (request_pools w), 0)} w'"
    using assms pool_size_pos [OF assms(1)]
    by (auto simp: moves_def pools_inv_def start_def in_use_def live_list_def active_def)
  show "in_use w' (length (request_pools w), 0)" "\<not> in_use w (length (request_pools w), 0)"
    using assms(1,3) by (simp_all add: in_use_def start_def pools_inv_def)
qed

lemma accept_conn_next:
  assumes "pools_inv w" and "current_request w < int (unat (request_pool_size w))" and "current_request w \<noteq> 0"
    and "i = (nat (current_pool w), nat (current_request w))"
    and "w' = start i Accept (w\<lparr>current_request := current_request w + 1\<rparr>)"
  shows "moves w {#i#} {i} w'" and "in_use w' i" and "\<not> in_use w i" and "\<exists>r. get_request w i = Inr r"
proof -
  have l: "nat (current_pool w) < length (request_pools w)" "0 \<le> current_pool w"
    using assms(1,3) by (cases "request_pools w"; simp add: pools_inv_def)+
  show "moves w {#i#} {i} w'"
    using assms(1,2,3,5)
    by (auto simp: moves_def pools_inv_def start_def in_use_def live_list_def active_def)
  have "nat (current_request w) < unat (request_pool_size w)"
    using assms(1,2) by (simp add: pools_inv_def nat_less_iff)
  then show "in_use w' i" "\<not> in_use w i" "\<exists>r. get_request w i = Inr r"
    using assms l by (auto simp: in_use_def start_def pools_inv_def get_request_def)
qed

lemma moves_take_finished:
  assumes "lq_try_dequeue (finished_requests w) = Inr (r, q)" and "pools_inv w"
  shows "pools_inv (w\<lparr>finished_requests := q\<rparr>)"
    and "live w = live (w\<lparr>finished_requests := q\<rparr>) + (case r of None \<Rightarrow> {#} | Some i \<Rightarrow> {#i#})"
  using lqf.deq_cases [of "finished_requests w" r q] assms
  by (auto simp: pools_inv_def live_list_def split: option.splits)

lemma in_use_finished [simp]: "in_use (w\<lparr>finished_requests := q\<rparr>) i = in_use w i"
  by (simp add: in_use_def)

lemma accept_conn_moves:
  assumes acc: "accept_conn ok w = Inr w'" and inv: "worker_inv w"
  obtains i M where "moves w M {i} w'" "in_use w' i" "M = {#} \<or> M = {#i#} \<and> \<not> in_use w i"
proof -
  have p: "pools_inv w" using inv by (simp add: worker_inv_def)
  obtain r q where q: "lq_try_dequeue (finished_requests w) = Inr (r, q)"
    using acc by (auto simp: accept_conn_def elim!: bind_res_Inr_E)
  let ?w = "w\<lparr>finished_requests := q\<rparr>"
  note t = moves_take_finished [OF q p]
  have sub: "moves w M I w'" if "moves ?w M' I w'" "M' \<subseteq># (case r of None \<Rightarrow> {#} | Some i \<Rightarrow> {#i#}) + M" for M M' I
  proof -
    have "live w' \<subseteq># live ?w + M'" using that(1) t(1) by (simp add: moves_def)
    also have "\<dots> \<subseteq># live ?w + ((case r of None \<Rightarrow> {#} | Some i \<Rightarrow> {#i#}) + M)"
      using that(2) by (rule subset_mset.add_left_mono)
    finally have "live w' \<subseteq># live w + M" using t(2) by (simp add: ac_simps)
    then show ?thesis using that(1) t(1) by (auto simp: moves_def)
  qed
  show ?thesis
  proof (cases r)
    case None
    show ?thesis
    proof (cases "current_request w \<ge> int (unat (request_pool_size w)) \<or> current_request w = 0")
      case True
      then have "w' = start (length (request_pools ?w), 0) Accept
        (?w\<lparr>request_pools := request_pools ?w @ [replicate (unat (request_pool_size ?w)) new_Request],
           current_pool := int (length (request_pools ?w)), current_request := 1\<rparr>)"
        using acc q None by (auto simp: accept_conn_def Let_def split: if_splits)
      from accept_conn_new_pool [OF t(1) _ this] True None
      show ?thesis by (intro that [OF sub]) auto
    next
      case False
      then have "w' = start (nat (current_pool ?w), nat (current_request ?w)) Accept
          (?w\<lparr>current_request := current_request ?w + 1\<rparr>)"
        using acc q None by (auto simp: accept_conn_def Let_def elim!: bind_res_Inr_E)
      from accept_conn_next(1-3) [OF t(1) _ _ refl this] False None
      show ?thesis by (intro that [OF sub]) auto
    qed
  next
    case (Some i)
    then obtain req where w': "w' = start i Accept (set_request ?w i (request_reset False req))"
      using acc q by (auto simp: accept_conn_def Let_def elim!: bind_res_Inr_E)
    have m: "moves ?w {#i#} {i} w'"
      using moves_trans [OF moves_set_request moves_start [of _ Accept i]] w' by simp
    have "i \<in># live w" using t(2) Some by simp
    then have "in_use w i" using inv by (simp add: worker_inv_def ids_def)
    then have "in_use w' i" using m t(1) unfolding moves_def in_use_finished by blast
    then show ?thesis using sub [OF m, of "{#}"] Some by (intro that) auto
  qed
qed


section \<open>Invariants of the steps\<close>

lemma moves_worker_inv:
  assumes "moves w M I w'" and "worker_inv w" and "\<forall>i \<in> set_mset M \<union> I. in_use w' i"
  shows "worker_inv w'"
proof -
  have m: "pools_inv w'" "\<And>i. in_use w i \<Longrightarrow> in_use w' i" "live w' \<subseteq># live w + M"
    "who ` set (pending w') \<subseteq> who ` set (pending w) \<union> I"
    using assms(1,2) by (auto simp: moves_def worker_inv_def)
  have "set (live_list w') \<subseteq> set (live_list w) \<union> set_mset M"
    using set_mset_mono [OF m(3)] by simp
  then have "ids w' \<subseteq> ids w \<union> set_mset M \<union> I" using m(4) by (auto simp: ids_def)
  then show ?thesis using assms(2,3) m(1,2) by (auto simp: worker_inv_def)
qed

lemma filter_remove1_active: "\<not> active x \<Longrightarrow> filter active (remove1 x xs) = filter active xs"
  by (induction xs) auto

lemma mset_map_remove1: "x \<in> set xs \<Longrightarrow> active x \<Longrightarrow>
    add_mset (who x) (mset (map who (filter active (remove1 x xs)))) = mset (map who (filter active xs))"
  by (induction xs) auto

text \<open>Completing an operation takes its request out of circulation, if it acts on it.\<close>

lemma complete_live:
  "x \<in> set (pending w) \<Longrightarrow> live (complete x w) + (if active x then {#who x#} else {#}) = live w"
  using mset_map_remove1 [of x "pending w"]
  by (simp add: complete_def live_list_def filter_remove1_active)

lemma moves_complete:
  assumes "x \<in> set (pending w)"
  shows "moves w {#} {} (complete x w)"
proof -
  have "live (complete x w) \<subseteq># live w"
    unfolding complete_live [OF assms, symmetric] by (rule mset_subset_eq_add_left)
  moreover have "pools_inv (complete x w) = pools_inv w" "in_use (complete x w) = in_use w"
    by (simp_all add: pools_inv_def in_use_def complete_def fun_eq_iff)
  ultimately show ?thesis
    using set_remove1_subset [of x "pending w"] by (auto simp: moves_def complete_def)
qed

lemma complete_inv: "x \<in> set (pending w) \<Longrightarrow> worker_inv w \<Longrightarrow> worker_inv (complete x w)"
  using moves_worker_inv [OF moves_complete] by simp

text \<open>A step in the sense of the circulation: what it adds is new, unless a timer expired.\<close>

definition step_ok :: "bool \<Rightarrow> worker \<Rightarrow> worker \<Rightarrow> bool" where
  "step_ok expiry w w' \<longleftrightarrow> worker_inv w' \<and> (\<forall>i. in_use w i \<longrightarrow> in_use w' i) \<and>
     (\<not> expiry \<longrightarrow> (\<exists>M. live w' \<subseteq># live w + M \<and> (M = {#} \<or> (\<exists>i. M = {#i#} \<and> \<not> in_use w i))))"

text \<open>A handler that puts the request of the completed operation back at most once.\<close>

lemma step_ok_return:
  assumes "worker_inv w" and "in_use w i" and "moves w1 {#i#} {i} w'" and "worker_inv w1"
    and "live w1 + {#i#} \<subseteq># live w \<or> expiry" and "\<forall>i. in_use w1 i = in_use w i"
  shows "step_ok expiry w w'"
proof -
  have m: "live w' \<subseteq># live w1 + {#i#}" "\<And>i. in_use w1 i \<Longrightarrow> in_use w' i"
    using assms(3,4) by (auto simp: moves_def worker_inv_def)
  then have "in_use w' i" using assms(2,6) by simp
  then have "worker_inv w'" using moves_worker_inv [OF assms(3,4)] by simp
  moreover have "\<not> expiry \<Longrightarrow> live w' \<subseteq># live w + {#}"
    using m(1) assms(5) by (metis add.right_neutral subset_mset.order_trans)
  ultimately show ?thesis using m(2) assms(6) unfolding step_ok_def by blast
qed

lemma in_use_complete [simp]: "in_use (complete x w) i = in_use w i"
  by (simp add: in_use_def complete_def)

lemma in_use_held [simp]: "in_use (w\<lparr>held := h\<rparr>) i = in_use w i"
  by (simp add: in_use_def)

lemma pending_in_use: "worker_inv w \<Longrightarrow> x \<in> set (pending w) \<Longrightarrow> in_use w (who x)"
  by (auto simp: worker_inv_def ids_def)

lemma held_in_use: "worker_inv w \<Longrightarrow> i \<in> set (held w) \<Longrightarrow> in_use w i"
  by (auto simp: worker_inv_def ids_def live_list_def)

lemma accept_conn_async_ok:
  assumes "accept_conn_async ok i err throws (complete x w) = Inr w'" and "x \<in> set (pending w)"
    and "worker_inv w" and "who x = i" and "active x"
  shows "step_ok expiry w w'"
proof -
  let ?c = "complete x w"
  have c: "worker_inv ?c" using complete_inv assms(2,3) .
  have l: "live ?c + {#i#} = live w" using complete_live [OF assms(2)] assms(4,5) by simp
  obtain w1 where w1: "accept_conn ok w1 = Inr w'" "moves ?c {#i#} {i} w1"
    "\<And>j. in_use w1 j = in_use w j"
  proof -
    have u: "in_use (read_request i 5000 ?c) j = in_use w j" "in_use (finish_request i ?c) j = in_use w j" for j
      by (simp_all add: in_use_def read_request_def finish_request_def start_def cancel_timer_def
          socket_abort_def complete_def Let_def)
    have "moves ?c {#i#} {i} ?c" by (auto simp: moves_def)
    then show ?thesis
      using assms(1) u moves_read_request [of ?c i 5000] moves_mono [OF moves_finish_request [of ?c i], of "{i}"]
      by (intro that [of "if err \<noteq> Success then ?c else if throws then finish_request i ?c else read_request i 5000 ?c"])
        (auto simp: accept_conn_async_def split: if_splits)
  qed
  have "in_use w i" using pending_in_use [OF assms(3,2)] assms(4) by simp
  then have i1: "worker_inv w1" using moves_worker_inv [OF w1(2) c] w1(3) by simp
  have l1: "live w1 \<subseteq># live w" using w1(2) c l by (simp add: moves_def worker_inv_def)
  obtain j M where m: "moves w1 M {j} w'" "in_use w' j" "M = {#} \<or> M = {#j#} \<and> \<not> in_use w1 j"
    using accept_conn_moves [OF w1(1) i1] .
  have "worker_inv w'" using moves_worker_inv [OF m(1) i1] m(2,3) by auto
  moreover have "\<forall>i. in_use w i \<longrightarrow> in_use w' i"
    using m(1) i1 w1(3) unfolding moves_def worker_inv_def by blast
  moreover have "live w' \<subseteq># live w + M"
  proof (rule subset_mset.order_trans)
    show "live w' \<subseteq># live w1 + M" using m(1) i1 unfolding moves_def worker_inv_def by blast
    show "live w1 + M \<subseteq># live w + M" using l1 by (rule subset_mset.add_right_mono)
  qed
  ultimately show ?thesis using m(3) w1(3) unfolding step_ok_def by blast
qed


lemma process_aborted [simp]: "process_msgpack_request mok alloc rs i Operation_aborted w = Inr w"
  by (simp add: process_msgpack_request_def)

lemma lq_dequeue_contents:
  assumes "lq_dequeue q = Inr (r, q')" and "rwq_inv (queue q)"
  shows "rwq_inv (queue q') \<and> lq_contents q =
    (case r of Returned (Some i) \<Rightarrow> i # lq_contents q' | _ \<Rightarrow> lq_contents q')"
proof (cases "aborted q \<or> lq.count q = 0")
  case True
  then show ?thesis using assms by (auto simp: lq_dequeue_def split: if_splits)
next
  case False
  then obtain y q2 where y: "rwq_try_dequeue (queue q) = Inr (y, q2)" "r = Returned y"
    "q' = q\<lparr>count := lq.count q - 1, queue := q2\<rparr>"
    using assms(1) by (auto simp: lq_dequeue_def elim!: bind_res_Inr_E)
  then show ?thesis
    using rw.deq_cases [OF assms(2) y(1)] by (cases y) (simp_all add: lq_contents_def)
qed

lemma get_next_ok:
  assumes "Request_GetNext w = Inr (r, w')" and "worker_inv w"
  shows "step_ok expiry w w'"
proof -
  obtain q where q: "lq_dequeue (wq w) = Inr (r, q)"
    and w': "w' = w\<lparr>wq := q, held := (case r of Returned (Some i) \<Rightarrow> i # held w | _ \<Rightarrow> held w)\<rparr>"
    using assms(1) by (auto simp: Request_GetNext_def elim!: bind_res_Inr_E)
  have c: "rwq_inv (queue q)" "lq_contents (wq w) =
      (case r of Returned (Some i) \<Rightarrow> i # lq_contents q | _ \<Rightarrow> lq_contents q)"
    using lq_dequeue_contents [OF q] assms(2) by (auto simp: worker_inv_def pools_inv_def)
  have l: "live w' = live w"
    using c(2) by (auto simp: w' live_list_def split: call_result.splits option.splits)
  then have "set (live_list w') = set (live_list w)" by (metis set_mset_mset)
  then have "worker_inv w'"
    using assms(2) c(1) by (auto simp: worker_inv_def pools_inv_def ids_def in_use_def w')
  then show ?thesis using l by (auto simp: step_ok_def w' in_use_def)
qed

text \<open>The script gives a request back.\<close>

lemma unhold:
  assumes "worker_inv w" and "i \<in> set (held w)"
  shows "worker_inv (w\<lparr>held := remove1 i (held w)\<rparr>)"
    and "live (w\<lparr>held := remove1 i (held w)\<rparr>) + {#i#} = live w"
proof -
  show l: "live (w\<lparr>held := remove1 i (held w)\<rparr>) + {#i#} = live w"
    using assms(2) by (simp add: live_list_def)
  have "live (w\<lparr>held := remove1 i (held w)\<rparr>) \<subseteq># live w"
    by (subst l [symmetric]) (rule mset_subset_eq_add_left)
  moreover have "pools_inv (w\<lparr>held := remove1 i (held w)\<rparr>) = pools_inv w" by (simp add: pools_inv_def)
  ultimately have "moves w {#} {} (w\<lparr>held := remove1 i (held w)\<rparr>)" by (simp add: moves_def)
  from moves_worker_inv [OF this assms(1)]
  show "worker_inv (w\<lparr>held := remove1 i (held w)\<rparr>)" by simp
qed

lemma give_back_ok:
  assumes "worker_inv w" and "i \<in> set (held w)" and "moves (w\<lparr>held := remove1 i (held w)\<rparr>) {#i#} {i} w'"
  shows "step_ok expiry w w'"
proof (rule step_ok_return [OF assms(1) held_in_use [OF assms(1,2)] assms(3) unhold(1) [OF assms(1,2)]])
  show "live (w\<lparr>held := remove1 i (held w)\<rparr>) + {#i#} \<subseteq># live w \<or> expiry"
    unfolding unhold(2) [OF assms(1,2)] by simp
qed simp

text \<open>An operation completes and its handler puts its request back.\<close>

lemma completion_ok:
  assumes "worker_inv w" and "x \<in> set (pending w)" and "moves (complete x w) {#who x#} {who x} w'"
    and "active x \<or> expiry"
  shows "step_ok expiry w w'"
proof (rule step_ok_return [OF assms(1) pending_in_use [OF assms(1,2)] assms(3) complete_inv [OF assms(2,1)]])
  have "active x \<Longrightarrow> live (complete x w) + {#who x#} = live w" using complete_live [OF assms(2)] by simp
  then show "live (complete x w) + {#who x#} \<subseteq># live w \<or> expiry" using assms(4) by force
qed simp

lemma wstep_ok: "wstep mok alloc expiry w w' \<Longrightarrow> worker_inv w \<Longrightarrow> step_ok expiry w w'"
proof (induction rule: wstep.induct)
  case (accepted i w pool_ok err throws w')
  then show ?case by (auto intro: accept_conn_async_ok simp: active_def)
next
  case (readable i w err rs w')
  then show ?case
    using moves_process [OF readable.hyps(3,2)]
    by (intro completion_ok [OF readable.prems readable.hyps(1)]) (simp_all add: active_def)
next
  case (expired i w rs w')
  then show ?case
    using moves_process [OF expired.hyps(3)]
    by (intro completion_ok [OF expired.prems expired.hyps(2)]) simp_all
next
  case (aborted x w rs w')
  then have "w' = complete x w" "live w' = live w"
    using complete_live [of x w] by (auto simp: active_def)
  then show ?case using complete_inv [OF aborted.hyps(1) aborted.prems]
    by (auto simp: step_ok_def)
next
  case (posted i w)
  then show ?case
    by (intro completion_ok [OF posted.prems posted.hyps])
      (simp_all add: active_def moves_mono [OF moves_worker_enqueue])
next
  case (get_next w r w')
  then show ?case by (rule get_next_ok)
next
  case (requeue i w)
  then show ?case
    using moves_start [of "w\<lparr>held := remove1 i (held w)\<rparr>" Post i]
    by (intro give_back_ok) (simp_all add: Request_Queue_def)
next
  case (finish i w w')
  then obtain r where "w' = read_request i 0 (set_request (w\<lparr>held := remove1 i (held w)\<rparr>) i r)"
    by (auto simp: Request_Finish_def elim!: bind_res_Inr_E)
  then show ?case
    using moves_trans [OF moves_set_request [of "w\<lparr>held := remove1 i (held w)\<rparr>" i r]
        moves_read_request [of _ i 0]] finish
    by (intro give_back_ok) simp_all
next
  case (clear_cache w)
  then show ?case
    by (auto simp: step_ok_def Worker_ClearCache_def worker_inv_def pools_inv_def in_use_def ids_def
        live_list_def lq_contents_def)
qed


section \<open>Runs\<close>

lemma new_Worker_inv:
  assumes "sz < 2 ^ 63"
  shows "worker_inv (new_Worker sz p q)" and "live_list (new_Worker sz p q) = []"
proof -
  have "\<And>a. lq_inv a \<Longrightarrow> rwq_inv (queue a)" by (simp add: lq_inv_def)
  then have "pools_inv (new_Worker sz p q)"
    using new_LockedQueue_inv(1) [OF assms, where 'a = rid]
    by (auto simp: new_Worker_def pools_inv_def unat_gt_0)
  moreover show l: "live_list (new_Worker sz p q) = []"
    using new_LockedQueue_inv(2) [OF assms, where 'a = rid] by (simp add: live_list_def new_Worker_def)
  ultimately show "worker_inv (new_Worker sz p q)"
    by (simp add: worker_inv_def ids_def) (simp add: new_Worker_def)
qed

text \<open>\<open>started\<close>: the state after \<^verbatim>\<open>Worker::Start\<close> has called \<^verbatim>\<open>accept_conn\<close>.\<close>

definition started :: "nat \<Rightarrow> u32 \<Rightarrow> u32 \<Rightarrow> worker \<Rightarrow> bool" where
  "started sz p q w \<longleftrightarrow> sz < 2 ^ 63 \<and> (\<exists>ok. accept_conn ok (new_Worker sz p q) = Inr w)"

lemma distinct_sub: "mset xs \<subseteq># mset ys \<Longrightarrow> distinct ys \<Longrightarrow> distinct xs"
proof -
  assume "mset xs \<subseteq># mset ys"
  then obtain zs where "mset ys = mset (xs @ zs)"
    by (metis ex_mset mset_append subset_mset.less_eqE)
  then show "distinct ys \<Longrightarrow> distinct xs" using mset_eq_imp_distinct_iff distinct_append by blast
qed

lemma started_inv:
  assumes "started sz p q w"
  shows "worker_inv w" and "distinct (live_list w)"
proof -
  from assms obtain ok where s: "sz < 2 ^ 63" and ok: "accept_conn ok (new_Worker sz p q) = Inr w"
    by (auto simp: started_def)
  note n = new_Worker_inv [OF s, of p q]
  obtain i M where m: "moves (new_Worker sz p q) M {i} w" "in_use w i"
    "M = {#} \<or> M = {#i#} \<and> \<not> in_use (new_Worker sz p q) i"
    using accept_conn_moves [OF ok n(1)] .
  show "worker_inv w" using moves_worker_inv [OF m(1) n(1)] m(2,3) by auto
  have "live w \<subseteq># M" using m(1) n by (simp add: moves_def worker_inv_def)
  then have "live w \<subseteq># mset [i]" using m(3) by auto
  from distinct_sub [OF this] show "distinct (live_list w)" by simp
qed

lemma step_distinct:
  assumes "step_ok False w w'" and "worker_inv w" and "distinct (live_list w)"
  shows "distinct (live_list w')"
proof -
  obtain M where M: "live w' \<subseteq># live w + M" "M = {#} \<or> (\<exists>i. M = {#i#} \<and> \<not> in_use w i)"
    using assms(1) by (auto simp: step_ok_def)
  from M(2) show ?thesis
  proof
    assume "M = {#}"
    then show ?thesis using M(1) distinct_sub assms(3) by simp
  next
    assume "\<exists>i. M = {#i#} \<and> \<not> in_use w i"
    then obtain i where i: "M = {#i#}" "\<not> in_use w i" by blast
    then have "i \<notin> set (live_list w)" using assms(2) by (auto simp: worker_inv_def ids_def)
    then have "distinct (i # live_list w)" using assms(3) by simp
    moreover have "live w' \<subseteq># mset (i # live_list w)" using M(1) i(1) by simp
    ultimately show ?thesis using distinct_sub by blast
  qed
qed

lemma wreach_inv: "wreach mok alloc expiry w0 w \<Longrightarrow> worker_inv w0 \<Longrightarrow> worker_inv w"
  by (induction rule: wreach.induct) (auto simp: step_ok_def dest: wstep_ok)

lemma wreach_distinct:
  "wreach mok alloc False w0 w \<Longrightarrow> worker_inv w0 \<Longrightarrow> distinct (live_list w0) \<Longrightarrow> distinct (live_list w)"
  by (induction rule: wreach.induct) (auto intro: step_distinct wstep_ok wreach_inv)

text \<open>Exactly one accept is pending.\<close>

lemma accepting_map:
  "(\<And>x. what (f x) = what x) \<Longrightarrow> accepting (w\<lparr>pending := map f (pending w)\<rparr>) = accepting w"
  by (simp add: accepting_def filter_map comp_def)

lemma accepting_simps [simp]:
  "accepting (start i x w) = accepting w + (if x = Accept then 1 else 0)"
  "accepting (cancel_timer i w) = accepting w" "accepting (socket_abort i w) = accepting w"
  "accepting (set_request w i r) = accepting w" "accepting (worker_enqueue i w) = accepting w"
  "accepting (Worker_ClearCache w) = accepting w"
  unfolding cancel_timer_def socket_abort_def
  by (simp_all add: accepting_map) (simp_all add: accepting_def start_def worker_enqueue_def Worker_ClearCache_def)

lemma accepting_update [simp]:
  "accepting (w\<lparr>finished_requests := f\<rparr>) = accepting w" "accepting (w\<lparr>held := h\<rparr>) = accepting w"
  "accepting (w\<lparr>wq := u\<rparr>) = accepting w" "accepting (w\<lparr>current_request := k\<rparr>) = accepting w"
  "accepting (w\<lparr>current_pool := k\<rparr>) = accepting w" "accepting (w\<lparr>request_pools := ps\<rparr>) = accepting w"
  by (simp_all add: accepting_def)

lemma accepting_read_request [simp]: "accepting (read_request i t w) = accepting w"
  by (simp add: read_request_def)

lemma accepting_finish_request [simp]: "accepting (finish_request i w) = accepting w"
  by (simp add: finish_request_def Let_def)

lemma accepting_complete: "x \<in> set (pending w) \<Longrightarrow>
    accepting (complete x w) + (if what x = Accept then 1 else 0) = accepting w"
proof -
  have "x \<in> set xs \<Longrightarrow> length (filter P (remove1 x xs)) + (if P x then 1 else 0) = length (filter P xs)"
    for P and xs :: "pend list"
    by (induction xs) auto
  from this [of "pending w" "\<lambda>x. what x = Accept"]
  show "x \<in> set (pending w) \<Longrightarrow> ?thesis" by (simp add: accepting_def complete_def)
qed

lemma accepting_accept_conn: "accept_conn ok w = Inr w' \<Longrightarrow> accepting w' = accepting w + 1"
  by (auto simp: accept_conn_def Let_def elim!: bind_res_Inr_E split: if_splits option.splits)

lemma accepting_process:
  "process_msgpack_request mok alloc rs i err w = Inr w' \<Longrightarrow> accepting w' = accepting w"
  by (auto simp: process_msgpack_request_def Let_def elim!: bind_res_Inr_E split: if_splits read_out.splits)

lemma accepting_step: "wstep mok alloc expiry w w' \<Longrightarrow> accepting w' = accepting w"
proof (induction rule: wstep.induct)
  case (accepted i w pool_ok err throws w')
  then show ?case using accepting_complete [OF accepted.hyps(1)]
    by (auto simp: accept_conn_async_def dest: accepting_accept_conn split: if_splits)
next
  case (readable i w err rs w')
  then show ?case using accepting_complete [OF readable.hyps(1)] by (simp add: accepting_process)
next
  case (expired i w rs w')
  then show ?case using accepting_complete [OF expired.hyps(2)] by (simp add: accepting_process)
next
  case (aborted x w rs w')
  then show ?case using accepting_complete [OF aborted.hyps(1)] by auto
next
  case (posted i w)
  then show ?case using accepting_complete [OF posted.hyps(1)] by simp
next
  case (get_next w r w')
  then show ?case by (auto simp: Request_GetNext_def elim!: bind_res_Inr_E)
next
  case (finish i w w')
  then show ?case by (auto simp: Request_Finish_def elim!: bind_res_Inr_E)
qed (simp_all add: Request_Queue_def)

lemma wreach_accepting: "wreach mok alloc expiry w0 w \<Longrightarrow> accepting w = accepting w0"
  by (induction rule: wreach.induct) (auto dest: accepting_step)


section \<open>Serving a connection\<close>

text \<open>Accepting leaves everything but the finished requests as it is.\<close>

lemma get_request_set_request:
  "get_request w i = Inr r \<Longrightarrow> get_request (set_request w i r') i = Inr r'"
  by (auto simp: get_request_def set_request_def split: if_splits)

lemma get_request_set_other:
  assumes "j \<noteq> i"
  shows "get_request (set_request w i r') j = get_request w j"
proof (cases "fst i = fst j")
  case True
  then have "snd i \<noteq> snd j" using assms by (simp add: prod_eq_iff)
  then show ?thesis using True
    by (cases "fst j < length (request_pools w)") (simp_all add: get_request_def set_request_def)
next
  case False
  then show ?thesis by (simp add: get_request_def set_request_def)
qed

lemma get_request_start [simp]: "get_request (start i x w) j = get_request w j"
  by (simp add: get_request_def start_def)

lemma get_request_pools: "request_pools w' = request_pools w \<Longrightarrow> get_request w' j = get_request w j"
  by (simp add: get_request_def)

lemma accept_conn_total:
  assumes "worker_inv w" and "unat (request_pool_size w) < 2 ^ 31"
  shows "\<exists>w'. accept_conn True w = Inr w'"
proof -
  have p: "pools_inv w" using assms(1) by (simp add: worker_inv_def)
  then have "lq_inv (finished_requests w)" by (simp add: pools_inv_def)
  then obtain r q where q: "lq_try_dequeue (finished_requests w) = Inr (r, q)"
    using lqf.deq_hd by blast
  let ?w = "w\<lparr>finished_requests := q\<rparr>"
  note t = moves_take_finished [OF q p]
  show ?thesis
  proof (cases r)
    case (Some i)
    then have "i \<in># live w" using t(2) by simp
    then have "in_use ?w i" using assms(1) by (simp add: worker_inv_def ids_def)
    then obtain req where "get_request ?w i = Inr req" using get_request_in_use [OF t(1)] by blast
    then show ?thesis using q Some by (simp add: accept_conn_def Let_def)
  next
    case None
    then show ?thesis using q assms(2) accept_conn_next(4) [OF t(1) _ _ refl refl]
      by (auto simp: accept_conn_def Let_def)
  qed
qed

text \<open>The driver: the socket of request \<open>i\<close> becomes readable again and again, each time
  with \<open>j\<close> bytes of the stream \<open>xs\<close> available, as long as the worker waits for it.\<close>

abbreviation read_ready :: "rid \<Rightarrow> pend" where
  "read_ready i \<equiv> \<lparr>who = i, what = ReadReady, cancelled = False\<rparr>"

fun serve :: "(nat \<Rightarrow> bool) \<Rightarrow> rid \<Rightarrow> nat list \<Rightarrow> byte list \<Rightarrow> worker \<Rightarrow> worker res" where
  "serve alloc i [] xs w = Inr w"
| "serve alloc i (j # js) xs w =
     (if read_ready i \<notin> set (pending w) then Inr w
      else bind_res (get_request w i) (\<lambda>r.
           bind_res (process_msgpack_request all_ok alloc (\<lambda>k. Some (take (min k j) xs)) i Success
             (complete (read_ready i) w)) (\<lambda>w'.
           serve alloc i js (drop (min (read_size r) j) xs) w')))"

definition awaited :: "rid \<Rightarrow> worker \<Rightarrow> bool" where
  "awaited i w \<longleftrightarrow> filter (\<lambda>x. who x = i \<and> active x) (pending w) = [read_ready i]"

lemma awaited_ready: "awaited i w \<Longrightarrow> read_ready i \<in> set (pending w)"
proof -
  assume "awaited i w"
  then have "read_ready i \<in> set (filter (\<lambda>x. who x = i \<and> active x) (pending w))"
    by (simp add: awaited_def)
  then show ?thesis by simp
qed

lemma filter_remove1_hit: "filter P xs = [x] \<Longrightarrow> filter P (remove1 x xs) = []"
  by (simp add: filter_remove1)

lemma filter_cancel_timer:
  "filter (\<lambda>x. who x = i \<and> active x) (pending (cancel_timer j w)) =
   filter (\<lambda>x. who x = i \<and> active x) (pending w)"
proof -
  let ?f = "\<lambda>x. if who x = j \<and> what x = Timer then x\<lparr>cancelled := True\<rparr> else x"
  have "filter (\<lambda>x. who x = i \<and> active x) (map ?f xs) = filter (\<lambda>x. who x = i \<and> active x) xs" for xs
    by (induction xs) (auto simp: active_def)
  then show ?thesis by (simp add: cancel_timer_def)
qed

text \<open>What one readiness does, once the read is known.\<close>

definition after_read :: "rid \<Rightarrow> request \<Rightarrow> worker \<Rightarrow> worker" where
  "after_read i r w = set_request (cancel_timer i (complete (read_ready i) w)) i r"

lemma after_read_sel [simp]:
  "wq (after_read i r w) = wq w" "request_size (after_read i r w) = request_size w"
  by (simp_all add: after_read_def cancel_timer_def complete_def)

lemma get_request_after_read: "get_request w i = Inr r \<Longrightarrow> get_request (after_read i r' w) i = Inr r'"
proof -
  have "request_pools (cancel_timer i (complete (read_ready i) w)) = request_pools w"
    by (simp add: cancel_timer_def complete_def)
  then show "get_request w i = Inr r \<Longrightarrow> ?thesis"
    unfolding after_read_def using get_request_set_request get_request_pools by metis
qed

lemma awaited_after_read:
  "awaited i w \<Longrightarrow> filter (\<lambda>x. who x = i \<and> active x) (pending (after_read i r w)) = []"
  by (simp add: after_read_def filter_cancel_timer awaited_def filter_remove1_hit complete_def)

lemma process_read:
  assumes "get_request w i = Inr r"
    and "read_headers mok alloc (request_size w) rs r = Inr (out, r')"
  shows "process_msgpack_request mok alloc rs i Success (complete (read_ready i) w) =
    Inr (case out of
           Complete \<Rightarrow> worker_enqueue i (after_read i r' w)
         | Incomplete \<Rightarrow> read_request i 5000 (after_read i r' w)
         | Thrown \<Rightarrow> finish_request i (after_read i r' w))"
proof -
  have "get_request (cancel_timer i (complete (read_ready i) w)) i = Inr r"
    using assms(1) get_request_pools [of "cancel_timer i (complete (read_ready i) w)" w]
    by (simp add: cancel_timer_def complete_def)
  moreover have "request_size (cancel_timer i (complete (read_ready i) w)) = request_size w"
    by (simp add: cancel_timer_def complete_def)
  ultimately show ?thesis
    using assms(2) by (cases out) (simp_all add: process_msgpack_request_def after_read_def Let_def)
qed

lemma awaited_read_request:
  assumes "filter (\<lambda>x. who x = i \<and> active x) (pending w) = []"
  shows "awaited i (read_request i t w)"
  using assms filter_cancel_timer [of i i w]
  by (simp add: awaited_def read_request_def start_def) (simp add: active_def)

lemma read_request_sel [simp]:
  "wq (read_request i t w) = wq w" "request_size (read_request i t w) = request_size w"
  "request_pools (read_request i t w) = request_pools w"
  by (simp_all add: read_request_def start_def cancel_timer_def)

lemma serve_deliver:
  assumes "deliver alloc sz js xs r = Inr (Complete, r')" and "get_request w i = Inr r"
    and "awaited i w" and "request_size w = sz"
  shows "\<exists>w'. serve alloc i js xs w = Inr w' \<and> wq w' = lq_enqueue i (wq w) \<and> get_request w' i = Inr r'"
  using assms
proof (induction js arbitrary: xs r w)
  case Nil
  then show ?case by simp
next
  case (Cons j js)
  obtain out r1 where r1: "read_headers all_ok alloc sz (\<lambda>k. Some (take (min k j) xs)) r = Inr (out, r1)"
    and d: "(if out = Incomplete then deliver alloc sz js (drop (min (read_size r) j) xs) r1 else Inr (out, r1)) =
      Inr (Complete, r')"
    using Cons.prems(1) by (auto elim!: bind_res_Inr_E)
  note p = process_read [OF Cons.prems(2) r1 [folded Cons.prems(4)]]
  have s: "serve alloc i (j # js) xs w = serve alloc i js (drop (min (read_size r) j) xs)
      (case out of Complete \<Rightarrow> worker_enqueue i (after_read i r1 w)
         | Incomplete \<Rightarrow> read_request i 5000 (after_read i r1 w)
         | Thrown \<Rightarrow> finish_request i (after_read i r1 w))"
    using p Cons.prems(2) awaited_ready [OF Cons.prems(3)] by simp
  note g = get_request_after_read [OF Cons.prems(2), of r1]
  show ?case
  proof (cases out)
    case Complete
    have "read_ready i \<notin> set (pending (worker_enqueue i (after_read i r1 w)))"
      using awaited_after_read [OF Cons.prems(3), of r1] by (auto simp: filter_empty_conv active_def worker_enqueue_def)
    then have "serve alloc i js ys (worker_enqueue i (after_read i r1 w)) = Inr (worker_enqueue i (after_read i r1 w))" for ys
      by (cases js) simp_all
    then have "serve alloc i (j # js) xs w = Inr (worker_enqueue i (after_read i r1 w))"
      unfolding s Complete by simp
    moreover have "get_request (worker_enqueue i (after_read i r1 w)) i = Inr r1"
      using g get_request_pools [of "worker_enqueue i (after_read i r1 w)" "after_read i r1 w"]
      by (simp add: worker_enqueue_def)
    moreover have "r1 = r'" using d Complete by simp
    ultimately show ?thesis by (simp add: worker_enqueue_def)
  next
    case Incomplete
    let ?w = "read_request i 5000 (after_read i r1 w)"
    have "get_request ?w i = Inr r1" using g get_request_pools [of ?w "after_read i r1 w"] by simp
    moreover have "awaited i ?w" using awaited_read_request [OF awaited_after_read [OF Cons.prems(3)]] .
    ultimately have "\<exists>w'. serve alloc i js (drop (min (read_size r) j) xs) ?w = Inr w' \<and>
        wq w' = lq_enqueue i (wq ?w) \<and> get_request w' i = Inr r'"
      using d Incomplete Cons.prems(4) by (intro Cons.IH [of _ r1]) simp_all
    then show ?thesis unfolding s Incomplete by simp
  next
    case Thrown
    then show ?thesis using d by simp
  qed
qed


section \<open>A timer that expires\<close>

lemma accept_conn_frame:
  assumes "accept_conn ok w = Inr w'"
  shows "\<exists>x. pending w' = pending w @ [x]" and "wq w' = wq w" and "request_size w' = request_size w"
  using assms by (auto simp: accept_conn_def Let_def start_def elim!: bind_res_Inr_E split: if_splits option.splits)

lemma accept_conn_get_request:
  assumes "accept_conn ok w = Inr w'" and "get_request w i = Inr r"
    and "lq_inv (finished_requests w)" and "lq_contents (finished_requests w) = []"
  shows "get_request w' i = Inr r"
proof -
  obtain q where q: "lq_try_dequeue (finished_requests w) = Inr (None, q)"
    using lqf.deq_Nil [OF assms(3,4)] by blast
  then have "\<exists>ps. request_pools w' = request_pools w @ ps"
    using assms(1) by (auto simp: accept_conn_def Let_def start_def elim!: bind_res_Inr_E split: if_splits)
  then show ?thesis using assms(2) by (auto simp: get_request_def nth_append split: if_splits)
qed

lemma started_first:
  assumes "started sz p q w"
  shows "pending w = [\<lparr>who = (0, 0), what = Accept, cancelled = False\<rparr>]"
    and "get_request w (0, 0) = Inr new_Request" and "lq_inv (wq w)" and "lq_contents (wq w) = []"
    and "lq_inv (finished_requests w)" and "lq_contents (finished_requests w) = []"
    and "unat (request_pool_size w) < 2 ^ 31"
proof -
  let ?n = "new_Worker sz p q"
  from assms obtain ok where sz: "sz < 2 ^ 63" and ok: "accept_conn ok ?n = Inr w"
    by (auto simp: started_def)
  note l = new_LockedQueue_inv [OF sz, where 'a = rid]
  obtain f where f: "lq_try_dequeue (finished_requests ?n) = Inr (None, f)" "lq_inv f" "lq_contents f = []"
    using lqf.deq_Nil [of "finished_requests ?n"] l by (auto simp: new_Worker_def)
  have pos: "0 < unat (request_pool_size ?n)"
    using new_Worker_inv(1) [OF sz, of p q] by (simp add: worker_inv_def pools_inv_def)
  have "current_request ?n = 0" "request_pools ?n = []" by (simp_all add: new_Worker_def)
  then have w: "unat (request_pool_size ?n) < 2 ^ 31" "w = start (0, 0) Accept (?n\<lparr>finished_requests := f,
      request_pools := [replicate (unat (request_pool_size ?n)) new_Request],
      current_pool := 0, current_request := 1\<rparr>)"
    using ok f(1) by (auto simp: accept_conn_def Let_def split: if_splits)
  show "unat (request_pool_size w) < 2 ^ 31" using w by (simp add: start_def)
  show "pending w = [\<lparr>who = (0, 0), what = Accept, cancelled = False\<rparr>]" "lq_inv (wq w)"
    "lq_contents (wq w) = []" "lq_inv (finished_requests w)" "lq_contents (finished_requests w) = []"
    using w(2) f l by (simp_all add: start_def new_Worker_def)
  show "get_request w (0, 0) = Inr new_Request" using w(2) pos by (simp add: get_request_def start_def)
qed

text \<open>A one-byte request, and the empty read that follows once it is complete.\<close>

lemma read_one_byte:
  assumes "\<forall>k. alloc k"
  shows "\<exists>r'. read_headers all_ok alloc sz (\<lambda>_. Some [1, 65]) new_Request = Inr (Complete, r') \<and>
     buf_len r' = 1 \<and> ctr r' = 1"
proof -
  let ?r = "\<lparr>headers = [1, 65, 0, 0, 0, 0, 0, 0, 0], buf_off = 0, buf_len = 0, ctr = 2, lua_request = None\<rparr>"
  have "msgpack_pack_uint64 1 = [1]" by (simp add: msgpack_pack_uint64_def)
  then obtain res where res: "msgpack_unpack_next all_ok msgpack_unpacked_init [1, 65] 0 = Inr (True, res, 1)"
    "unpacked_data res = POSITIVE_INTEGER 1"
    using decode_number [of 1 "[65]"] by auto
  have st: "store_read new_Request [1, 65] = Inr ?r"
    by (simp add: store_read_def new_Request_def request_reset_def resize_def write_at_def Let_def numeral_eq_Suc)
  have "bytes_at [1, 65, 0, 0, 0, 0, 0, 0, 0] 0 2 = Inr [1, 65 :: byte]"
    by (simp add: bytes_at_def numeral_eq_Suc)
  then have "parse_length all_ok alloc ?r = Inr (True, ?r\<lparr>buf_len := 1, buf_off := 1, ctr := 1\<rparr>)"
    using res by (simp add: parse_length_def to_i32_def)
  then show ?thesis using st by (simp add: read_headers_def prepare_lua_def)
qed

lemma read_complete_again:
  assumes "buf_len r = 1" and "ctr r = 1"
  shows "\<exists>r'. read_headers mok alloc sz (\<lambda>_. Some []) r = Inr (Complete, r')"
  using assms by (simp add: read_headers_def store_read_def Let_def)


lemma timer_twice:
  assumes "\<lparr>who = i, what = Timer, cancelled = False\<rparr> \<in> set (pending w)" and "read_ready i \<in> set (pending w)"
    and "get_request w i = Inr new_Request" and "lq_inv (wq w)" and "\<forall>k. alloc k"
  shows "\<exists>w'. wreach all_ok alloc True w w' \<and> lq_contents (wq w') = lq_contents (wq w) @ [i, i]"
proof -
  let ?t = "\<lparr>who = i, what = Timer, cancelled = False\<rparr>"
  let ?c = "cancel_timer i (complete ?t w)"
  obtain r1 where r1: "read_headers all_ok alloc (request_size w) (\<lambda>_. Some [1, 65]) new_Request = Inr (Complete, r1)"
    "buf_len r1 = 1" "ctr r1 = 1"
    using read_one_byte [OF assms(5)] by blast
  let ?w1 = "worker_enqueue i (set_request ?c i r1)"
  have c: "get_request ?c i = Inr new_Request" "request_size ?c = request_size w" "wq ?c = wq w"
    using assms(3) get_request_pools [of ?c w] by (simp_all add: cancel_timer_def complete_def)
  have "process_msgpack_request all_ok alloc (\<lambda>_. Some [1, 65]) i Success (complete ?t w) = Inr ?w1"
    using c(1,2) r1(1) by (simp add: process_msgpack_request_def Let_def)
  from wstep.expired [OF TrueI assms(1) this] have "wstep all_ok alloc True w ?w1" by simp
  moreover have g1: "get_request ?w1 i = Inr r1"
    using get_request_set_request [OF c(1), of r1] get_request_pools [of ?w1 "set_request ?c i r1"]
    by (simp add: worker_enqueue_def)
  obtain r2 where r2: "read_headers all_ok alloc (request_size ?w1) (\<lambda>_. Some []) r1 = Inr (Complete, r2)"
    using read_complete_again [OF r1(2,3)] by blast
  have "read_ready i \<in> set (pending ?w1)"
    using assms(2) by (force simp: worker_enqueue_def cancel_timer_def complete_def)
  then have "wstep all_ok alloc True ?w1 (worker_enqueue i (after_read i r2 ?w1))"
    using process_read [OF g1 r2] by (intro wstep.readable [where rs = "\<lambda>_. Some []"]) simp_all
  ultimately have "wreach all_ok alloc True w (worker_enqueue i (after_read i r2 ?w1))"
    by (meson wreach.intros)
  moreover have "lq_contents (wq (worker_enqueue i (after_read i r2 ?w1))) = lq_contents (wq w) @ [i, i]"
    using assms(4) c(3) by (simp add: worker_enqueue_def lqf.contents_enq lqf.inv_enq)
  ultimately show ?thesis by blast
qed

lemma started_exists: "sz < 2 ^ 63 \<Longrightarrow> unat p < 2 ^ 31 \<Longrightarrow> \<exists>w. started sz p q w"
proof -
  assume sz: "sz < 2 ^ 63" and p: "unat p < 2 ^ 31"
  have "unat (request_pool_size (new_Worker sz p q)) < 2 ^ 31" using p by (simp add: new_Worker_def)
  from accept_conn_total [OF new_Worker_inv(1) [OF sz] this] sz show ?thesis
    by (auto simp: started_def)
qed

section \<open>Properties\<close>



text \<open>C23: A worker never stops accepting: in every state that it can reach, even when
  timers expire, exactly one accept is pending, and its completion finds a request for
  the next one as long as there is memory for a new pool.\<close>

theorem always_accepting:
  assumes "started sz p q w0" and "wreach mok alloc expiry w0 w"
  shows "\<exists>i. [x \<leftarrow> pending w. what x = Accept] = [i] \<and>
    (\<forall>err throws. unat (request_pool_size w) < 2 ^ 31 \<longrightarrow>
      (\<exists>w'. accept_conn_async True (who i) err throws (complete i w) = Inr w'))"
proof -
  have "accepting w0 = 1" using started_first(1) [OF assms(1)] by (simp add: accepting_def)
  then have "accepting w = 1" using wreach_accepting [OF assms(2)] by simp
  then obtain i where i: "[x \<leftarrow> pending w. what x = Accept] = [i]"
    by (auto simp: accepting_def length_Suc_conv)
  then have "i \<in> set [x \<leftarrow> pending w. what x = Accept]" by simp
  then have mem: "i \<in> set (pending w)" by simp
  have inv: "worker_inv w" using wreach_inv [OF assms(2)] started_inv(1) [OF assms(1)] .
  note c = complete_inv [OF mem inv] and u = pending_in_use [OF inv mem]
  have m: "moves (complete i w) {#who i#} {who i} (read_request (who i) 5000 (complete i w))"
    "moves (complete i w) {#who i#} {who i} (finish_request (who i) (complete i w))"
    by (rule moves_read_request) (rule moves_mono [OF moves_finish_request], simp)
  have next_inv: "worker_inv v" if "moves (complete i w) {#who i#} {who i} v" for v
  proof -
    have "in_use v (who i)"
      using that c u unfolding moves_def worker_inv_def in_use_complete by blast
    then show ?thesis using moves_worker_inv [OF that c] by simp
  qed
  have ps: "request_pool_size (read_request (who i) 5000 (complete i w)) = request_pool_size w"
    "request_pool_size (finish_request (who i) (complete i w)) = request_pool_size w"
    "request_pool_size (complete i w) = request_pool_size w"
    by (simp_all add: read_request_def finish_request_def start_def cancel_timer_def socket_abort_def
        complete_def Let_def)
  have "\<exists>w'. accept_conn_async True (who i) err throws (complete i w) = Inr w'"
    if "unat (request_pool_size w) < 2 ^ 31" for err throws
    using that accept_conn_total [OF next_inv [OF m(1)]] accept_conn_total [OF next_inv [OF m(2)]]
      accept_conn_total [OF c] by (simp add: accept_conn_async_def ps)
  with i show ?thesis by blast
qed

theorem always_accepting_witness:
  "\<exists>w0 i. started 1 1 1 w0 \<and> [x \<leftarrow> pending w0. what x = Accept] = [i] \<and>
     (\<exists>w'. accept_conn_async True (who i) Success False (complete i w0) = Inr w')"
proof -
  obtain w0 where w0: "started 1 1 1 w0" using started_exists [of 1 1 1] by auto
  from always_accepting [OF w0 wreach.start [of all_ok "\<lambda>_. True" True]] started_first(7) [OF w0] w0
  show ?thesis by blast
qed

text \<open>C24: From the socket to the queue: when the worker waits for a request to become
  readable and the client sends an encoded length (at most 65535) and as many bytes,
  the handlers of the connection, run on whatever pieces arrive, put the request at the
  end of the queue of the worker, once, with exactly the payload as its headers.\<close>

theorem request_reaches_queue:
  assumes "awaited i w" and "get_request w i = Inr r" and "waiting r" and "buf_len r = 0" and "ctr r = 0"
    and "lq_inv (wq w)" and "0 < length body" and "length body \<le> 65535" and "d = of_nat (length body)"
    and "\<forall>j \<in> set js. 0 < j" and "length (msgpack_pack_uint64 d) + length body \<le> length js"
    and "\<forall>k. alloc k"
  shows "\<exists>w' r'. serve alloc i js (msgpack_pack_uint64 d @ body @ rest) w = Inr w' \<and>
    lq_contents (wq w') = lq_contents (wq w) @ [i] \<and> get_request w' i = Inr r' \<and>
    buf_len r' = int (length body) \<and> take (nat (buf_len r')) (drop (buf_off r') (headers r')) = body"
proof -
  obtain r' where r': "deliver alloc (request_size w) js (msgpack_pack_uint64 d @ body @ rest) r = Inr (Complete, r')"
    "buf_len r' = int (length body)" "take (nat (buf_len r')) (drop (buf_off r') (headers r')) = body"
    using deliver_framed [of body d r js alloc] assms by blast
  from serve_deliver [OF r'(1) assms(2,1) refl] r'(2,3) assms(6) show ?thesis
    by (auto simp: lqf.contents_enq)
qed

text \<open>A worker that waits for its first request.\<close>

definition sample_worker :: worker where
  "sample_worker = read_request (0, 0) 5000 ((new_Worker 1 1 1)\<lparr>request_pools := [[new_Request]]\<rparr>)"

theorem request_reaches_queue_witness:
  "\<exists>w' r'. serve (\<lambda>_. True) (0, 0) [1, 2, 1, 1] (msgpack_pack_uint64 3 @ [7, 8, 9] @ [1]) sample_worker = Inr w' \<and>
    lq_contents (wq w') = lq_contents (wq sample_worker) @ [(0, 0)] \<and> get_request w' (0, 0) = Inr r' \<and>
    buf_len r' = int (length [7, 8, 9 :: byte]) \<and> take (nat (buf_len r')) (drop (buf_off r') (headers r')) = [7, 8, 9]"
proof -
  have "awaited (0, 0) sample_worker"
    unfolding sample_worker_def by (rule awaited_read_request) (simp add: new_Worker_def)
  moreover have "get_request sample_worker (0, 0) = Inr new_Request"
    by (simp add: sample_worker_def get_request_def)
  moreover have "lq_inv (wq sample_worker)"
    using new_LockedQueue_inv(1) [of 1] by (simp add: sample_worker_def new_Worker_def)
  ultimately show ?thesis
    by (intro request_reaches_queue [OF _ _ waiting_new])
      (simp_all add: new_Request_def request_reset_def msgpack_pack_uint64_def)
qed

text \<open>C25: The timer of a request hands the request out twice.  Its expiry carries no
  error, so the handler reads as if the socket were readable and leaves the first wait
  pending; when that completes, the request is complete already and is queued again.
  From the start of any worker such a state can be reached.\<close>

theorem timer_queues_twice:
  assumes "started sz p q w0" and "\<forall>k. alloc k"
  shows "\<exists>w i. wreach all_ok alloc True w0 w \<and> lq_contents (wq w) = [i, i]"
proof -
  let ?x = "\<lparr>who = (0, 0), what = Accept, cancelled = False\<rparr>"
  let ?r = "read_request (0, 0) 5000 (complete ?x w0)"
  note f = started_first [OF assms(1)]
  have inv: "worker_inv ?r"
  proof (rule moves_worker_inv [OF moves_read_request complete_inv])
    show "\<forall>i \<in> set_mset {#(0, 0)#} \<union> {(0, 0)}. in_use ?r i"
      using pending_in_use [OF started_inv(1) [OF assms(1)], of ?x] f(1)
      by (simp add: in_use_def read_request_def start_def cancel_timer_def complete_def)
  qed (use f(1) started_inv(1) [OF assms(1)] in simp_all)
  have r: "request_pool_size ?r = request_pool_size w0" "finished_requests ?r = finished_requests w0"
    "wq ?r = wq w0" "get_request ?r (0, 0) = Inr new_Request"
    using f(2) get_request_pools [of ?r w0]
    by (simp_all add: read_request_def start_def cancel_timer_def complete_def)
  obtain w1 where w1: "accept_conn True ?r = Inr w1" using accept_conn_total [OF inv] f(7) r(1) by auto
  note a = accept_conn_frame [OF w1]
  have s: "wstep all_ok alloc True w0 w1"
    using w1 f(1) by (intro wstep.accepted [where err = Success and throws = False])
      (simp_all add: accept_conn_async_def)
  have "\<lparr>who = (0, 0), what = Timer, cancelled = False\<rparr> \<in> set (pending w1)" "read_ready (0, 0) \<in> set (pending w1)"
    using a(1) by (auto simp: read_request_def start_def)
  moreover have "get_request w1 (0, 0) = Inr new_Request"
    using accept_conn_get_request [OF w1 r(4)] f(5,6) r(2) by simp
  ultimately obtain w where w: "wreach all_ok alloc True w1 w" "lq_contents (wq w) = [(0, 0), (0, 0)]"
    using timer_twice [of "(0, 0)" w1 alloc] a(2) r(3) f(3,4) assms(2) by auto
  have "wreach all_ok alloc True w0 w"
    using w(1) by (induction rule: wreach.induct) (auto intro: wreach.intros s)
  with w(2) show ?thesis by blast
qed

theorem timer_queues_twice_witness:
  "\<exists>w0 w i. started 1 1 1 w0 \<and> wreach all_ok (\<lambda>_. True) True w0 w \<and> lq_contents (wq w) = [i, i]"
proof -
  obtain w0 where w0: "started 1 1 1 w0" using started_exists [of 1 1 1] by auto
  from timer_queues_twice [OF w0, of "\<lambda>_. True"] w0 show ?thesis by blast
qed

end
