(* ===== verification/SkipList.thy ===== *)
theory SkipList
  imports Prelude
begin

text \<open>
  The skip list of LevelDB (\<^verbatim>\<open>src/ext/leveldb/db/skiplist.h\<close>), the sorted set under its
  memory tables, with the random numbers that pick the heights
  (\<^verbatim>\<open>src/ext/leveldb/util/random.h\<close>).

  The nodes live in an arena and are never freed: \<open>nodes\<close> lists them in the order of
  their allocation, node 0 is the head, and a link is an index or \<open>None\<close> for \<^verbatim>\<open>NULL\<close>.  A
  node of height \<open>h\<close> has \<open>h\<close> links.  The comparator is a parameter; it yields a negative
  number, 0 or a positive one, or fails.  The loops carry fuel and fail with \<open>Diverges\<close>
  when it runs out; \<open>search_fuel\<close> is one step per node and per level, which the lemmas
  below show to be enough.

  An insertion comes in two parts, as in the code: \<open>InsertHint\<close> searches without the
  lock, \<open>InsertWithHint\<close> brings the hint up to date and links the node under the lock.
  The list may have changed in between.
\<close>

section \<open>Random numbers\<close>

definition Random_M :: u32 where
  "Random_M = 2147483647"

definition new_Random :: "u32 \<Rightarrow> u32" where
  "new_Random s =
     (let seed = s AND 0x7fffffff in if seed = 0 \<or> seed = 2147483647 then 1 else seed)"

definition Random_Next :: "u32 \<Rightarrow> u32" where
  "Random_Next seed =
     (let product = (ucast seed * 16807 :: u64);
          seed1 = (ucast (drop_bit 31 product + (product AND ucast Random_M)) :: u32)
      in if seed1 > Random_M then seed1 - Random_M else seed1)"

section \<open>The list\<close>

definition kMaxHeight :: nat where
  "kMaxHeight = 12"

record 'k node =
  node_key :: "'k option"
  node_next :: "nat option list"

record 'k skiplist =
  nodes :: "'k node list"
  max_height :: nat
  rnd :: u32

definition new_SkipList :: "'k skiplist" where
  "new_SkipList =
     \<lparr>nodes = [\<lparr>node_key = None, node_next = replicate kMaxHeight None\<rparr>], max_height = 1,
      rnd = new_Random 0xdeadbeef\<rparr>"

definition Next :: "'k skiplist \<Rightarrow> nat \<Rightarrow> nat \<Rightarrow> nat option res" where
  "Next s x level =
     (if x < length (nodes s) \<and> level < length (node_next (nodes s ! x)) then
        Inr (node_next (nodes s ! x) ! level)
      else Inl OutOfBounds)"

definition key_of :: "'k skiplist \<Rightarrow> nat \<Rightarrow> 'k res" where
  "key_of s x =
     (if x < length (nodes s) then
        case node_key (nodes s ! x) of None \<Rightarrow> Inl Uninitialized | Some k \<Rightarrow> Inr k
      else Inl OutOfBounds)"

definition SetNext :: "nat \<Rightarrow> nat \<Rightarrow> nat option \<Rightarrow> 'k skiplist \<Rightarrow> 'k skiplist res" where
  "SetNext x level p s =
     (if x < length (nodes s) \<and> level < length (node_next (nodes s ! x)) then
        Inr (s\<lparr>nodes := (nodes s)[x := (nodes s ! x)\<lparr>node_next := (node_next (nodes s ! x))[level := p]\<rparr>]\<rparr>)
      else Inl OutOfBounds)"

text \<open>The loop of \<^verbatim>\<open>RandomHeight\<close>, which ends at the maximal height.\<close>

function random_height_loop :: "nat \<Rightarrow> u32 \<Rightarrow> nat \<times> u32" where
  "random_height_loop height seed =
     (if height < kMaxHeight then
        let seed1 = Random_Next seed in
        if seed1 mod 4 = 0 then random_height_loop (height + 1) seed1 else (height, seed1)
      else (height, seed))"
  by pat_completeness auto
termination
  by (relation "measure (\<lambda>(h, _). kMaxHeight - h)") auto

declare random_height_loop.simps [simp del]

definition RandomHeight :: "'k skiplist \<Rightarrow> (nat \<times> 'k skiplist) res" where
  "RandomHeight s =
     (let (height, seed) = random_height_loop 1 (rnd s)
      in if height > 0 \<and> height \<le> kMaxHeight then Inr (height, s\<lparr>rnd := seed\<rparr>) else Inl AssertionFailed)"

definition KeyIsAfterNode ::
    "('k \<Rightarrow> 'k \<Rightarrow> int res) \<Rightarrow> 'k skiplist \<Rightarrow> 'k \<Rightarrow> nat option \<Rightarrow> bool res" where
  "KeyIsAfterNode cmp s key n =
     (case n of
        None \<Rightarrow> Inr False
      | Some x \<Rightarrow> bind_res (key_of s x) (\<lambda>k. bind_res (cmp k key) (\<lambda>r. Inr (r < 0))))"

definition search_fuel :: "'k skiplist \<Rightarrow> nat" where
  "search_fuel s = length (nodes s) + kMaxHeight"

fun find_ge_loop ::
    "('k \<Rightarrow> 'k \<Rightarrow> int res) \<Rightarrow> 'k skiplist \<Rightarrow> 'k \<Rightarrow> nat \<Rightarrow> nat \<Rightarrow> nat \<Rightarrow> nat list \<Rightarrow> nat option list \<Rightarrow>
     (nat option \<times> nat list \<times> nat option list) res" where
  "find_ge_loop cmp s key 0 x level prev obs = Inl Diverges"
| "find_ge_loop cmp s key (Suc fuel) x level prev obs =
     bind_res (Next s x level) (\<lambda>nx.
     bind_res (KeyIsAfterNode cmp s key nx) (\<lambda>after.
       case (after, nx) of
         (True, Some y) \<Rightarrow> find_ge_loop cmp s key fuel y level prev obs
       | _ \<Rightarrow>
           (let prev = prev[level := x]; obs = obs[level := nx]
            in if level = 0 then Inr (nx, prev, obs)
               else find_ge_loop cmp s key fuel x (level - 1) prev obs)))"

definition FindGreaterOrEqual ::
    "('k \<Rightarrow> 'k \<Rightarrow> int res) \<Rightarrow> 'k skiplist \<Rightarrow> 'k \<Rightarrow> nat list \<Rightarrow> nat option list \<Rightarrow>
     (nat option \<times> nat list \<times> nat option list) res" where
  "FindGreaterOrEqual cmp s key prev obs =
     find_ge_loop cmp s key (search_fuel s) 0 (max_height s - 1) prev obs"

fun find_less_loop ::
    "('k \<Rightarrow> 'k \<Rightarrow> int res) \<Rightarrow> 'k skiplist \<Rightarrow> 'k \<Rightarrow> nat \<Rightarrow> nat \<Rightarrow> nat \<Rightarrow> nat res" where
  "find_less_loop cmp s key 0 x level = Inl Diverges"
| "find_less_loop cmp s key (Suc fuel) x level =
     bind_res (if x = 0 then Inr (-1) else bind_res (key_of s x) (\<lambda>k. cmp k key)) (\<lambda>c.
     if \<not> c < 0 then Inl AssertionFailed
     else bind_res (Next s x level) (\<lambda>nx.
       case nx of
         None \<Rightarrow> if level = 0 then Inr x else find_less_loop cmp s key fuel x (level - 1)
       | Some y \<Rightarrow>
           bind_res (key_of s y) (\<lambda>k. bind_res (cmp k key) (\<lambda>r.
             if r \<ge> 0 then
               if level = 0 then Inr x else find_less_loop cmp s key fuel x (level - 1)
             else find_less_loop cmp s key fuel y level))))"

definition FindLessThan :: "('k \<Rightarrow> 'k \<Rightarrow> int res) \<Rightarrow> 'k skiplist \<Rightarrow> 'k \<Rightarrow> nat res" where
  "FindLessThan cmp s key = find_less_loop cmp s key (search_fuel s) 0 (max_height s - 1)"

fun find_last_loop :: "'k skiplist \<Rightarrow> nat \<Rightarrow> nat \<Rightarrow> nat \<Rightarrow> nat res" where
  "find_last_loop s 0 x level = Inl Diverges"
| "find_last_loop s (Suc fuel) x level =
     bind_res (Next s x level) (\<lambda>nx.
       case nx of
         None \<Rightarrow> if level = 0 then Inr x else find_last_loop s fuel x (level - 1)
       | Some y \<Rightarrow> find_last_loop s fuel y level)"

definition FindLast :: "'k skiplist \<Rightarrow> nat res" where
  "FindLast s = find_last_loop s (search_fuel s) 0 (max_height s - 1)"

section \<open>Insertion\<close>

record hint =
  hint_x :: "nat option"
  hint_prev :: "nat list"
  hint_obs :: "nat option list"

definition InsertHint :: "('k \<Rightarrow> 'k \<Rightarrow> int res) \<Rightarrow> 'k skiplist \<Rightarrow> 'k \<Rightarrow> hint res" where
  "InsertHint cmp s key =
     bind_res (FindGreaterOrEqual cmp s key (replicate kMaxHeight 0) (replicate kMaxHeight None))
       (\<lambda>(x, prev, obs). Inr \<lparr>hint_x = x, hint_prev = prev, hint_obs = obs\<rparr>)"

fun update_level ::
    "('k \<Rightarrow> 'k \<Rightarrow> int res) \<Rightarrow> 'k skiplist \<Rightarrow> 'k \<Rightarrow> nat \<Rightarrow> nat \<Rightarrow> nat option \<Rightarrow> nat \<Rightarrow> (nat \<times> nat option) res" where
  "update_level cmp s key level x seen 0 = Inl Diverges"
| "update_level cmp s key level x seen (Suc fuel) =
     bind_res (Next s x level) (\<lambda>nx.
     if nx = seen then Inr (x, nx)
     else bind_res (KeyIsAfterNode cmp s key nx) (\<lambda>after.
       case (after, nx) of
         (True, Some y) \<Rightarrow> update_level cmp s key level y seen fuel
       | _ \<Rightarrow> Inr (x, nx)))"

fun update_levels ::
    "('k \<Rightarrow> 'k \<Rightarrow> int res) \<Rightarrow> 'k skiplist \<Rightarrow> 'k \<Rightarrow> nat list \<Rightarrow> hint \<Rightarrow> hint res" where
  "update_levels cmp s key [] ih = Inr ih"
| "update_levels cmp s key (level # ls) ih =
     bind_res (update_level cmp s key level (hint_prev ih ! level) (hint_obs ih ! level) (search_fuel s))
       (\<lambda>(x, nx). update_levels cmp s key ls
          (ih\<lparr>hint_prev := (hint_prev ih)[level := x], hint_obs := (hint_obs ih)[level := nx]\<rparr>))"

definition UpdateHint :: "('k \<Rightarrow> 'k \<Rightarrow> int res) \<Rightarrow> 'k skiplist \<Rightarrow> 'k \<Rightarrow> hint \<Rightarrow> hint res" where
  "UpdateHint cmp s key ih =
     bind_res (update_levels cmp s key [0..<kMaxHeight] ih) (\<lambda>ih.
     Inr (ih\<lparr>hint_x := hint_obs ih ! 0\<rparr>))"

definition NewNode :: "'k \<Rightarrow> nat \<Rightarrow> 'k skiplist \<Rightarrow> nat \<times> 'k skiplist" where
  "NewNode key height s =
     (length (nodes s),
      s\<lparr>nodes := nodes s @ [\<lparr>node_key = Some key, node_next = replicate height None\<rparr>]\<rparr>)"

fun link_levels :: "nat list \<Rightarrow> nat \<Rightarrow> nat list \<Rightarrow> 'k skiplist \<Rightarrow> 'k skiplist res" where
  "link_levels prev x [] s = Inr s"
| "link_levels prev x (i # is) s =
     bind_res (Next s (prev ! i) i) (\<lambda>p.
     bind_res (SetNext x i p s) (\<lambda>s.
     bind_res (SetNext (prev ! i) i (Some x) s) (\<lambda>s.
     link_levels prev x is s)))"

definition InsertWithHint ::
    "('k \<Rightarrow> 'k \<Rightarrow> int res) \<Rightarrow> hint \<Rightarrow> 'k \<Rightarrow> 'k skiplist \<Rightarrow> 'k skiplist res" where
  "InsertWithHint cmp ih key s =
     bind_res (UpdateHint cmp s key ih) (\<lambda>ih.
     bind_res (case hint_x ih of
                 None \<Rightarrow> Inr True
               | Some x \<Rightarrow> bind_res (key_of s x) (\<lambda>k. bind_res (cmp key k) (\<lambda>r. Inr (r \<noteq> 0)))) (\<lambda>ok.
     if \<not> ok then Inl AssertionFailed
     else
       bind_res (RandomHeight s) (\<lambda>(height, s).
       let prev = map (\<lambda>i. if height > max_height s \<and> max_height s \<le> i \<and> i < height then 0
                           else hint_prev ih ! i) [0..<kMaxHeight];
           s = (if height > max_height s then s\<lparr>max_height := height\<rparr> else s);
           (x, s) = NewNode key height s
       in link_levels prev x [0..<height] s)))"

definition SkipList_Insert :: "('k \<Rightarrow> 'k \<Rightarrow> int res) \<Rightarrow> 'k \<Rightarrow> 'k skiplist \<Rightarrow> 'k skiplist res" where
  "SkipList_Insert cmp key s =
     bind_res (InsertHint cmp s key) (\<lambda>ih. InsertWithHint cmp ih key s)"

definition SkipList_Contains :: "('k \<Rightarrow> 'k \<Rightarrow> int res) \<Rightarrow> 'k \<Rightarrow> 'k skiplist \<Rightarrow> bool res" where
  "SkipList_Contains cmp key s =
     bind_res (FindGreaterOrEqual cmp s key [] []) (\<lambda>(x, _, _).
       case x of
         None \<Rightarrow> Inr False
       | Some y \<Rightarrow> bind_res (key_of s y) (\<lambda>k. bind_res (cmp key k) (\<lambda>r. Inr (r = 0))))"

section \<open>Iteration\<close>

text \<open>An iterator is the node it stands on.\<close>

definition iter_key :: "'k skiplist \<Rightarrow> nat option \<Rightarrow> 'k res" where
  "iter_key s it = (case it of None \<Rightarrow> Inl AssertionFailed | Some x \<Rightarrow> key_of s x)"

definition iter_Next :: "'k skiplist \<Rightarrow> nat option \<Rightarrow> nat option res" where
  "iter_Next s it = (case it of None \<Rightarrow> Inl AssertionFailed | Some x \<Rightarrow> Next s x 0)"

definition iter_Prev :: "('k \<Rightarrow> 'k \<Rightarrow> int res) \<Rightarrow> 'k skiplist \<Rightarrow> nat option \<Rightarrow> nat option res" where
  "iter_Prev cmp s it =
     (case it of
        None \<Rightarrow> Inl AssertionFailed
      | Some x \<Rightarrow> bind_res (key_of s x) (\<lambda>k. bind_res (FindLessThan cmp s k) (\<lambda>n.
          Inr (if n = 0 then None else Some n))))"

definition iter_Seek :: "('k \<Rightarrow> 'k \<Rightarrow> int res) \<Rightarrow> 'k skiplist \<Rightarrow> 'k \<Rightarrow> nat option res" where
  "iter_Seek cmp s target = bind_res (FindGreaterOrEqual cmp s target [] []) (\<lambda>(x, _, _). Inr x)"

definition iter_SeekToFirst :: "'k skiplist \<Rightarrow> nat option res" where
  "iter_SeekToFirst s = Next s 0 0"

definition iter_SeekToLast :: "'k skiplist \<Rightarrow> nat option res" where
  "iter_SeekToLast s = bind_res (FindLast s) (\<lambda>n. Inr (if n = 0 then None else Some n))"


section \<open>The random numbers are those of a Lehmer generator\<close>

lemma coprime_A_M: "coprime (16807 :: nat) 2147483647"
proof (rule coprimeI)
  fix d :: nat
  assume "d dvd 16807" "d dvd 2147483647"
  then have "d dvd 16807 * 1407677000 - 2147483647 * 11017" by (intro dvd_diff_nat dvd_mult2)
  then show "is_unit d" by simp
qed

text \<open>Folding the high bits onto the low ones reduces modulo the Mersenne prime.\<close>

lemma fold_mersenne:
  fixes p :: nat
  assumes "\<not> 2147483647 dvd p" and "p < 2147483647 * 2 ^ 31"
  shows "(let s = p div 2 ^ 31 + p mod 2 ^ 31 in if s > 2147483647 then s - 2147483647 else s) = p mod 2147483647"
proof -
  define q r where "q = p div 2 ^ 31" and "r = p mod 2 ^ 31"
  have p: "p = 2147483647 * q + (q + r)" using div_mult_mod_eq [of p "2 ^ 31"] by (simp add: q_def r_def)
  have "q < 2147483647" unfolding q_def using assms(2) by (simp add: div_less_iff_less_mult mult.commute)
  moreover have "r \<le> 2147483647" using mod_less_divisor [of "2 ^ 31" p] by (simp add: r_def)
  ultimately have b: "q + r < 2 * 2147483647" by simp
  have m: "p mod 2147483647 = (q + r) mod 2147483647" by (subst p) (rule mod_mult_self4)
  have "q + r \<noteq> 2147483647" using assms(1) m by (auto simp: dvd_eq_mod_eq_0)
  then consider "q + r < 2147483647" | "2147483647 < q + r" by linarith
  then have "(if q + r > 2147483647 then q + r - 2147483647 else q + r) = (q + r) mod 2147483647"
  proof cases
    case 1
    then show ?thesis by simp
  next
    case 2
    then have "(q + r) mod 2147483647 = q + r - 2147483647"
      using b by (subst le_mod_geq) (simp_all add: less_diff_conv2)
    then show ?thesis using 2 by simp
  qed
  then show ?thesis unfolding Let_def q_def [symmetric] r_def [symmetric] m .
qed

lemma Random_Next_lehmer:
  assumes "0 < unat seed" and "unat seed < 2147483647"
  shows "unat (Random_Next seed) = unat seed * 16807 mod 2147483647"
    and "0 < unat (Random_Next seed)" and "unat (Random_Next seed) < 2147483647"
proof -
  define p where "p = unat seed * 16807"
  have n: "\<not> 2147483647 dvd p"
  proof
    assume "2147483647 dvd p"
    then have "2147483647 dvd unat seed"
      unfolding p_def using coprime_dvd_mult_left_iff [of 2147483647 16807 "unat seed"] coprime_A_M
      by (simp add: coprime_commute)
    then show False using assms by (auto dest: dvd_imp_le)
  qed
  have pb: "p < 2147483647 * 16807" using assms by (simp add: p_def)
  have prod: "unat (ucast seed * 16807 :: u64) = p"
    using pb by (simp add: unat_word_ariths unat_ucast_up p_def)
  have mask: "product AND 2147483647 = take_bit 31 (product :: u64)" for product
    unfolding take_bit_eq_mask mask_eq_exp_minus_1 by simp
  have "unat (take_bit 31 (ucast seed * 16807 :: u64)) = p mod 2 ^ 31"
    unfolding unsigned_take_bit_eq prod by (rule take_bit_eq_mod)
  then have low: "unat ((ucast seed * 16807 :: u64) AND 2147483647) = p mod 2 ^ 31" unfolding mask .
  have high: "unat (drop_bit 31 (ucast seed * 16807 :: u64)) = p div 2 ^ 31"
    using prod by (simp add: unat_drop_bit)
  have qb: "p div 2 ^ 31 < 16807" using pb by (simp add: div_less_iff_less_mult)
  have rb: "p mod 2 ^ 31 < 2 ^ 31" by simp
  define seed1 where "seed1 = (ucast (drop_bit 31 (ucast seed * 16807 :: u64) +
    ((ucast seed * 16807 :: u64) AND 2147483647)) :: u32)"
  have small: "p div 2 ^ 31 + p mod 2 ^ 31 < 2 ^ 32" using qb rb by simp
  then have sum: "unat seed1 = p div 2 ^ 31 + p mod 2 ^ 31"
    unfolding seed1_def unsigned_ucast_eq unat_word_ariths high low take_bit_eq_mod by simp
  have "Random_Next seed = (if seed1 > 2147483647 then seed1 - 2147483647 else seed1)"
    by (simp add: Random_Next_def Random_M_def Let_def seed1_def)
  then have "unat (Random_Next seed) =
      (if unat seed1 > 2147483647 then unat seed1 - 2147483647 else unat seed1)"
    by (simp add: word_less_nat_alt word_le_nat_alt unat_sub)
  then show e: "unat (Random_Next seed) = unat seed * 16807 mod 2147483647"
    unfolding sum p_def [symmetric] using fold_mersenne [OF n] pb unfolding Let_def by simp
  show "0 < unat (Random_Next seed)" "unat (Random_Next seed) < 2147483647"
    unfolding e using n by (auto simp: p_def dvd_eq_mod_eq_0)
qed

section \<open>Representation\<close>

definition node_height :: "'k skiplist \<Rightarrow> nat \<Rightarrow> nat" where
  "node_height s i = length (node_next (nodes s ! i))"

definition nx :: "'k skiplist \<Rightarrow> nat \<Rightarrow> nat \<Rightarrow> nat option" where
  "nx s l i = node_next (nodes s ! i) ! l"

definition keyed :: "'k skiplist \<Rightarrow> nat \<Rightarrow> 'k" where
  "keyed s i = the (node_key (nodes s ! i))"

definition level :: "'k skiplist \<Rightarrow> nat \<Rightarrow> nat list \<Rightarrow> nat list" where
  "level s l xs = filter (\<lambda>i. l < node_height s i) xs"

text \<open>A list of nodes linked in order, and the head of a list as a link.\<close>

fun links :: "(nat \<Rightarrow> nat option) \<Rightarrow> nat list \<Rightarrow> bool" where
  "links f [] \<longleftrightarrow> True"
| "links f [x] \<longleftrightarrow> f x = None"
| "links f (x # y # xs) \<longleftrightarrow> f x = Some y \<and> links f (y # xs)"

fun hd_opt :: "nat list \<Rightarrow> nat option" where
  "hd_opt [] = None"
| "hd_opt (x # _) = Some x"

text \<open>The skip list \<open>s\<close> represents the nodes \<open>xs\<close>: every level links, in the order of
  \<open>xs\<close>, those that are high enough.\<close>

definition sl_rep :: "'k skiplist \<Rightarrow> nat list \<Rightarrow> bool" where
  "sl_rep s xs \<longleftrightarrow> 0 < length (nodes s) \<and> node_height s 0 = kMaxHeight \<and>
     0 < max_height s \<and> max_height s \<le> kMaxHeight \<and> distinct xs \<and>
     (\<forall>i \<in> set xs. 0 < i \<and> i < length (nodes s) \<and> node_key (nodes s ! i) \<noteq> None \<and>
        0 < node_height s i \<and> node_height s i \<le> max_height s) \<and>
     (\<forall>l < kMaxHeight. links (nx s l) (0 # level s l xs))"

definition sl_keys :: "'k skiplist \<Rightarrow> nat list \<Rightarrow> 'k list" where
  "sl_keys s xs = map (keyed s) xs"

lemma links_next: "links f (xs @ x # ys) \<Longrightarrow> f x = hd_opt ys"
proof (induction xs)
  case Nil
  then show ?case by (cases ys) auto
next
  case (Cons z xs)
  then show ?case by (cases xs) auto
qed

lemma links_cong: "(\<And>i. i \<in> set xs \<Longrightarrow> f i = g i) \<Longrightarrow> links f xs = links g xs"
  by (induction f xs rule: links.induct) auto

lemma links_insert:
  assumes "links f (xs @ x # ys)" and "n \<notin> set (xs @ x # ys)" and "distinct (xs @ x # ys)"
    and "\<And>i. i \<in> set (xs @ x # ys) \<Longrightarrow> i \<noteq> x \<Longrightarrow> g i = f i" and "g x = Some n" and "g n = f x"
  shows "links g (xs @ x # n # ys)"
  using assms
proof (induction xs)
  case Nil
  have "links g (n # ys)"
  proof (cases ys)
    case Nil
    then show ?thesis using Nil.prems by simp
  next
    case (Cons y zs)
    have "links g ys = links f ys" using Nil.prems(3,4) by (intro links_cong) auto
    then show ?thesis using Nil.prems Cons by simp
  qed
  then show ?case using Nil.prems(5) by simp
next
  case (Cons z xs)
  then have "links g (xs @ x # n # ys)" by (cases "xs @ x # ys") auto
  moreover have "g z = f z" using Cons.prems by auto
  ultimately show ?case using Cons.prems(1) by (cases xs) auto
qed

lemma level_append [simp]: "level s l (xs @ ys) = level s l xs @ level s l ys"
  by (simp add: level_def)

lemma level_Cons: "level s l (x # xs) = (if l < node_height s x then x # level s l xs else level s l xs)"
  by (simp add: level_def)

lemma level_Nil [simp]: "level s l [] = []"
  by (simp add: level_def)

lemma set_level: "set (level s l xs) = {i \<in> set xs. l < node_height s i}"
  by (simp add: level_def)

text \<open>The last node of a level, or the head.\<close>

definition last_or_head :: "nat list \<Rightarrow> nat" where
  "last_or_head xs = (if xs = [] then 0 else last xs)"

lemma last_or_head_split: "\<exists>ys. 0 # xs = ys @ [last_or_head xs]"
  by (cases xs rule: rev_cases) (auto simp: last_or_head_def)

lemma Next_rep:
  assumes "sl_rep s (as @ bs)" and "l < kMaxHeight" and "x = last_or_head as" and "as \<noteq> [] \<Longrightarrow> l < node_height s x"
  shows "Next s x l = Inr (hd_opt (level s l bs))"
proof -
  have "x = last_or_head (level s l as)"
    using assms(3,4) by (cases as rule: rev_cases) (auto simp: last_or_head_def level_Cons)
  then obtain ys where ys: "0 # level s l as = ys @ [x]" using last_or_head_split by blast
  have "links (nx s l) (0 # level s l (as @ bs))" using assms(1,2) by (simp add: sl_rep_def)
  then have "links (nx s l) (ys @ x # level s l bs)"
    using ys by (metis append_Cons append_assoc append_Nil level_append)
  then have "nx s l x = hd_opt (level s l bs)" by (rule links_next)
  moreover have "x < length (nodes s)" "l < node_height s x"
    using assms by (cases as rule: rev_cases; auto simp: sl_rep_def last_or_head_def)+
  ultimately show ?thesis by (simp add: Next_def nx_def node_height_def)
qed

lemma key_of_rep: "sl_rep s xs \<Longrightarrow> i \<in> set xs \<Longrightarrow> key_of s i = Inr (keyed s i)"
  by (auto simp: sl_rep_def key_of_def keyed_def)

lemma sl_rep_new: "sl_rep new_SkipList []"
  by (simp add: sl_rep_def new_SkipList_def node_height_def nx_def kMaxHeight_def)


lemma rep_length: "sl_rep s xs \<Longrightarrow> length xs < length (nodes s)"
proof -
  assume r: "sl_rep s xs"
  then have "set xs \<subseteq> {0 <..< length (nodes s)}" by (auto simp: sl_rep_def)
  then have "card (set xs) \<le> card {0 <..< length (nodes s)}" by (intro card_mono) auto
  then show ?thesis using r distinct_card [of xs] by (cases "nodes s") (auto simp: sl_rep_def)
qed

section \<open>Linking\<close>

lemma SetNext_nx:
  assumes "SetNext x i p s = Inr s'"
  shows "length (nodes s') = length (nodes s)" and "max_height s' = max_height s" and "rnd s' = rnd s"
    and "node_height s' y = node_height s y" and "node_key (nodes s' ! y) = node_key (nodes s ! y)"
    and "nx s' l y = (if l = i \<and> y = x then p else nx s l y)"
proof -
  from assms have b: "x < length (nodes s)" "i < length (node_next (nodes s ! x))"
    and s': "s' = s\<lparr>nodes := (nodes s)[x := (nodes s ! x)\<lparr>node_next := (node_next (nodes s ! x))[i := p]\<rparr>]\<rparr>"
    by (auto simp: SetNext_def split: if_splits)
  show "length (nodes s') = length (nodes s)" "max_height s' = max_height s" "rnd s' = rnd s"
    using s' by simp_all
  show "node_height s' y = node_height s y" "node_key (nodes s' ! y) = node_key (nodes s ! y)"
    "nx s' l y = (if l = i \<and> y = x then p else nx s l y)"
    using b s' by (cases "y = x"; simp add: node_height_def nx_def nth_list_update)+
qed

lemma SetNext_ok: "x < length (nodes s) \<Longrightarrow> i < node_height s x \<Longrightarrow> \<exists>s'. SetNext x i p s = Inr s'"
  by (simp add: SetNext_def node_height_def)

text \<open>The loop that links a node: at every level \<open>i\<close> of \<open>is\<close> the node \<open>x\<close> takes over what
  followed \<open>prev ! i\<close> and follows it.\<close>

lemma link_levels_correct:
  assumes "distinct is" and "x < length (nodes s)"
    and "\<forall>i \<in> set is. i < node_height s x \<and> prev ! i < length (nodes s) \<and> i < node_height s (prev ! i) \<and> prev ! i \<noteq> x"
  shows "\<exists>s'. link_levels prev x is s = Inr s' \<and> length (nodes s') = length (nodes s) \<and>
    max_height s' = max_height s \<and>
    (\<forall>y. node_height s' y = node_height s y \<and> node_key (nodes s' ! y) = node_key (nodes s ! y)) \<and>
    (\<forall>l y. nx s' l y = (if l \<in> set is then
        if y = prev ! l then Some x else if y = x then nx s l (prev ! l) else nx s l y
      else nx s l y))"
  using assms
proof (induction "is" arbitrary: s)
  case Nil
  then show ?case by simp
next
  case (Cons i "is")
  have i: "i < node_height s x" "prev ! i < length (nodes s)" "i < node_height s (prev ! i)" "prev ! i \<noteq> x"
    using Cons.prems(3) by auto
  obtain s1 where s1: "SetNext x i (nx s i (prev ! i)) s = Inr s1"
    using SetNext_ok [OF Cons.prems(2) i(1)] by blast
  note n1 = SetNext_nx [OF s1]
  obtain s2 where s2: "SetNext (prev ! i) i (Some x) s1 = Inr s2"
    using SetNext_ok [of "prev ! i" s1 i] i n1(1,4) by auto
  note n2 = SetNext_nx [OF s2]
  obtain s' where s': "link_levels prev x is s2 = Inr s'" "length (nodes s') = length (nodes s2)"
    "max_height s' = max_height s2"
    "\<forall>y. node_height s' y = node_height s2 y \<and> node_key (nodes s' ! y) = node_key (nodes s2 ! y)"
    "\<forall>l y. nx s' l y = (if l \<in> set is then
        if y = prev ! l then Some x else if y = x then nx s2 l (prev ! l) else nx s2 l y
      else nx s2 l y)"
    using Cons.IH [of s2] Cons.prems n1(1,4) n2(1,4) by auto
  have "Next s (prev ! i) i = Inr (nx s i (prev ! i))"
    using i(2,3) by (simp add: Next_def nx_def node_height_def)
  then have "link_levels prev x (i # is) s = Inr s'" using s1 s2 s'(1) by simp
  moreover have "i \<notin> set is" using Cons.prems(1) by simp
  then have "nx s' l y = (if l \<in> set (i # is) then
        if y = prev ! l then Some x else if y = x then nx s l (prev ! l) else nx s l y
      else nx s l y)" for l y
    using s'(5) n2(6) n1(6) i(4) by auto
  ultimately show ?case using s'(2-4) n1(1,2,4,5) n2(1,2,4,5) by auto
qed

lemma random_height_bounds: "0 < h \<Longrightarrow> h \<le> kMaxHeight \<Longrightarrow>
    0 < fst (random_height_loop h seed) \<and> fst (random_height_loop h seed) \<le> kMaxHeight"
proof (induction h seed rule: random_height_loop.induct)
  case (1 h seed)
  then show ?case by (subst (1 2) random_height_loop.simps) (auto simp: Let_def)
qed

section \<open>Searching\<close>

text \<open>What the list relies on of its comparator: on the keys it is used with (\<open>ok\<close>) it
  decides a strict order.\<close>

locale key_order =
  fixes cmp :: "'k \<Rightarrow> 'k \<Rightarrow> int res"
    and ok :: "'k \<Rightarrow> bool"
    and before :: "'k \<Rightarrow> 'k \<Rightarrow> bool"
  assumes cmp_before: "ok a \<Longrightarrow> ok b \<Longrightarrow> cmp a b = Inr (if before a b then -1 else if before b a then 1 else 0)"
    and before_trans: "ok a \<Longrightarrow> ok b \<Longrightarrow> ok c \<Longrightarrow> before a b \<Longrightarrow> before b c \<Longrightarrow> before a c"
    and before_irrefl: "ok a \<Longrightarrow> \<not> before a a"
begin

text \<open>A list whose keys are sorted, and its split at a key: the nodes before the key, and
  the others.\<close>

definition sl_sorted :: "'k skiplist \<Rightarrow> nat list \<Rightarrow> bool" where
  "sl_sorted s xs \<longleftrightarrow> sl_rep s xs \<and> (\<forall>i \<in> set xs. ok (keyed s i)) \<and>
     sorted_wrt before (sl_keys s xs)"

definition split_at :: "'k skiplist \<Rightarrow> 'k \<Rightarrow> nat list \<Rightarrow> nat list \<Rightarrow> bool" where
  "split_at s key as bs \<longleftrightarrow> sl_sorted s (as @ bs) \<and> ok key \<and>
     (\<forall>i \<in> set as. before (keyed s i) key) \<and> (\<forall>i \<in> set bs. \<not> before (keyed s i) key)"

lemma split_exists:
  assumes "sl_sorted s xs" and "ok key"
  shows "\<exists>as bs. xs = as @ bs \<and> split_at s key as bs"
proof -
  let ?P = "\<lambda>i. before (keyed s i) key"
  let ?as = "takeWhile ?P xs" and ?bs = "dropWhile ?P xs"
  have xs: "xs = ?as @ ?bs" by simp
  have "\<not> ?P i" if "i \<in> set ?bs" for i
  proof (cases ?bs)
    case (Cons b cs)
    have nb: "\<not> ?P b" using Cons hd_dropWhile [of ?P xs] by auto
    have "sorted_wrt before (map (keyed s) (?as @ ?bs))"
      using assms(1) by (simp add: sl_sorted_def sl_keys_def)
    then have "sorted_wrt before (map (keyed s) ?bs)" by (simp only: map_append sorted_wrt_append)
    then have "i = b \<or> before (keyed s b) (keyed s i)" using that Cons by auto
    moreover have "ok (keyed s b)" "ok (keyed s i)"
      using assms(1) Cons that set_dropWhileD [of _ ?P xs] by (auto simp: sl_sorted_def)
    ultimately show ?thesis using nb before_trans assms(2) by blast
  next
    case Nil
    have "i \<in> set []" using that unfolding Nil .
    then show ?thesis by simp
  qed
  then have "\<forall>i \<in> set ?bs. \<not> ?P i" by blast
  moreover have "\<forall>i \<in> set ?as. ?P i" using set_takeWhileD [of _ ?P xs] by blast
  ultimately have "split_at s key ?as ?bs"
    unfolding split_at_def takeWhile_dropWhile_id using assms by blast
  with xs show ?thesis by (intro exI conjI)
qed

lemma KeyIsAfterNode_split:
  assumes "split_at s key as bs"
  shows "y \<in> set as \<Longrightarrow> KeyIsAfterNode cmp s key (Some y) = Inr True"
    and "y \<in> set bs \<Longrightarrow> KeyIsAfterNode cmp s key (Some y) = Inr False"
    and "KeyIsAfterNode cmp s key None = Inr False"
proof -
  have r: "sl_rep s (as @ bs)" "ok key" "\<And>i. i \<in> set (as @ bs) \<Longrightarrow> ok (keyed s i)"
    using assms by (auto simp: split_at_def sl_sorted_def)
  show "y \<in> set as \<Longrightarrow> KeyIsAfterNode cmp s key (Some y) = Inr True"
    "y \<in> set bs \<Longrightarrow> KeyIsAfterNode cmp s key (Some y) = Inr False"
    using assms key_of_rep [OF r(1), of y] r(2,3) cmp_before [of "keyed s y" key]
    by (auto simp: KeyIsAfterNode_def split_at_def)
  show "KeyIsAfterNode cmp s key None = Inr False" by (simp add: KeyIsAfterNode_def)
qed

text \<open>The node a search leaves a level at, and the one it sees there.\<close>

definition prev_at :: "'k skiplist \<Rightarrow> nat list \<Rightarrow> nat \<Rightarrow> nat" where
  "prev_at s as l = last_or_head (level s l as)"

definition obs_at :: "'k skiplist \<Rightarrow> nat list \<Rightarrow> nat \<Rightarrow> nat option" where
  "obs_at s bs l = hd_opt (level s l bs)"

text \<open>One step of a walk on a level: there is a next node before the key, or the walk has
  arrived.\<close>

lemma walk_step:
  assumes "split_at s key (cs @ ds) bs" and "l < kMaxHeight" and "x = last_or_head cs"
    and "cs = [] \<or> l < node_height s x"
  shows "level s l ds = [] \<and> Next s x l = Inr (obs_at s bs l) \<and> x = prev_at s (cs @ ds) l \<and>
      KeyIsAfterNode cmp s key (obs_at s bs l) = Inr False \<or>
    (\<exists>es y fs. ds = es @ y # fs \<and> l < node_height s y \<and> Next s x l = Inr (Some y) \<and>
      KeyIsAfterNode cmp s key (Some y) = Inr True)"
proof (cases "level s l ds")
  case Nil
  have "Next s x l = Inr (hd_opt (level s l (ds @ bs)))"
    using assms by (intro Next_rep [where as = cs]) (auto simp: split_at_def sl_sorted_def)
  moreover have "x = prev_at s (cs @ ds) l"
    using Nil assms(3,4) by (cases cs rule: rev_cases) (auto simp: prev_at_def last_or_head_def level_Cons)
  moreover have "KeyIsAfterNode cmp s key (obs_at s bs l) = Inr False"
  proof (cases "level s l bs")
    case (Cons b zs)
    then have "b \<in> set bs" using set_level [of s l bs] by auto
    then show ?thesis using KeyIsAfterNode_split(2) [OF assms(1)] Cons by (simp add: obs_at_def)
  qed (simp add: obs_at_def KeyIsAfterNode_split(3) [OF assms(1)])
  ultimately show ?thesis using Nil by (simp add: obs_at_def)
next
  case (Cons y zs)
  then obtain es fs where ds: "ds = es @ y # fs" "l < node_height s y"
    by (auto simp: level_def filter_eq_Cons_iff)
  have "Next s x l = Inr (hd_opt (level s l (ds @ bs)))"
    using assms by (intro Next_rep [where as = cs]) (auto simp: split_at_def sl_sorted_def)
  then have "Next s x l = Inr (Some y)" using Cons by simp
  moreover have "KeyIsAfterNode cmp s key (Some y) = Inr True"
    using KeyIsAfterNode_split(1) [OF assms(1)] ds by simp
  ultimately show ?thesis using ds by blast
qed

lemma find_ge_loop_correct:
  assumes "split_at s key (cs @ ds) bs" and "l < kMaxHeight" and "x = last_or_head cs"
    and "cs = [] \<or> l < node_height s x" and "length ds + l < fuel"
  shows "\<exists>prev' obs'. find_ge_loop cmp s key fuel x l prev obs = Inr (obs_at s bs 0, prev', obs') \<and>
    length prev' = length prev \<and> length obs' = length obs \<and>
    (\<forall>i < length prev. prev' ! i = (if i \<le> l then prev_at s (cs @ ds) i else prev ! i)) \<and>
    (\<forall>i < length obs. obs' ! i = (if i \<le> l then obs_at s bs i else obs ! i))"
  using assms
proof (induction fuel arbitrary: cs ds x l prev obs)
  case 0
  then show ?case by simp
next
  case (Suc fuel)
  from walk_step [OF Suc.prems(1-4)] show ?case
  proof (elim disjE exE conjE)
    assume "level s l ds = []" and n: "Next s x l = Inr (obs_at s bs l)" and x: "x = prev_at s (cs @ ds) l"
      and k: "KeyIsAfterNode cmp s key (obs_at s bs l) = Inr False"
    show ?thesis
    proof (cases l)
      case 0
      then show ?thesis using n k x
        by (cases "obs_at s bs 0") (auto simp: Let_def nth_list_update)
    next
      case l: (Suc l')
      have "\<exists>prev' obs'. find_ge_loop cmp s key fuel x l' (prev[l := x]) (obs[l := obs_at s bs l]) =
          Inr (obs_at s bs 0, prev', obs') \<and>
        length prev' = length (prev[l := x]) \<and> length obs' = length (obs[l := obs_at s bs l]) \<and>
        (\<forall>i < length (prev[l := x]). prev' ! i = (if i \<le> l' then prev_at s (cs @ ds) i else prev[l := x] ! i)) \<and>
        (\<forall>i < length (obs[l := obs_at s bs l]).
          obs' ! i = (if i \<le> l' then obs_at s bs i else obs[l := obs_at s bs l] ! i))"
        using l Suc.prems by (intro Suc.IH) auto
      then obtain prev' obs' where r:
        "find_ge_loop cmp s key fuel x l' (prev[l := x]) (obs[l := obs_at s bs l]) = Inr (obs_at s bs 0, prev', obs')"
        "length prev' = length prev" "length obs' = length obs"
        "\<And>i. i < length prev \<Longrightarrow> prev' ! i = (if i \<le> l' then prev_at s (cs @ ds) i else prev[l := x] ! i)"
        "\<And>i. i < length obs \<Longrightarrow> obs' ! i = (if i \<le> l' then obs_at s bs i else obs[l := obs_at s bs l] ! i)"
        by auto
      have "find_ge_loop cmp s key (Suc fuel) x l prev obs =
          find_ge_loop cmp s key fuel x l' (prev[l := x]) (obs[l := obs_at s bs l])"
        using n k l by (cases "obs_at s bs l") (simp_all add: Let_def)
      moreover have "prev' ! i = (if i \<le> l then prev_at s (cs @ ds) i else prev ! i)" if "i < length prev" for i
        using r(4) [OF that] that l x by (cases "i = l") simp_all
      moreover have "obs' ! i = (if i \<le> l then obs_at s bs i else obs ! i)" if "i < length obs" for i
        using r(5) [OF that] that l by (cases "i = l") simp_all
      ultimately show ?thesis using r(1-3) by auto
    qed
  next
    fix es y fs
    assume ds: "ds = es @ y # fs" and y: "l < node_height s y" and n: "Next s x l = Inr (Some y)"
      and k: "KeyIsAfterNode cmp s key (Some y) = Inr True"
    have "\<exists>prev' obs'. find_ge_loop cmp s key fuel y l prev obs = Inr (obs_at s bs 0, prev', obs') \<and>
      length prev' = length prev \<and> length obs' = length obs \<and>
      (\<forall>i < length prev. prev' ! i = (if i \<le> l then prev_at s ((cs @ es @ [y]) @ fs) i else prev ! i)) \<and>
      (\<forall>i < length obs. obs' ! i = (if i \<le> l then obs_at s bs i else obs ! i))"
      using Suc.prems y ds by (intro Suc.IH) (auto simp: last_or_head_def)
    moreover have "(cs @ es @ [y]) @ fs = cs @ ds" using ds by simp
    moreover have "find_ge_loop cmp s key (Suc fuel) x l prev obs = find_ge_loop cmp s key fuel y l prev obs"
      using n k by simp
    ultimately show ?thesis by (simp only:)
  qed
qed

lemma FindGreaterOrEqual_correct:
  assumes "split_at s key as bs"
  shows "\<exists>prev' obs'. FindGreaterOrEqual cmp s key prev obs = Inr (obs_at s bs 0, prev', obs') \<and>
    length prev' = length prev \<and> length obs' = length obs \<and>
    (\<forall>i < length prev. prev' ! i = (if i < max_height s then prev_at s as i else prev ! i)) \<and>
    (\<forall>i < length obs. obs' ! i = (if i < max_height s then obs_at s bs i else obs ! i))"
proof -
  have r: "sl_rep s (as @ bs)" using assms by (simp add: split_at_def sl_sorted_def)
  then have h: "0 < max_height s" "max_height s \<le> kMaxHeight" by (auto simp: sl_rep_def)
  have "\<exists>prev' obs'. find_ge_loop cmp s key (search_fuel s) 0 (max_height s - 1) prev obs =
      Inr (obs_at s bs 0, prev', obs') \<and> length prev' = length prev \<and> length obs' = length obs \<and>
    (\<forall>i < length prev. prev' ! i = (if i \<le> max_height s - 1 then prev_at s ([] @ as) i else prev ! i)) \<and>
    (\<forall>i < length obs. obs' ! i = (if i \<le> max_height s - 1 then obs_at s bs i else obs ! i))"
    using assms h rep_length [OF r]
    by (intro find_ge_loop_correct) (auto simp: last_or_head_def search_fuel_def)
  then show ?thesis using h by (auto simp: FindGreaterOrEqual_def less_Suc_eq_le [symmetric])
qed

text \<open>A hint for a key in a list that has changed since: its nodes stand before the key and
  what it saw stands behind.\<close>

definition hint_ok :: "'k skiplist \<Rightarrow> nat list \<Rightarrow> nat list \<Rightarrow> hint \<Rightarrow> bool" where
  "hint_ok s as bs ih \<longleftrightarrow> length (hint_prev ih) = kMaxHeight \<and> length (hint_obs ih) = kMaxHeight \<and>
     (\<forall>l < kMaxHeight.
        (hint_prev ih ! l = 0 \<or> hint_prev ih ! l \<in> set as \<and> l < node_height s (hint_prev ih ! l)) \<and>
        (case hint_obs ih ! l of None \<Rightarrow> True | Some b \<Rightarrow> b \<in> set bs))"

lemma prev_at_in: "prev_at s as l = 0 \<or> prev_at s as l \<in> set as \<and> l < node_height s (prev_at s as l)"
proof (cases "level s l as")
  case (Cons y ys)
  then have "last (level s l as) \<in> set (level s l as)" by (intro last_in_set) simp
  then show ?thesis using Cons unfolding set_level by (auto simp: prev_at_def last_or_head_def)
qed (simp add: prev_at_def last_or_head_def)

lemma obs_at_in: "case obs_at s bs l of None \<Rightarrow> True | Some b \<Rightarrow> b \<in> set bs"
proof (cases "level s l bs")
  case (Cons y ys)
  then have "y \<in> set (level s l bs)" by simp
  then show ?thesis using Cons unfolding set_level by (simp add: obs_at_def)
qed (simp add: obs_at_def)

lemma InsertHint_ok:
  assumes "split_at s key as bs"
  shows "\<exists>ih. InsertHint cmp s key = Inr ih \<and> hint_ok s as bs ih"
proof -
  obtain prev obs where f: "FindGreaterOrEqual cmp s key (replicate kMaxHeight 0) (replicate kMaxHeight None) =
      Inr (obs_at s bs 0, prev, obs)" "length prev = kMaxHeight" "length obs = kMaxHeight"
    "\<forall>i < kMaxHeight. prev ! i = (if i < max_height s then prev_at s as i else 0)"
    "\<forall>i < kMaxHeight. obs ! i = (if i < max_height s then obs_at s bs i else None)"
    using FindGreaterOrEqual_correct [OF assms, of "replicate kMaxHeight 0" "replicate kMaxHeight None"] by auto
  then have "hint_ok s as bs \<lparr>hint_x = obs_at s bs 0, hint_prev = prev, hint_obs = obs\<rparr>"
    using prev_at_in obs_at_in by (simp add: hint_ok_def)
  then show ?thesis using f(1) by (simp add: InsertHint_def)
qed

lemma update_level_correct:
  assumes "split_at s key (cs @ ds) bs" and "l < kMaxHeight" and "x = last_or_head cs"
    and "cs = [] \<or> l < node_height s x" and "case seen of None \<Rightarrow> True | Some b \<Rightarrow> b \<in> set bs"
    and "length ds < fuel"
  shows "update_level cmp s key l x seen fuel = Inr (prev_at s (cs @ ds) l, obs_at s bs l)"
  using assms
proof (induction fuel arbitrary: cs ds x)
  case 0
  then show ?case by simp
next
  case (Suc fuel)
  from walk_step [OF Suc.prems(1-4)] show ?case
  proof (elim disjE exE conjE)
    assume "Next s x l = Inr (obs_at s bs l)" "x = prev_at s (cs @ ds) l"
      "KeyIsAfterNode cmp s key (obs_at s bs l) = Inr False"
    then show ?thesis by (cases "obs_at s bs l") simp_all
  next
    fix es y fs
    assume ds: "ds = es @ y # fs" and y: "l < node_height s y" and n: "Next s x l = Inr (Some y)"
      and k: "KeyIsAfterNode cmp s key (Some y) = Inr True"
    have "distinct ((cs @ ds) @ bs)" using Suc.prems(1) by (simp add: split_at_def sl_sorted_def sl_rep_def)
    then have "Some y \<noteq> seen" using ds Suc.prems(5) by (auto split: option.splits)
    then have "update_level cmp s key l x seen (Suc fuel) = update_level cmp s key l y seen fuel"
      using n k by simp
    also have "\<dots> = Inr (prev_at s ((cs @ es @ [y]) @ fs) l, obs_at s bs l)"
      using Suc.prems y ds by (intro Suc.IH) (auto simp: last_or_head_def)
    also have "(cs @ es @ [y]) @ fs = cs @ ds" using ds by simp
    finally show ?thesis .
  qed
qed

lemma hint_ok_update:
  assumes "hint_ok s as bs ih"
  shows "hint_ok s as bs
    (ih\<lparr>hint_prev := (hint_prev ih)[l := prev_at s as l], hint_obs := (hint_obs ih)[l := obs_at s bs l]\<rparr>)"
proof -
  have len: "length (hint_prev ih) = kMaxHeight" "length (hint_obs ih) = kMaxHeight"
    using assms by (auto simp: hint_ok_def)
  have "(hint_prev ih)[l := prev_at s as l] ! i = 0 \<or> (hint_prev ih)[l := prev_at s as l] ! i \<in> set as \<and>
      i < node_height s ((hint_prev ih)[l := prev_at s as l] ! i)"
    "case (hint_obs ih)[l := obs_at s bs l] ! i of None \<Rightarrow> True | Some b \<Rightarrow> b \<in> set bs"
    if "i < kMaxHeight" for i
    using assms that len prev_at_in [where s = s and as = as and l = i] obs_at_in [where s = s and bs = bs and l = i]
    by (cases "i = l"; simp add: hint_ok_def)+
  then show ?thesis using len by (simp add: hint_ok_def)
qed

lemma update_levels_correct:
  assumes "split_at s key as bs" and "hint_ok s as bs ih" and "distinct ls" and "set ls \<subseteq> {..< kMaxHeight}"
  shows "\<exists>ih'. update_levels cmp s key ls ih = Inr ih' \<and> hint_ok s as bs ih' \<and>
    (\<forall>l < kMaxHeight. hint_prev ih' ! l = (if l \<in> set ls then prev_at s as l else hint_prev ih ! l) \<and>
       hint_obs ih' ! l = (if l \<in> set ls then obs_at s bs l else hint_obs ih ! l))"
  using assms(2-4)
proof (induction ls arbitrary: ih)
  case Nil
  then show ?case by simp
next
  case (Cons l ls)
  let ?x = "hint_prev ih ! l"
  have l: "l < kMaxHeight" using Cons.prems(3) by simp
  have h: "?x = 0 \<or> ?x \<in> set as \<and> l < node_height s ?x"
    "case hint_obs ih ! l of None \<Rightarrow> True | Some b \<Rightarrow> b \<in> set bs"
    using Cons.prems(1) l by (auto simp: hint_ok_def)
  obtain cs ds where c: "as = cs @ ds" "?x = last_or_head cs" "cs = [] \<or> l < node_height s ?x"
  proof (cases "?x = 0")
    case True
    then show ?thesis using that [of "[]" as] by (simp add: last_or_head_def)
  next
    case False
    then obtain us vs where "as = us @ ?x # vs" using h(1) by (meson split_list)
    then show ?thesis using that [of "us @ [?x]" vs] h(1) False by (simp add: last_or_head_def)
  qed
  have "sl_rep s (as @ bs)" using assms(1) by (simp add: split_at_def sl_sorted_def)
  from rep_length [OF this] have "length ds < search_fuel s" using c(1) by (simp add: search_fuel_def)
  then have u: "update_level cmp s key l ?x (hint_obs ih ! l) (search_fuel s) = Inr (prev_at s as l, obs_at s bs l)"
    using update_level_correct [of s key cs ds bs l ?x "hint_obs ih ! l"] assms(1) c l h(2) by simp
  let ?ih = "ih\<lparr>hint_prev := (hint_prev ih)[l := prev_at s as l], hint_obs := (hint_obs ih)[l := obs_at s bs l]\<rparr>"
  have "hint_ok s as bs ?ih" using Cons.prems(1) by (rule hint_ok_update)
  then obtain ih' where ih': "update_levels cmp s key ls ?ih = Inr ih'" "hint_ok s as bs ih'"
    "\<forall>l < kMaxHeight. hint_prev ih' ! l = (if l \<in> set ls then prev_at s as l else hint_prev ?ih ! l) \<and>
       hint_obs ih' ! l = (if l \<in> set ls then obs_at s bs l else hint_obs ?ih ! l)"
    using Cons.IH [of ?ih] Cons.prems(2,3) by auto
  have len: "length (hint_prev ih) = kMaxHeight" "length (hint_obs ih) = kMaxHeight"
    using Cons.prems(1) by (auto simp: hint_ok_def)
  have "update_levels cmp s key (l # ls) ih = Inr ih'" using u ih'(1) by simp
  then show ?case using ih'(2,3) len by (auto simp: nth_list_update)
qed

lemma UpdateHint_correct:
  assumes "split_at s key as bs" and "hint_ok s as bs ih"
  shows "\<exists>ih'. UpdateHint cmp s key ih = Inr ih' \<and> hint_x ih' = obs_at s bs 0 \<and>
    (\<forall>l < kMaxHeight. hint_prev ih' ! l = prev_at s as l)"
proof -
  obtain ih' where "update_levels cmp s key [0..<kMaxHeight] ih = Inr ih'"
    "\<forall>l < kMaxHeight. hint_prev ih' ! l = prev_at s as l" "hint_obs ih' ! 0 = obs_at s bs 0"
    using update_levels_correct [OF assms, of "[0..<kMaxHeight]"]
    by (auto simp: kMaxHeight_def lessThan_atLeast0)
  then show ?thesis by (simp add: UpdateHint_def)
qed

text \<open>Linking a node \<open>n\<close> between \<open>as\<close> and \<open>bs\<close>, at its levels, gives the list with \<open>n\<close>.\<close>

lemma link_rep:
  assumes rep: "sl_rep s (as @ bs)" and n: "n = length (nodes s)" and len: "length (nodes s') = Suc n"
    and h: "0 < h" "h \<le> kMaxHeight" and m: "max_height s' = max (max_height s) h"
    and old: "\<forall>y < n. node_height s' y = node_height s y \<and> node_key (nodes s' ! y) = node_key (nodes s ! y)"
    and new: "node_height s' n = h" "node_key (nodes s' ! n) = Some key"
    and nxs: "\<forall>l < kMaxHeight. \<forall>y < n. nx s' l y = (if l < h \<and> y = prev_at s as l then Some n else nx s l y)"
    and nxn: "\<forall>l < h. nx s' l n = nx s l (prev_at s as l)"
  shows "sl_rep s' (as @ n # bs)"
proof -
  have in_n: "0 < i \<and> i < n" if "i \<in> set (as @ bs)" for i using rep that n by (simp add: sl_rep_def)
  have lev: "level s' l xs = level s l xs" if "set xs \<subseteq> set (as @ bs)" for l xs
    unfolding level_def using that in_n old by (intro filter_cong) auto
  have "links (nx s' l) (0 # level s' l (as @ n # bs))" if l: "l < kMaxHeight" for l
  proof -
    obtain ys where ys: "0 # level s l as = ys @ [prev_at s as l]"
      using last_or_head_split unfolding prev_at_def by blast
    have f: "links (nx s l) (ys @ prev_at s as l # level s l bs)"
      using rep l ys unfolding sl_rep_def by (metis append_Cons append_assoc append_Nil level_append)
    have set: "set (ys @ prev_at s as l # level s l bs) = insert 0 (set (level s l as) \<union> set (level s l bs))"
    proof -
      have "ys @ prev_at s as l # level s l bs = (0 # level s l as) @ level s l bs" unfolding ys by simp
      from arg_cong [OF this, of set] show ?thesis by (simp only: set_append set_simps Un_insert_left)
    qed
    then have below: "i < n" if "i \<in> set (ys @ prev_at s as l # level s l bs)" for i
      using that in_n rep n unfolding set set_level by (auto simp: sl_rep_def)
    have d: "distinct (ys @ prev_at s as l # level s l bs)"
    proof -
      have "distinct (0 # level s l as @ level s l bs)"
        using rep in_n unfolding sl_rep_def level_def by auto
      then show ?thesis using ys by (metis append_Cons append_assoc append_Nil)
    qed
    show ?thesis
    proof (cases "l < h")
      case True
      have "links (nx s' l) (ys @ prev_at s as l # n # level s l bs)"
        by (rule links_insert [OF f _ d]) (use below nxs nxn l True in auto)
      moreover have "0 # level s' l (as @ n # bs) = ys @ prev_at s as l # n # level s l bs"
        using ys True new(1) lev [of as l] lev [of bs l] by (simp add: level_Cons)
      ultimately show ?thesis by (simp only:)
    next
      case False
      have "links (nx s' l) (ys @ prev_at s as l # level s l bs)"
        using f links_cong [of "ys @ prev_at s as l # level s l bs" "nx s' l" "nx s l"] below nxs l False by auto
      moreover have "0 # level s' l (as @ n # bs) = ys @ prev_at s as l # level s l bs"
        using ys False new(1) lev [of as l] lev [of bs l] by (simp add: level_Cons)
      ultimately show ?thesis by (simp only:)
    qed
  qed
  moreover have "0 < i \<and> i < length (nodes s') \<and> node_key (nodes s' ! i) \<noteq> None \<and>
      0 < node_height s' i \<and> node_height s' i \<le> max_height s'" if "i \<in> set (as @ n # bs)" for i
  proof (cases "i = n")
    case True
    then show ?thesis using rep n len h m new by (auto simp: sl_rep_def)
  next
    case False
    then have i: "i \<in> set (as @ bs)" using that by auto
    then have "node_key (nodes s ! i) \<noteq> None \<and> 0 < node_height s i \<and> node_height s i \<le> max_height s"
      using rep by (simp add: sl_rep_def)
    then show ?thesis using old in_n [OF i] len m by auto
  qed
  moreover have "distinct (as @ n # bs)" using rep in_n by (auto simp: sl_rep_def)
  moreover have "0 < n" "node_height s 0 = kMaxHeight" "0 < max_height s" "max_height s \<le> kMaxHeight"
    using rep n by (auto simp: sl_rep_def)
  ultimately show ?thesis using len h m old unfolding sl_rep_def by auto
qed

lemma prev_at_bounds:
  assumes "sl_rep s (as @ bs)" and "l < kMaxHeight"
  shows "prev_at s as l < length (nodes s)" and "l < node_height s (prev_at s as l)"
    and "max_height s \<le> l \<Longrightarrow> prev_at s as l = 0"
proof -
  have c: "prev_at s as l = 0 \<or> prev_at s as l \<in> set as \<and> l < node_height s (prev_at s as l)"
    by (rule prev_at_in)
  then show "prev_at s as l < length (nodes s)" "l < node_height s (prev_at s as l)"
    using assms by (auto simp: sl_rep_def)
  have "node_height s i \<le> max_height s" if "i \<in> set as" for i
    using assms(1) that by (simp add: sl_rep_def)
  then show "prev_at s as l = 0" if "max_height s \<le> l" using c that by force
qed

text \<open>An insertion under a hint, fresh or stale, of a key that is not in the list.\<close>

lemma InsertWithHint_correct:
  assumes sp: "split_at s key as bs" and hint: "hint_ok s as bs ih"
    and new: "\<forall>i \<in> set bs. before key (keyed s i)" and n: "n = length (nodes s)"
  shows "\<exists>s'. InsertWithHint cmp ih key s = Inr s' \<and> sl_sorted s' (as @ n # bs) \<and> keyed s' n = key \<and>
    (\<forall>i < n. keyed s' i = keyed s i \<and> node_height s' i = node_height s i)"
proof -
  have rep: "sl_rep s (as @ bs)" and ok: "ok key" "\<forall>i \<in> set (as @ bs). ok (keyed s i)"
    using sp by (auto simp: split_at_def sl_sorted_def)
  obtain ih' where u: "UpdateHint cmp s key ih = Inr ih'" "hint_x ih' = obs_at s bs 0"
    "\<forall>l < kMaxHeight. hint_prev ih' ! l = prev_at s as l"
    using UpdateHint_correct [OF sp hint] by blast
  have a: "(case hint_x ih' of None \<Rightarrow> Inr True
      | Some x \<Rightarrow> bind_res (key_of s x) (\<lambda>k. bind_res (cmp key k) (\<lambda>r. Inr (r \<noteq> 0)))) = Inr True"
    using obs_at_in [where s = s and bs = bs and l = 0] u(2) new ok key_of_rep [OF rep] cmp_before
    by (auto split: option.splits)
  obtain h seed where r: "random_height_loop 1 (rnd s) = (h, seed)" by fastforce
  have h: "0 < h" "h \<le> kMaxHeight"
    using random_height_bounds [of 1 "rnd s"] r by (auto simp: kMaxHeight_def)
  define s1 where "s1 = (if h > max_height s then s\<lparr>rnd := seed, max_height := h\<rparr> else s\<lparr>rnd := seed\<rparr>)\<lparr>nodes := nodes s @ [\<lparr>node_key = Some key, node_next = replicate h None\<rparr>]\<rparr>"
  define prev where "prev = map (\<lambda>i. if h > max_height s \<and> max_height s \<le> i \<and> i < h then 0
    else hint_prev ih' ! i) [0..<kMaxHeight]"
  have p: "prev ! l = prev_at s as l" if "l < kMaxHeight" for l
    using that u(3) prev_at_bounds(3) [OF rep that] by (simp add: prev_def)
  have old: "node_height s1 y = node_height s y" "nx s1 l y = nx s l y"
    "node_key (nodes s1 ! y) = node_key (nodes s ! y)" if "y < n" for l y
    using that n by (simp_all add: s1_def node_height_def nx_def nth_append)
  have new1: "node_height s1 n = h" "node_key (nodes s1 ! n) = Some key" "length (nodes s1) = Suc n"
    using n by (simp_all add: s1_def node_height_def)
  have pre: "l < node_height s1 n \<and> prev ! l < length (nodes s1) \<and> l < node_height s1 (prev ! l) \<and> prev ! l \<noteq> n"
    if "l \<in> set [0..<h]" for l
  proof -
    have l: "l < h" "l < kMaxHeight" using that h by auto
    with prev_at_bounds(1,2) [OF rep l(2)] show ?thesis using new1 p old n by simp
  qed
  obtain s' where s': "link_levels prev n [0..<h] s1 = Inr s'" "length (nodes s') = length (nodes s1)"
    "max_height s' = max_height s1"
    "\<forall>y. node_height s' y = node_height s1 y \<and> node_key (nodes s' ! y) = node_key (nodes s1 ! y)"
    "\<forall>l y. nx s' l y = (if l \<in> set [0..<h] then
        if y = prev ! l then Some n else if y = n then nx s1 l (prev ! l) else nx s1 l y
      else nx s1 l y)"
    using link_levels_correct [of "[0..<h]" n s1 prev] pre new1(3) by auto
  have ins: "InsertWithHint cmp ih key s = Inr s'"
    using u(1) a r h s'(1) n
    by (cases "h > max_height s") (simp_all add: InsertWithHint_def RandomHeight_def NewNode_def prev_def s1_def)
  moreover have "sl_rep s' (as @ n # bs)"
  proof (rule link_rep [OF rep n _ h])
    show "\<forall>l < kMaxHeight. \<forall>y < n. nx s' l y = (if l < h \<and> y = prev_at s as l then Some n else nx s l y)"
      using s'(5) p old by auto
    show "\<forall>l < h. nx s' l n = nx s l (prev_at s as l)"
    proof (intro allI impI)
      fix l
      assume "l < h"
      with h have l: "l < h" "l < kMaxHeight" by auto
      have "prev_at s as l < n" using prev_at_bounds(1) [OF rep l(2)] n by simp
      then show "nx s' l n = nx s l (prev_at s as l)" using s'(5) l p [OF l(2)] old(2) by simp
    qed
  qed (use s' new1 old in \<open>auto simp: s1_def\<close>)
  moreover have k: "keyed s' i = keyed s i" "node_height s' i = node_height s i" if "i < n" for i
    using s'(4) old that by (simp_all add: keyed_def)
  moreover have kn: "keyed s' n = key" using s'(4) new1 by (simp add: keyed_def)
  moreover have keys: "sl_keys s' (as @ n # bs) = sl_keys s as @ key # sl_keys s bs"
    using rep k(1) kn n by (auto simp: sl_keys_def sl_rep_def)
  have "sorted_wrt before (sl_keys s as @ key # sl_keys s bs)"
    using sp new by (auto simp: split_at_def sl_sorted_def sl_keys_def sorted_wrt_append)
  moreover have "ok (keyed s' i)" if "i \<in> set (as @ n # bs)" for i
  proof -
    have "keyed s' i \<in> set (sl_keys s' (as @ n # bs))" using that by (auto simp: sl_keys_def)
    then show ?thesis unfolding keys using ok by (auto simp: sl_keys_def)
  qed
  ultimately have "sl_sorted s' (as @ n # bs)" unfolding sl_sorted_def keys by blast
  then show ?thesis using ins k kn by blast
qed

lemma InsertHint_stale:
  assumes sp: "split_at s key as bs" and hint: "hint_ok s as bs ih" and sp': "split_at s' key as' bs'"
    and more: "set (as @ bs) \<subseteq> set (as' @ bs')"
    and same: "\<forall>i \<in> set (as @ bs). keyed s' i = keyed s i \<and> node_height s' i = node_height s i"
  shows "hint_ok s' as' bs' ih"
proof -
  have "i \<in> set as'" if i: "i \<in> set as" for i
  proof -
    have "before (keyed s' i) key" using i sp same by (simp add: split_at_def)
    moreover have "i \<in> set (as' @ bs')" using i more by auto
    ultimately show ?thesis using sp' by (auto simp: split_at_def)
  qed
  moreover have "i \<in> set bs'" if i: "i \<in> set bs" for i
  proof -
    have "\<not> before (keyed s' i) key" using i sp same by (simp add: split_at_def)
    moreover have "i \<in> set (as' @ bs')" using i more by auto
    ultimately show ?thesis using sp' by (auto simp: split_at_def)
  qed
  ultimately show ?thesis using hint same by (auto simp: hint_ok_def split: option.splits)
qed

lemma find_less_loop_correct:
  assumes "split_at s key (cs @ ds) bs" and "l < kMaxHeight" and "x = last_or_head cs"
    and "cs = [] \<or> l < node_height s x" and "length ds + l < fuel"
  shows "find_less_loop cmp s key fuel x l = Inr (prev_at s (cs @ ds) 0)"
  using assms
proof (induction fuel arbitrary: cs ds x l)
  case 0
  then show ?case by simp
next
  case (Suc fuel)
  have c: "(if x = 0 then Inr (-1) else bind_res (key_of s x) (\<lambda>k. cmp k key)) = Inr (-1)"
  proof (cases "x = 0")
    case False
    then have "x \<in> set cs" using Suc.prems(3) by (auto simp: last_or_head_def split: if_splits)
    then show ?thesis using Suc.prems(1) key_of_rep [of s "(cs @ ds) @ bs" x] cmp_before [of "keyed s x" key] False
      by (auto simp: split_at_def sl_sorted_def)
  qed simp
  from walk_step [OF Suc.prems(1-4)] show ?case
  proof (elim disjE exE conjE)
    assume n: "Next s x l = Inr (obs_at s bs l)" and x: "x = prev_at s (cs @ ds) l"
      and k: "KeyIsAfterNode cmp s key (obs_at s bs l) = Inr False"
    have "find_less_loop cmp s key (Suc fuel) x l =
        (if l = 0 then Inr x else find_less_loop cmp s key fuel x (l - 1))"
      using n k c by (cases "obs_at s bs l") (auto simp: KeyIsAfterNode_def elim!: bind_res_Inr_E)
    moreover have "find_less_loop cmp s key fuel x (l - 1) = Inr (prev_at s (cs @ ds) 0)" if "l \<noteq> 0"
      using Suc.prems that by (intro Suc.IH) auto
    ultimately show ?thesis using x by simp
  next
    fix es y fs
    assume ds: "ds = es @ y # fs" and y: "l < node_height s y" and n: "Next s x l = Inr (Some y)"
      and k: "KeyIsAfterNode cmp s key (Some y) = Inr True"
    have "find_less_loop cmp s key (Suc fuel) x l = find_less_loop cmp s key fuel y l"
      using n k c by (auto simp: KeyIsAfterNode_def elim!: bind_res_Inr_E)
    also have "\<dots> = Inr (prev_at s ((cs @ es @ [y]) @ fs) 0)"
      using Suc.prems y ds by (intro Suc.IH) (auto simp: last_or_head_def)
    also have "(cs @ es @ [y]) @ fs = cs @ ds" using ds by simp
    finally show ?thesis .
  qed
qed

lemma level_0: "sl_rep s xs \<Longrightarrow> set ys \<subseteq> set xs \<Longrightarrow> level s 0 ys = ys"
  by (auto simp: level_def sl_rep_def intro: filter_True)

lemma split_level_0:
  assumes "split_at s key as bs"
  shows "prev_at s as 0 = last_or_head as" and "obs_at s bs 0 = hd_opt bs"
  using assms level_0 [of s "as @ bs" as] level_0 [of s "as @ bs" bs]
  by (auto simp: split_at_def sl_sorted_def prev_at_def obs_at_def)

lemma FindLessThan_correct:
  assumes "split_at s key as bs"
  shows "FindLessThan cmp s key = Inr (last_or_head as)"
proof -
  have r: "sl_rep s (as @ bs)" using assms by (simp add: split_at_def sl_sorted_def)
  then have "0 < max_height s" "max_height s \<le> kMaxHeight" by (auto simp: sl_rep_def)
  then have "find_less_loop cmp s key (search_fuel s) 0 (max_height s - 1) = Inr (prev_at s ([] @ as) 0)"
    using assms rep_length [OF r]
    by (intro find_less_loop_correct) (auto simp: last_or_head_def search_fuel_def)
  then show ?thesis using split_level_0 [OF assms] by (simp add: FindLessThan_def)
qed

lemma iter_Seek_correct:
  assumes "split_at s key as bs"
  shows "iter_Seek cmp s key = Inr (hd_opt bs)"
  using FindGreaterOrEqual_correct [OF assms, of "[]" "[]"] split_level_0 [OF assms] by (auto simp: iter_Seek_def)

lemma split_at_node:
  assumes "sl_sorted s (as @ x # bs)"
  shows "split_at s (keyed s x) as (x # bs)"
proof -
  have o: "\<forall>i \<in> set (as @ x # bs). ok (keyed s i)" and so: "sorted_wrt before (sl_keys s (as @ x # bs))"
    using assms by (simp_all add: sl_sorted_def)
  have "\<not> before (keyed s i) (keyed s x)" if "i \<in> set bs" for i
    using that so o before_trans [of "keyed s x" "keyed s i" "keyed s x"] before_irrefl
    by (auto simp: sl_keys_def sorted_wrt_append)
  moreover have "\<not> before (keyed s x) (keyed s x)" using o before_irrefl by simp
  moreover have "\<forall>i \<in> set as. before (keyed s i) (keyed s x)"
    using so by (auto simp: sl_keys_def sorted_wrt_append)
  ultimately show ?thesis using assms o by (auto simp: split_at_def)
qed

lemma iter_Prev_correct:
  assumes "sl_sorted s (as @ x # bs)"
  shows "iter_Prev cmp s (Some x) = Inr (if as = [] then None else Some (last as))"
proof -
  have r: "sl_rep s (as @ x # bs)" using assms by (simp add: sl_sorted_def)
  have "last as \<noteq> 0" if "as \<noteq> []" using that r by (auto simp: sl_rep_def)
  then show ?thesis
    using FindLessThan_correct [OF split_at_node [OF assms]] key_of_rep [OF r, of x]
    by (cases "as = []") (auto simp: iter_Prev_def last_or_head_def)
qed

lemma SkipList_Contains_correct:
  assumes "split_at s key as bs"
  shows "SkipList_Contains cmp key s = Inr (\<exists>b. hd_opt bs = Some b \<and> \<not> before key (keyed s b))"
proof -
  obtain prev obs where f: "FindGreaterOrEqual cmp s key [] [] = Inr (hd_opt bs, prev, obs)"
    using FindGreaterOrEqual_correct [OF assms, of "[]" "[]"] split_level_0 [OF assms] by auto
  show ?thesis
  proof (cases bs)
    case (Cons b cs)
    then have "cmp key (keyed s b) = Inr (if before key (keyed s b) then -1 else 0)"
      using assms cmp_before [of key "keyed s b"] by (auto simp: split_at_def sl_sorted_def)
    moreover have "key_of s b = Inr (keyed s b)"
      using assms Cons key_of_rep [of s "as @ bs" b] by (simp add: split_at_def sl_sorted_def)
    ultimately show ?thesis using f Cons by (simp add: SkipList_Contains_def)
  qed (use f in \<open>simp add: SkipList_Contains_def\<close>)
qed

end

section \<open>Iteration without keys\<close>

lemma iter_Next_rep:
  assumes "sl_rep s (as @ x # bs)"
  shows "iter_Next s (Some x) = Inr (hd_opt bs)"
proof -
  have "Next s x 0 = Inr (hd_opt (level s 0 bs))"
    using assms by (intro Next_rep [where as = "as @ [x]"]) (auto simp: last_or_head_def kMaxHeight_def sl_rep_def)
  moreover have "level s 0 bs = bs" using assms by (auto simp: level_def sl_rep_def intro: filter_True)
  ultimately show ?thesis by (simp add: iter_Next_def)
qed

lemma iter_SeekToFirst_rep:
  assumes "sl_rep s xs"
  shows "iter_SeekToFirst s = Inr (hd_opt xs)"
proof -
  have "Next s 0 0 = Inr (hd_opt (level s 0 xs))"
    using assms by (intro Next_rep [where as = "[]"]) (auto simp: last_or_head_def kMaxHeight_def)
  moreover have "level s 0 xs = xs" using assms by (auto simp: level_def sl_rep_def intro: filter_True)
  ultimately show ?thesis by (simp add: iter_SeekToFirst_def)
qed

lemma find_last_loop_rep:
  assumes "sl_rep s (cs @ ds)" and "l < kMaxHeight" and "x = last_or_head cs"
    and "cs = [] \<or> l < node_height s x" and "length ds + l < fuel"
  shows "find_last_loop s fuel x l = Inr (last_or_head (cs @ ds))"
  using assms
proof (induction fuel arbitrary: cs ds x l)
  case 0
  then show ?case by simp
next
  case (Suc fuel)
  have n: "Next s x l = Inr (hd_opt (level s l ds))" using Suc.prems by (intro Next_rep) auto
  show ?case
  proof (cases "level s l ds")
    case Nil
    have "find_last_loop s fuel x (l - 1) = Inr (last_or_head (cs @ ds))" if "l \<noteq> 0"
      using Suc.prems that by (intro Suc.IH) auto
    moreover have "ds = []" if "l = 0"
    proof (rule ccontr)
      assume "ds \<noteq> []"
      then have "hd ds \<in> set (level s l ds)" using that Suc.prems(1) by (cases ds) (auto simp: set_level sl_rep_def)
      then show False using Nil by simp
    qed
    ultimately show ?thesis using n Nil Suc.prems(3) by (cases "l = 0") auto
  next
    case (Cons y zs)
    then obtain es fs where ds: "ds = es @ y # fs" "l < node_height s y"
      by (auto simp: level_def filter_eq_Cons_iff)
    have "find_last_loop s fuel y l = Inr (last_or_head ((cs @ es @ [y]) @ fs))"
      using Suc.prems ds by (intro Suc.IH) (auto simp: last_or_head_def)
    then show ?thesis using n Cons ds(1) by simp
  qed
qed

lemma iter_SeekToLast_rep:
  assumes "sl_rep s xs"
  shows "iter_SeekToLast s = Inr (if xs = [] then None else Some (last xs))"
proof -
  have "0 < max_height s" "max_height s \<le> kMaxHeight" using assms by (auto simp: sl_rep_def)
  then have "FindLast s = Inr (last_or_head ([] @ xs))"
    unfolding FindLast_def using assms rep_length [OF assms]
    by (intro find_last_loop_rep) (auto simp: last_or_head_def search_fuel_def)
  moreover have "last xs \<noteq> 0" if "xs \<noteq> []" using that assms by (auto simp: sl_rep_def)
  ultimately show ?thesis by (cases "xs = []") (auto simp: iter_SeekToLast_def last_or_head_def)
qed

end
