(* ===== verification/LevelDbCoding.thy ===== *)
theory LevelDbCoding
  imports Prelude
begin

text \<open>
  The encodings of LevelDB, the store behind the sessions
  (\<^verbatim>\<open>src/ext/leveldb/util/coding.cc\<close>, \<^verbatim>\<open>coding.h\<close>): integers of fixed and of variable
  length and length-prefixed slices.

  A writer yields the bytes it appends.  A reader that takes a pointer and a limit gets
  the bytes between the two and yields the value and the bytes it left; \<open>None\<close> is the
  null pointer or \<^verbatim>\<open>false\<close>.  \<open>DecodeFixed\<close> has no limit: reading fewer bytes than it
  needs is out of bounds.  The machine is little-endian.
\<close>

unbundle bit_operations_syntax

section \<open>Fixed length\<close>

definition EncodeFixed32 :: "u32 \<Rightarrow> byte list" where
  "EncodeFixed32 v = [ucast v, ucast (drop_bit 8 v), ucast (drop_bit 16 v), ucast (drop_bit 24 v)]"

definition EncodeFixed64 :: "u64 \<Rightarrow> byte list" where
  "EncodeFixed64 v =
     [ucast v, ucast (drop_bit 8 v), ucast (drop_bit 16 v), ucast (drop_bit 24 v),
      ucast (drop_bit 32 v), ucast (drop_bit 40 v), ucast (drop_bit 48 v), ucast (drop_bit 56 v)]"

definition PutFixed32 :: "byte list \<Rightarrow> u32 \<Rightarrow> byte list" where
  "PutFixed32 dst v = dst @ EncodeFixed32 v"

definition PutFixed64 :: "byte list \<Rightarrow> u64 \<Rightarrow> byte list" where
  "PutFixed64 dst v = dst @ EncodeFixed64 v"

fun DecodeFixed32 :: "byte list \<Rightarrow> u32 res" where
  "DecodeFixed32 (a # b # c # d # _) =
     Inr (ucast a OR push_bit 8 (ucast b) OR push_bit 16 (ucast c) OR push_bit 24 (ucast d))"
| "DecodeFixed32 _ = Inl OutOfBounds"

definition DecodeFixed64 :: "byte list \<Rightarrow> u64 res" where
  "DecodeFixed64 p =
     bind_res (DecodeFixed32 p) (\<lambda>lo.
     bind_res (DecodeFixed32 (drop 4 p)) (\<lambda>hi.
     Inr (push_bit 32 (ucast hi) OR ucast lo)))"

section \<open>Variable length\<close>

definition EncodeVarint32 :: "u32 \<Rightarrow> byte list" where
  "EncodeVarint32 v =
     (if v < 2 ^ 7 then [ucast v]
      else if v < 2 ^ 14 then [ucast (v OR 128), ucast (drop_bit 7 v)]
      else if v < 2 ^ 21 then [ucast (v OR 128), ucast (drop_bit 7 v OR 128), ucast (drop_bit 14 v)]
      else if v < 2 ^ 28 then
        [ucast (v OR 128), ucast (drop_bit 7 v OR 128), ucast (drop_bit 14 v OR 128), ucast (drop_bit 21 v)]
      else
        [ucast (v OR 128), ucast (drop_bit 7 v OR 128), ucast (drop_bit 14 v OR 128),
         ucast (drop_bit 21 v OR 128), ucast (drop_bit 28 v)])"

definition PutVarint32 :: "byte list \<Rightarrow> u32 \<Rightarrow> byte list" where
  "PutVarint32 dst v = dst @ EncodeVarint32 v"

lemma drop_bit_7_less: "128 \<le> (v :: u64) \<Longrightarrow> unat (drop_bit 7 v) < unat v"
  by (simp add: unat_drop_bit word_le_nat_alt)

function EncodeVarint64 :: "u64 \<Rightarrow> byte list" where
  "EncodeVarint64 v =
     (if v \<ge> 128 then ucast (v AND 127 OR 128) # EncodeVarint64 (drop_bit 7 v) else [ucast v])"
  by pat_completeness auto
termination
  by (relation "measure unat") (simp_all add: drop_bit_7_less)

declare EncodeVarint64.simps [simp del]

definition PutVarint64 :: "byte list \<Rightarrow> u64 \<Rightarrow> byte list" where
  "PutVarint64 dst v = dst @ EncodeVarint64 v"

function VarintLength_loop :: "u64 \<Rightarrow> nat \<Rightarrow> nat" where
  "VarintLength_loop v len = (if v \<ge> 128 then VarintLength_loop (drop_bit 7 v) (len + 1) else len)"
  by pat_completeness auto
termination
  by (relation "measure (unat \<circ> fst)") (simp_all add: drop_bit_7_less)

declare VarintLength_loop.simps [simp del]

definition VarintLength :: "u64 \<Rightarrow> nat" where
  "VarintLength v = VarintLength_loop v 1"

fun varint32_loop :: "nat \<Rightarrow> u32 \<Rightarrow> byte list \<Rightarrow> (u32 \<times> byte list) option" where
  "varint32_loop shift result [] = None"
| "varint32_loop shift result (b # p) =
     (if shift \<le> 28 then
        if b AND 128 \<noteq> 0 then varint32_loop (shift + 7) (result OR push_bit shift (ucast b AND 127)) p
        else Some (result OR push_bit shift (ucast b), p)
      else None)"

definition GetVarint32PtrFallback :: "byte list \<Rightarrow> (u32 \<times> byte list) option" where
  "GetVarint32PtrFallback p = varint32_loop 0 0 p"

definition GetVarint32Ptr :: "byte list \<Rightarrow> (u32 \<times> byte list) option" where
  "GetVarint32Ptr p =
     (case p of
        b # q \<Rightarrow> if ucast b AND (128 :: u32) = 0 then Some (ucast b, q) else GetVarint32PtrFallback p
      | [] \<Rightarrow> GetVarint32PtrFallback p)"

definition GetVarint32 :: "byte list \<Rightarrow> (u32 \<times> byte list) option" where
  "GetVarint32 input = GetVarint32Ptr input"

fun varint64_loop :: "nat \<Rightarrow> u64 \<Rightarrow> byte list \<Rightarrow> (u64 \<times> byte list) option" where
  "varint64_loop shift result [] = None"
| "varint64_loop shift result (b # p) =
     (if shift \<le> 63 then
        if b AND 128 \<noteq> 0 then varint64_loop (shift + 7) (result OR push_bit shift (ucast b AND 127)) p
        else Some (result OR push_bit shift (ucast b), p)
      else None)"

definition GetVarint64Ptr :: "byte list \<Rightarrow> (u64 \<times> byte list) option" where
  "GetVarint64Ptr p = varint64_loop 0 0 p"

definition GetVarint64 :: "byte list \<Rightarrow> (u64 \<times> byte list) option" where
  "GetVarint64 input = GetVarint64Ptr input"

section \<open>Slices\<close>

definition PutLengthPrefixedSlice :: "byte list \<Rightarrow> byte list \<Rightarrow> byte list" where
  "PutLengthPrefixedSlice dst val = PutVarint32 dst (of_nat (length val)) @ val"

definition GetLengthPrefixedSlicePtr :: "byte list \<Rightarrow> (byte list \<times> byte list) option" where
  "GetLengthPrefixedSlicePtr p =
     (case GetVarint32Ptr p of
        None \<Rightarrow> None
      | Some (len, q) \<Rightarrow> if unat len > length q then None else Some (take (unat len) q, drop (unat len) q))"

definition GetLengthPrefixedSlice :: "byte list \<Rightarrow> (byte list \<times> byte list) option" where
  "GetLengthPrefixedSlice input =
     (case GetVarint32 input of
        None \<Rightarrow> None
      | Some (len, q) \<Rightarrow>
          if length q \<ge> unat len then Some (take (unat len) q, drop (unat len) q) else None)"

section \<open>Fixed length, read back\<close>

lemma Fixed32_roundtrip: "DecodeFixed32 (EncodeFixed32 v @ rest) = Inr v"
proof -
  have "ucast (ucast v :: byte) OR push_bit 8 (ucast (ucast (drop_bit 8 v) :: byte)) OR
      push_bit 16 (ucast (ucast (drop_bit 16 v) :: byte)) OR
      push_bit 24 (ucast (ucast (drop_bit 24 v) :: byte)) = v" (is "?l = v")
  proof (rule bit_eqI)
    fix i assume "possible_bit TYPE(32 word) i"
    then have "i < 32" by simp
    then show "bit ?l i = bit v i" unfolding bit_or_iff slice_bit low_bit by linarith
  qed
  then show ?thesis by (simp add: EncodeFixed32_def)
qed

lemma EncodeFixed64_halves:
  "EncodeFixed64 v = EncodeFixed32 (ucast v) @ EncodeFixed32 (ucast (drop_bit 32 v))"
proof -
  have low: "ucast (drop_bit k (ucast v :: u32)) = (ucast (drop_bit k v) :: byte)" if "k \<le> 24" for k
    using that by (intro bit_word_eqI) (auto simp: bit_simps)
  have high: "ucast (drop_bit k (ucast (drop_bit 32 v) :: u32)) = (ucast (drop_bit (32 + k) v) :: byte)"
    if "k \<le> 24" for k
    using that by (intro bit_word_eqI) (auto simp: bit_simps ac_simps)
  show ?thesis
    using low [of 0] low [of 8] low [of 16] low [of 24] high [of 0] high [of 8] high [of 16] high [of 24]
    by (simp add: EncodeFixed64_def EncodeFixed32_def)
qed

lemma Fixed64_roundtrip: "DecodeFixed64 (EncodeFixed64 v @ rest) = Inr v"
proof -
  have "push_bit 32 (ucast (ucast (drop_bit 32 v) :: u32)) OR ucast (ucast v :: u32) = v" (is "?l = v")
    by (rule bit_word_eqI) (auto simp: bit_simps)
  moreover have "drop 4 (EncodeFixed64 v @ rest) = EncodeFixed32 (ucast (drop_bit 32 v)) @ rest"
    by (simp add: EncodeFixed64_halves EncodeFixed32_def)
  ultimately show ?thesis
    using Fixed32_roundtrip [of "ucast v" "EncodeFixed32 (ucast (drop_bit 32 v)) @ rest"]
      Fixed32_roundtrip [of "ucast (drop_bit 32 v)" rest]
    by (simp add: DecodeFixed64_def) (simp add: EncodeFixed64_halves)
qed

lemma length_EncodeFixed [simp]: "length (EncodeFixed32 v) = 4" "length (EncodeFixed64 w) = 8"
  by (simp_all add: EncodeFixed32_def EncodeFixed64_def)


section \<open>Variable length, read back\<close>

text \<open>A byte that continues, and the seven bits it carries.\<close>

lemma cont_byte:
  fixes v :: u64
  shows "ucast (v AND 127 OR 128) AND (128 :: byte) \<noteq> 0"
    and "ucast (ucast (v AND 127 OR 128) :: byte) AND 127 = v AND 127"
    and "ucast (ucast (v AND 127 OR 128) :: byte) AND 127 = (ucast v AND 127 :: u32)"
proof -
  have "bit (ucast (v AND 127 OR 128) AND (128 :: byte)) 7"
    by (simp add: bit_simps bit_128)
  then show "ucast (v AND 127 OR 128) AND (128 :: byte) \<noteq> 0" by force
  show "ucast (ucast (v AND 127 OR 128) :: byte) AND 127 = v AND 127"
    "ucast (ucast (v AND 127 OR 128) :: byte) AND 127 = (ucast v AND 127 :: u32)"
    by (rule bit_word_eqI; auto simp: bit_simps bit_127 bit_128)+
qed

text \<open>The last byte.\<close>

lemma last_byte:
  fixes v :: u64
  assumes "\<not> 128 \<le> v"
  shows "ucast v AND (128 :: byte) = 0" and "ucast (ucast v :: byte) = v"
    and "ucast (ucast v :: byte) = (ucast v :: u32)"
proof -
  have "v < 2 ^ 7" using assms by (simp add: not_le)
  note b = bit_less_power [OF this, simplified]
  show "ucast v AND (128 :: byte) = 0"
    by (rule bit_word_eqI) (auto simp: bit_simps bit_128 dest: b)
  show "ucast (ucast v :: byte) = v" "ucast (ucast v :: byte) = (ucast v :: u32)"
    by (rule bit_word_eqI; auto simp: bit_simps dest: b)+
qed

lemma join_septets:
  fixes v :: "'a :: len word"
  shows "push_bit s (v AND 127) OR push_bit (s + 7) (drop_bit 7 v) = push_bit s v"
proof (rule bit_word_eqI)
  fix n assume n: "n < LENGTH('a)"
  consider "n < s" | "s \<le> n" "n < s + 7" | "s + 7 \<le> n" by linarith
  then show "bit (push_bit s (v AND 127) OR push_bit (s + 7) (drop_bit 7 v)) n = bit (push_bit s v) n"
  proof cases
    case 3
    then have "7 + (n - (s + 7)) = n - s" by simp
    then show ?thesis using 3 n by (auto simp: bit_simps bit_127)
  qed (use n in \<open>auto simp: bit_simps bit_127\<close>)
qed

lemma varint64_loop_encode:
  "unat v < 2 ^ (64 - shift) \<Longrightarrow> shift \<le> 63 \<Longrightarrow>
   varint64_loop shift result (EncodeVarint64 v @ rest) = Some (result OR push_bit shift v, rest)"
proof (induction v arbitrary: shift result rule: EncodeVarint64.induct)
  case (1 v)
  show ?case
  proof (cases "128 \<le> v")
    case True
    have "128 \<le> unat v" using True by (simp add: word_le_nat_alt)
    then have "(2::nat) ^ 7 < 2 ^ (64 - shift)" using "1.prems"(1) by simp
    then have s: "7 < 64 - shift" by (rule power_less_imp_less_exp [rotated]) simp
    have "unat (drop_bit 7 v) < 2 ^ (64 - (shift + 7))"
    proof -
      have "64 - shift = 7 + (64 - (shift + 7))" using s by simp
      then have "(2::nat) ^ (64 - shift) = 2 ^ 7 * 2 ^ (64 - (shift + 7))" by (metis power_add)
      then show ?thesis using "1.prems"(1) by (simp add: unat_drop_bit div_less_iff_less_mult)
    qed
    moreover have "shift + 7 \<le> 63" using s by simp
    ultimately show ?thesis
      using "1.IH" [OF True, of "shift + 7"] "1.prems"(2) True
      by (simp add: EncodeVarint64.simps [of v] cont_byte or.assoc join_septets del: push_bit_and)
  next
    case False
    then show ?thesis using "1.prems"(2) by (simp add: EncodeVarint64.simps [of v] last_byte)
  qed
qed

lemma Varint64_roundtrip: "GetVarint64 (EncodeVarint64 v @ rest) = Some (v, rest)"
  using varint64_loop_encode [of v 0 0 rest] unsigned_less [of v]
  by (simp add: GetVarint64_def GetVarint64Ptr_def)

lemma varint32_loop_encode:
  "unat v < 2 ^ (32 - shift) \<Longrightarrow> shift \<le> 28 \<Longrightarrow> 7 dvd shift \<Longrightarrow>
   varint32_loop shift result (EncodeVarint64 v @ rest) = Some (result OR push_bit shift (ucast v), rest)"
proof (induction v arbitrary: shift result rule: EncodeVarint64.induct)
  case (1 v)
  show ?case
  proof (cases "128 \<le> v")
    case True
    have "128 \<le> unat v" using True by (simp add: word_le_nat_alt)
    then have "(2::nat) ^ 7 < 2 ^ (32 - shift)" using "1.prems"(1) by simp
    then have s: "7 < 32 - shift" by (rule power_less_imp_less_exp [rotated]) simp
    have "unat (drop_bit 7 v) < 2 ^ (32 - (shift + 7))"
    proof -
      have "32 - shift = 7 + (32 - (shift + 7))" using s by simp
      then have "(2::nat) ^ (32 - shift) = 2 ^ 7 * 2 ^ (32 - (shift + 7))" by (metis power_add)
      then show ?thesis using "1.prems"(1) by (simp add: unat_drop_bit div_less_iff_less_mult)
    qed
    moreover have "shift + 7 \<le> 28" using s "1.prems"(3) by presburger
    moreover have "ucast (drop_bit 7 v) = drop_bit 7 (ucast v :: u32)"
    proof (rule bit_word_eqI)
      fix n
      have "unat v < 2 ^ 32" using "1.prems"(1) by (meson less_le_trans power_increasing diff_le_self one_le_numeral)
      then have "v < 2 ^ 32" by (simp add: word_less_nat_alt)
      then have "bit v i \<Longrightarrow> i < 32" for i by (rule bit_less_power) simp_all
      then show "bit (ucast (drop_bit 7 v) :: u32) n = bit (drop_bit 7 (ucast v :: u32)) n"
        by (fastforce simp: bit_simps)
    qed
    ultimately show ?thesis
      using "1.IH" [OF True, of "shift + 7"] "1.prems"(2,3) True
      by (simp add: EncodeVarint64.simps [of v] cont_byte or.assoc join_septets del: push_bit_and)
  next
    case False
    then show ?thesis using "1.prems"(2) by (simp add: EncodeVarint64.simps [of v] last_byte)
  qed
qed


section \<open>The unrolled encoder\<close>

lemma EncodeVarint64_step:
  fixes v :: u32
  assumes "k \<le> 28"
  shows "EncodeVarint64 (drop_bit k (ucast v)) =
    (if unat v < 2 ^ (k + 7) then [ucast (drop_bit k v)]
     else ucast (drop_bit k v OR 128) # EncodeVarint64 (drop_bit (k + 7) (ucast v)))"
proof -
  let ?w = "drop_bit k (ucast v :: u64)"
  have "unat ?w = unat v div 2 ^ k" by (simp add: unat_drop_bit unat_ucast_up)
  then have c: "128 \<le> ?w \<longleftrightarrow> \<not> unat v < 2 ^ (k + 7)"
    by (simp add: word_le_nat_alt less_eq_div_iff_mult_less_eq power_add not_less mult.commute)
  have "ucast ?w = (ucast (drop_bit k v) :: byte)"
    by (rule bit_word_eqI) (use assms in \<open>auto simp: bit_simps dest: bit_imp_le_length\<close>)
  moreover have "ucast (?w AND 127 OR 128) = (ucast (drop_bit k v OR 128) :: byte)"
    by (rule bit_word_eqI)
      (use assms in \<open>auto simp: bit_simps bit_127 bit_128 dest: bit_imp_le_length\<close>)
  ultimately show ?thesis
    using c by (simp add: EncodeVarint64.simps [of ?w] drop_bit_drop_bit ac_simps)
qed

lemma EncodeVarint32_is_64: "EncodeVarint32 v = EncodeVarint64 (ucast v)"
proof -
  have less: "v < 2 ^ m \<longleftrightarrow> unat v < 2 ^ m" if "m < 32" for m
    using that by (simp add: word_less_nat_alt unat_two_power)
  have "unat v < 2 ^ 35" using unsigned_less [of v, where 'a = nat] by simp
  then show ?thesis
    using EncodeVarint64_step [of 0 v] EncodeVarint64_step [of 7 v] EncodeVarint64_step [of 14 v]
      EncodeVarint64_step [of 21 v] EncodeVarint64_step [of 28 v]
      less [of 7] less [of 14] less [of 21] less [of 28]
    by (simp add: EncodeVarint32_def)
qed

lemma length_EncodeVarint64: "VarintLength_loop v k = k + length (EncodeVarint64 v) - 1"
  by (induction v arbitrary: k rule: EncodeVarint64.induct)
    (simp add: EncodeVarint64.simps VarintLength_loop.simps)

lemma EncodeVarint64_nonempty: "EncodeVarint64 v \<noteq> []"
  by (subst EncodeVarint64.simps) simp

lemma VarintLength_encode: "VarintLength v = length (EncodeVarint64 v)"
  using EncodeVarint64_nonempty [of v] by (simp add: VarintLength_def length_EncodeVarint64)

section \<open>Slices, read back\<close>

text \<open>The fast path for one byte is the loop.\<close>

lemma GetVarint32Ptr_loop: "GetVarint32Ptr p = varint32_loop 0 0 p"
proof (cases p)
  case Nil
  then show ?thesis by (simp add: GetVarint32Ptr_def GetVarint32PtrFallback_def)
next
  case (Cons b q)
  have "ucast b AND (128 :: u32) = 0 \<longleftrightarrow> b AND 128 = 0"
  proof
    assume u: "ucast b AND (128 :: u32) = 0"
    show "b AND 128 = 0"
    proof (rule bit_word_eqI)
      fix n
      have "\<not> bit (ucast b AND (128 :: u32)) n" using u by simp
      then show "n < LENGTH(8) \<Longrightarrow> bit (b AND 128) n = bit 0 n" by (auto simp: bit_simps bit_128)
    qed
  next
    assume b: "b AND 128 = 0"
    then have "\<not> bit (b AND 128) 7" by simp
    then show "ucast b AND (128 :: u32) = 0"
      by (intro bit_word_eqI) (auto simp: bit_simps bit_128)
  qed
  then show ?thesis
    using Cons by (simp add: GetVarint32Ptr_def GetVarint32PtrFallback_def)
qed

lemma Varint32_roundtrip: "GetVarint32 (EncodeVarint32 v @ rest) = Some (v, rest)"
proof -
  have "unat (ucast v :: u64) < 2 ^ 32" using unsigned_less [of v] by (simp add: unat_ucast_up)
  then show ?thesis
    using varint32_loop_encode [of "ucast v" 0 0 rest] ucast_via [of v, where 'b = 64 and 'c = 32]
    by (simp add: GetVarint32_def GetVarint32Ptr_loop EncodeVarint32_is_64)
qed

lemma GetLengthPrefixedSlice_put:
  "length x < 2 ^ 32 \<Longrightarrow>
   GetLengthPrefixedSlice (PutLengthPrefixedSlice [] x @ rest) = Some (x, rest)"
  by (simp add: GetLengthPrefixedSlice_def PutLengthPrefixedSlice_def PutVarint32_def
      Varint32_roundtrip unat_of_nat)

lemma GetLengthPrefixedSlice_shorter:
  assumes "GetLengthPrefixedSlice p = Some (x, q)"
  shows "length q < length p"
proof -
  have loop: "varint32_loop s r p = Some (v, q) \<Longrightarrow> length q < length p" for s r v q
    by (induction s r p rule: varint32_loop.induct) (auto split: if_splits)
  from assms obtain len t where "varint32_loop 0 0 p = Some (len, t)" "q = drop (unat len) t"
    by (auto simp: GetLengthPrefixedSlice_def GetVarint32_def GetVarint32Ptr_loop
        split: option.splits if_splits)
  then show ?thesis using loop [of 0 0 len t] by simp
qed

section \<open>Properties\<close>

text \<open>C27: Varints of 32 and of 64 bits and length-prefixed slices of less than 4 GiB are
  read back, whatever bytes follow them.\<close>

theorem coding_roundtrip:
  assumes "length x < 2 ^ 32"
  shows "GetVarint32 (EncodeVarint32 v @ rest) = Some (v, rest) \<and>
    GetVarint64 (EncodeVarint64 w @ rest) = Some (w, rest) \<and>
    GetLengthPrefixedSlice (PutLengthPrefixedSlice [] x @ rest) = Some (x, rest) \<and>
    DecodeFixed32 (EncodeFixed32 v @ rest) = Inr v \<and> DecodeFixed64 (EncodeFixed64 w @ rest) = Inr w"
  using assms by (simp add: Varint32_roundtrip Varint64_roundtrip GetLengthPrefixedSlice_put
      Fixed32_roundtrip Fixed64_roundtrip)

theorem coding_roundtrip_witness:
  "GetVarint32 (EncodeVarint32 300 @ [1]) = Some (300, [1]) \<and>
   GetLengthPrefixedSlice (PutLengthPrefixedSlice [] [5, 6] @ [1]) = Some ([5, 6], [1 :: byte])"
  using coding_roundtrip [of "[5, 6]" 300 "[1]" 0] by simp

text \<open>C28: The unrolled encoder of 32 bit varints is the loop of the 64 bit one, and the
  length that is computed beforehand is the number of bytes written.\<close>

theorem varint32_is_varint64:
  "EncodeVarint32 v = EncodeVarint64 (ucast v) \<and> VarintLength w = length (EncodeVarint64 w)"
  by (simp add: EncodeVarint32_is_64 VarintLength_encode)

end
