(* ===== verification/LevelDbFormat.thy ===== *)
theory LevelDbFormat
  imports LevelDbCoding "HOL-Library.List_Lexorder"
begin

text \<open>
  Keys and batches of LevelDB: slices and their order
  (\<^verbatim>\<open>src/ext/leveldb/hyperleveldb/slice.h\<close>, \<^verbatim>\<open>util/comparator.cc\<close>), internal keys
  (\<^verbatim>\<open>db/dbformat.h\<close>, \<^verbatim>\<open>db/dbformat.cc\<close>) and write batches (\<^verbatim>\<open>db/write_batch.cc\<close>).

  A slice is the list of its bytes and is taken to be shorter than 2 GiB, so that the
  \<^verbatim>\<open>int\<close> in \<^verbatim>\<open>Slice::compare\<close> holds its length.  A comparison yields -1, 0 or 1.  An
  \<^verbatim>\<open>assert\<close> that fails is \<open>AssertionFailed\<close>.
\<close>

section \<open>Slices\<close>

fun memcmp :: "byte list \<Rightarrow> byte list \<Rightarrow> int" where
  "memcmp (a # as) (b # bs) = (if a < b then -1 else if a > b then 1 else memcmp as bs)"
| "memcmp _ _ = 0"

definition Slice_compare :: "byte list \<Rightarrow> byte list \<Rightarrow> int" where
  "Slice_compare a b =
     (let min_len = (if length a < length b then length a else length b);
          r = memcmp (take min_len a) (take min_len b)
      in if r = 0 then
           if length a < length b then -1 else if length a > length b then 1 else r
         else r)"

definition starts_with :: "byte list \<Rightarrow> byte list \<Rightarrow> bool" where
  "starts_with s x \<longleftrightarrow> length s \<ge> length x \<and> memcmp (take (length x) s) x = 0"

definition KeyNum :: "byte list \<Rightarrow> u64" where
  "KeyNum key =
     (let buf = write_at (replicate 8 0) 0 (take (min (length key) 8) key)
      in push_bit 56 (ucast (buf ! 0)) OR push_bit 48 (ucast (buf ! 1)) OR
         push_bit 40 (ucast (buf ! 2)) OR push_bit 32 (ucast (buf ! 3)) OR
         push_bit 24 (ucast (buf ! 4)) OR push_bit 16 (ucast (buf ! 5)) OR
         push_bit 8 (ucast (buf ! 6)) OR ucast (buf ! 7))"

text \<open>The length of the common prefix, and the two ways to shorten a key.\<close>

fun diff_index :: "byte list \<Rightarrow> byte list \<Rightarrow> nat" where
  "diff_index (a # as) (b # bs) = (if a = b then Suc (diff_index as bs) else 0)"
| "diff_index _ _ = 0"

definition FindShortestSeparator :: "byte list \<Rightarrow> byte list \<Rightarrow> byte list res" where
  "FindShortestSeparator start limit =
     (let min_length = min (length start) (length limit); i = diff_index start limit
      in if i \<ge> min_length then Inr start
         else
           let diff_byte = start ! i in
           if diff_byte < 0xff \<and> unat diff_byte + 1 < unat (limit ! i) then
             (let start = take (i + 1) (start[i := diff_byte + 1])
              in if Slice_compare start limit < 0 then Inr start else Inl AssertionFailed)
           else Inr start)"

fun FindShortSuccessor :: "byte list \<Rightarrow> byte list" where
  "FindShortSuccessor [] = []"
| "FindShortSuccessor (b # bs) = (if b \<noteq> 0xff then [b + 1] else b # FindShortSuccessor bs)"

section \<open>Internal keys\<close>

datatype ValueType = kTypeDeletion | kTypeValue

primrec type_num :: "ValueType \<Rightarrow> u64" where
  "type_num kTypeDeletion = 0"
| "type_num kTypeValue = 1"

definition kValueTypeForSeek :: ValueType where
  "kValueTypeForSeek = kTypeValue"

definition kMaxSequenceNumber :: u64 where
  "kMaxSequenceNumber = 2 ^ 56 - 1"

record parsed_key =
  user_key :: "byte list"
  sequence :: u64
  key_type :: ValueType

definition PackSequenceAndType :: "u64 \<Rightarrow> ValueType \<Rightarrow> u64 res" where
  "PackSequenceAndType sq t =
     (if sq \<le> kMaxSequenceNumber then Inr (push_bit 8 sq OR type_num t) else Inl AssertionFailed)"

definition AppendInternalKey :: "byte list \<Rightarrow> parsed_key \<Rightarrow> byte list res" where
  "AppendInternalKey result key =
     bind_res (PackSequenceAndType (sequence key) (key_type key)) (\<lambda>num.
     Inr (PutFixed64 (result @ user_key key) num))"

definition ExtractUserKey :: "byte list \<Rightarrow> byte list res" where
  "ExtractUserKey internal_key =
     (if length internal_key \<ge> 8 then Inr (take (length internal_key - 8) internal_key)
      else Inl AssertionFailed)"

definition ParseInternalKey :: "byte list \<Rightarrow> parsed_key option res" where
  "ParseInternalKey internal_key =
     (let n = length internal_key in
      if n < 8 then Inr None
      else bind_res (DecodeFixed64 (drop (n - 8) internal_key)) (\<lambda>num.
        let c = (num AND 0xff) in
        Inr (if c \<le> 1 then
               Some \<lparr>user_key = take (n - 8) internal_key, sequence = drop_bit 8 num,
                     key_type = (if c = 1 then kTypeValue else kTypeDeletion)\<rparr>
             else None)))"

definition InternalKey_Compare :: "byte list \<Rightarrow> byte list \<Rightarrow> int res" where
  "InternalKey_Compare akey bkey =
     bind_res (ExtractUserKey akey) (\<lambda>a.
     bind_res (ExtractUserKey bkey) (\<lambda>b.
       let r = Slice_compare a b in
       if r = 0 then
         bind_res (DecodeFixed64 (drop (length akey - 8) akey)) (\<lambda>anum.
         bind_res (DecodeFixed64 (drop (length bkey - 8) bkey)) (\<lambda>bnum.
         Inr (if anum > bnum then -1 else if anum < bnum then 1 else r)))
       else Inr r))"

definition LookupKey :: "byte list \<Rightarrow> u64 \<Rightarrow> byte list res" where
  "LookupKey key s =
     bind_res (PackSequenceAndType s kValueTypeForSeek) (\<lambda>num.
     Inr (EncodeVarint32 (of_nat (length key) + 8) @ key @ EncodeFixed64 num))"

section \<open>Write batches\<close>

definition kHeader :: nat where
  "kHeader = 12"

datatype status = OK | NotFound | Corruption string

datatype wb_op = WbPut "byte list" "byte list" | WbDelete "byte list"

definition WriteBatch_Clear :: "byte list" where
  "WriteBatch_Clear = replicate kHeader 0"

definition WriteBatch_Count :: "byte list \<Rightarrow> int res" where
  "WriteBatch_Count rep = bind_res (DecodeFixed32 (drop 8 rep)) (\<lambda>n. Inr (to_i32 (uint n)))"

definition WriteBatch_SetCount :: "byte list \<Rightarrow> int \<Rightarrow> byte list" where
  "WriteBatch_SetCount rep n = write_at rep 8 (EncodeFixed32 (of_int n))"

definition WriteBatch_Sequence :: "byte list \<Rightarrow> u64 res" where
  "WriteBatch_Sequence rep = DecodeFixed64 rep"

definition WriteBatch_SetSequence :: "byte list \<Rightarrow> u64 \<Rightarrow> byte list" where
  "WriteBatch_SetSequence rep sq = write_at rep 0 (EncodeFixed64 sq)"

definition WriteBatch_Put :: "byte list \<Rightarrow> byte list \<Rightarrow> byte list \<Rightarrow> byte list res" where
  "WriteBatch_Put rep key val =
     bind_res (WriteBatch_Count rep) (\<lambda>n.
     bind_res (chk32 (n + 1)) (\<lambda>n1.
     Inr (PutLengthPrefixedSlice (PutLengthPrefixedSlice (WriteBatch_SetCount rep n1 @ [1]) key) val)))"

definition WriteBatch_Delete :: "byte list \<Rightarrow> byte list \<Rightarrow> byte list res" where
  "WriteBatch_Delete rep key =
     bind_res (WriteBatch_Count rep) (\<lambda>n.
     bind_res (chk32 (n + 1)) (\<lambda>n1.
     Inr (PutLengthPrefixedSlice (WriteBatch_SetCount rep n1 @ [0]) key)))"

text \<open>The loop of \<^verbatim>\<open>Iterate\<close>: the calls to the handler, the number of records and, when a
  record is malformed, the status the loop returns.\<close>

function (sequential) wb_loop :: "byte list \<Rightarrow> wb_op list \<times> int \<times> status option" where
  "wb_loop [] = ([], 0, None)"
| "wb_loop (tag # input) =
     (if tag = 1 then
        case GetLengthPrefixedSlice input of
          None \<Rightarrow> ([], 1, Some (Corruption ''bad WriteBatch Put''))
        | Some (key, input1) \<Rightarrow>
            (case GetLengthPrefixedSlice input1 of
               None \<Rightarrow> ([], 1, Some (Corruption ''bad WriteBatch Put''))
             | Some (val, input2) \<Rightarrow>
                 let (ops, found, s) = wb_loop input2 in (WbPut key val # ops, found + 1, s))
      else if tag = 0 then
        case GetLengthPrefixedSlice input of
          None \<Rightarrow> ([], 1, Some (Corruption ''bad WriteBatch Delete''))
        | Some (key, input1) \<Rightarrow>
            let (ops, found, s) = wb_loop input1 in (WbDelete key # ops, found + 1, s)
      else ([], 1, Some (Corruption ''unknown WriteBatch tag'')))"
  by pat_completeness auto
termination
  by (relation "measure length")
    (auto dest!: GetLengthPrefixedSlice_shorter intro: less_trans simp: less_Suc_eq)

definition WriteBatch_Iterate :: "byte list \<Rightarrow> (wb_op list \<times> status) res" where
  "WriteBatch_Iterate rep =
     (if length rep < kHeader then Inr ([], Corruption ''malformed WriteBatch (too small)'')
      else
        let (ops, found, s) = wb_loop (drop kHeader rep) in
        case s of
          Some e \<Rightarrow> Inr (ops, e)
        | None \<Rightarrow> bind_res (WriteBatch_Count rep) (\<lambda>n.
            Inr (ops, if found \<noteq> n then Corruption ''WriteBatch has wrong count'' else OK)))"

definition WriteBatch_Append :: "byte list \<Rightarrow> byte list \<Rightarrow> byte list res" where
  "WriteBatch_Append dst src =
     bind_res (WriteBatch_Count dst) (\<lambda>n.
     bind_res (WriteBatch_Count src) (\<lambda>k.
     bind_res (chk32 (n + k)) (\<lambda>total.
     if length src \<ge> kHeader then Inr (WriteBatch_SetCount dst total @ drop kHeader src)
     else Inl AssertionFailed)))"


section \<open>The order of slices\<close>

lemma Slice_compare_simps [simp]:
  "Slice_compare [] [] = 0" "Slice_compare [] (b # bs) = -1" "Slice_compare (a # as) [] = 1"
  "Slice_compare (a # as) (b # bs) = (if a < b then -1 else if a > b then 1 else Slice_compare as bs)"
  by (auto simp: Slice_compare_def Let_def)

text \<open>Comparing slices is the lexicographic order of their bytes.\<close>

lemma Slice_compare_lex: "Slice_compare a b = (if a < b then -1 else if a > b then 1 else 0)"
proof (induction a arbitrary: b)
  case Nil
  then show ?case by (cases b) auto
next
  case (Cons x a)
  then show ?case by (cases b) auto
qed

lemma memcmp_0: "length a = length b \<Longrightarrow> memcmp a b = 0 \<longleftrightarrow> a = b"
  by (induction a b rule: list_induct2) auto

lemma starts_with_prefix: "starts_with s x \<longleftrightarrow> prefix x s"
proof -
  have "prefix x s \<longleftrightarrow> length x \<le> length s \<and> take (length x) s = x"
    by (metis append_eq_conv_conj prefix_def prefix_length_le take_is_prefix)
  then show ?thesis using memcmp_0 [of "take (length x) s" x] by (auto simp: starts_with_def)
qed

section \<open>The number of a key\<close>

lemma or_byte:
  assumes "unat (r :: u64) < 2 ^ m" and "m \<le> 56"
  shows "unat (push_bit m (ucast (b :: byte)) OR r) = unat b * 2 ^ m + unat r"
    and "unat b * 2 ^ m + unat r < 2 ^ (m + 8)"
proof -
  have "r < 2 ^ m" using assms by (simp add: word_less_nat_alt unat_two_power)
  then have dis: "\<not> bit (push_bit m (ucast b) :: u64) n \<or> \<not> bit r n" for n
    using bit_less_power [of r m n] assms(2) by (auto simp: bit_simps)
  have b: "unat b < 2 ^ 8" using unsigned_less [of b, where 'a = nat] by simp
  have "unat b * 2 ^ m + unat r < (unat b + 1) * 2 ^ m" using assms(1) by simp
  also have "\<dots> \<le> 2 ^ 8 * 2 ^ m" using b by (intro mult_right_mono) auto
  finally show l: "unat b * 2 ^ m + unat r < 2 ^ (m + 8)" by (simp add: power_add)
  also have "(2::nat) ^ (m + 8) \<le> 2 ^ 64" using assms(2) by (intro power_increasing) auto
  finally have small: "unat b * 2 ^ m + unat r < 2 ^ 64" .
  have "unat (push_bit m (ucast b) :: u64) = unat b * 2 ^ m"
    using small assms(2) by (simp add: push_bit_eq_mult unat_word_ariths unat_ucast_up unat_two_power)
  moreover have "push_bit m (ucast b) OR r = push_bit m (ucast b) + r"
    using disjunctive_add [of "push_bit m (ucast b)" r] dis by simp
  ultimately show "unat (push_bit m (ucast b) OR r) = unat b * 2 ^ m + unat r"
    using small by (simp add: unat_word_ariths)
qed

text \<open>The value of up to eight bytes, padded with zeros on the right.\<close>

fun key_value :: "nat \<Rightarrow> byte list \<Rightarrow> nat" where
  "key_value 0 bs = 0"
| "key_value (Suc n) [] = 0"
| "key_value (Suc n) (b # bs) = unat b * 256 ^ n + key_value n bs"

lemma key_value_bound: "key_value n bs < 256 ^ n"
proof (induction n bs rule: key_value.induct)
  case (3 n b bs)
  have "unat b + 1 \<le> 256" using unsigned_less [of b, where 'a = nat] by simp
  then have "(unat b + 1) * 256 ^ n \<le> 256 * 256 ^ n" by (rule mult_right_mono) simp
  then have "unat b * 256 ^ n + 256 ^ n \<le> 256 * 256 ^ n" unfolding add_mult_distrib by simp
  then show ?case unfolding key_value.simps power_Suc using 3 by linarith
qed simp_all

lemma key_value_mono: "a \<le> b \<Longrightarrow> key_value n a \<le> key_value n b"
proof (induction n a arbitrary: b rule: key_value.induct)
  case (3 n x a)
  from "3.prems" obtain y c where b: "b = y # c" "x < y \<or> x = y \<and> a \<le> c" by (cases b) auto
  show ?case
  proof (cases "x < y")
    case True
    then have "unat x + 1 \<le> unat y" by (simp add: word_less_nat_alt)
    then have "(unat x + 1) * 256 ^ n \<le> unat y * 256 ^ n" by (rule mult_right_mono) simp
    then have "unat x * 256 ^ n + 256 ^ n \<le> unat y * 256 ^ n" unfolding add_mult_distrib by simp
    then show ?thesis unfolding b(1) key_value.simps using key_value_bound [of n a] by linarith
  next
    case False
    then show ?thesis using b 3 by simp
  qed
qed simp_all


primrec be_num :: "byte list \<Rightarrow> u64" where
  "be_num [] = 0"
| "be_num (b # bs) = push_bit (8 * length bs) (ucast b) OR be_num bs"

lemma be_num_value: "length bs \<le> 8 \<Longrightarrow> unat (be_num bs) = key_value (length bs) bs"
proof (induction bs)
  case (Cons b bs)
  have p: "(256::nat) ^ length bs = 2 ^ (8 * length bs)" by (simp add: power_mult)
  have "unat (be_num bs) < 2 ^ (8 * length bs)"
    using Cons key_value_bound [of "length bs" bs] p by simp
  from or_byte(1) [OF this, of b] Cons p show ?case by simp
qed simp

lemma key_value_pad: "key_value n (bs @ replicate k 0) = key_value n bs"
proof (induction n bs rule: key_value.induct)
  case (2 n)
  have "key_value m (replicate k 0) = 0" for m
  proof (induction m arbitrary: k)
    case (Suc m)
    then show ?case by (cases k) simp_all
  qed simp
  then show ?case by simp
qed simp_all

lemma key_value_take: "key_value n (take n bs) = key_value n bs"
  by (induction n bs rule: key_value.induct) simp_all

lemma KeyNum_value: "unat (KeyNum key) = key_value 8 key"
proof -
  define buf where "buf = take 8 key @ replicate (8 - length key) (0 :: byte)"
  have len: "length buf = 8" by (simp add: buf_def min_def)
  then have l: "buf = [buf ! 0, buf ! 1, buf ! 2, buf ! 3, buf ! 4, buf ! 5, buf ! 6, buf ! 7]"
    by (intro nth_equalityI) (auto simp: less_Suc_eq numeral_eq_Suc)
  have w: "write_at (replicate 8 0) 0 (take (min (length key) 8) key) = buf"
    by (simp add: write_at_def buf_def min_def)
  have "KeyNum key = be_num [buf ! 0, buf ! 1, buf ! 2, buf ! 3, buf ! 4, buf ! 5, buf ! 6, buf ! 7]"
    by (simp add: KeyNum_def w)
  then have "KeyNum key = be_num buf" using l by metis
  then have "unat (KeyNum key) = key_value 8 buf" using be_num_value [of buf] len by simp
  then show ?thesis by (simp add: buf_def key_value_pad key_value_take)
qed

lemma KeyNum_mono: "a \<le> b \<Longrightarrow> KeyNum a \<le> KeyNum b"
  by (simp add: word_le_nat_alt KeyNum_value key_value_mono)


section \<open>Shortened keys\<close>

lemma diff_index_take: "take (diff_index a b) a = take (diff_index a b) b"
  by (induction a b rule: diff_index.induct) auto

lemma append_less_left: "(p @ xs < p @ ys) = (xs < (ys :: byte list))"
  by (induction p) auto

lemma FindShortestSeparator_between:
  assumes "start < limit"
  shows "\<exists>s. FindShortestSeparator start limit = Inr s \<and> start \<le> s \<and> s < limit \<and> length s \<le> length start"
proof -
  let ?i = "diff_index start limit"
  show ?thesis
  proof (cases "?i < min (length start) (length limit) \<and> start ! ?i < 0xff \<and>
      unat (start ! ?i) + 1 < unat (limit ! ?i)")
    case False
    then show ?thesis using assms by (auto simp: FindShortestSeparator_def Let_def)
  next
    case True
    let ?s = "take (?i + 1) (start[?i := start ! ?i + 1])"
    have i: "?i < length start" "?i < length limit" using True by auto
    have s: "?s = take ?i start @ [start ! ?i + 1]"
      using i by (simp add: take_Suc_conv_app_nth)
    have start: "start = take ?i start @ start ! ?i # drop (Suc ?i) start"
      using i by (simp add: id_take_nth_drop)
    have limit: "limit = take ?i start @ limit ! ?i # drop (Suc ?i) limit"
      using i diff_index_take [of start limit] by (metis id_take_nth_drop)
    have n: "unat (start ! ?i + 1) = unat (start ! ?i) + 1"
      using True by (intro unat_add_lem [THEN iffD1, THEN trans]) (auto simp: word_less_nat_alt)
    have "start < ?s"
      by (subst start, subst s) (use n in \<open>simp add: append_less_left word_less_nat_alt\<close>)
    moreover have "?s < limit"
      by (subst limit, subst s) (use n True in \<open>simp add: append_less_left word_less_nat_alt\<close>)
    moreover have "FindShortestSeparator start limit = Inr ?s"
      using True \<open>?s < limit\<close> by (auto simp: FindShortestSeparator_def Let_def Slice_compare_lex min_def)
    ultimately show ?thesis by (auto intro: less_imp_le)
  qed
qed

lemma FindShortSuccessor_above: "key \<le> FindShortSuccessor key \<and> length (FindShortSuccessor key) \<le> length key"
proof (induction key)
  case (Cons b bs)
  have "b < b + 1" if "b \<noteq> 0xff"
  proof -
    have "unat b \<noteq> 255" using that by (simp add: word_unat_eq_iff)
    moreover have "unat b < 256" using unsigned_less [of b, where 'a = nat] by simp
    ultimately show ?thesis by (simp add: word_less_nat_alt unat_word_ariths)
  qed
  then show ?case using Cons by (auto intro: less_imp_le)
qed simp


section \<open>Internal keys, read back and ordered\<close>

text \<open>The number that packs a sequence number and a type.\<close>

definition tag_num :: "u64 \<Rightarrow> ValueType \<Rightarrow> u64" where
  "tag_num sq t = push_bit 8 sq OR type_num t"

definition valid_key :: "parsed_key \<Rightarrow> bool" where
  "valid_key k \<longleftrightarrow> sequence k \<le> kMaxSequenceNumber"

definition encode_key :: "parsed_key \<Rightarrow> byte list" where
  "encode_key k = user_key k @ EncodeFixed64 (tag_num (sequence k) (key_type k))"

lemma AppendInternalKey_valid: "valid_key k \<Longrightarrow> AppendInternalKey r k = Inr (r @ encode_key k)"
  by (simp add: AppendInternalKey_def PackSequenceAndType_def valid_key_def encode_key_def tag_num_def
      PutFixed64_def)

lemma length_encode_key [simp]: "length (encode_key k) = length (user_key k) + 8"
  by (simp add: encode_key_def)

lemma ExtractUserKey_encode [simp]: "ExtractUserKey (encode_key k) = Inr (user_key k)"
  by (simp add: ExtractUserKey_def encode_key_def)

lemma DecodeFixed64_encode_key [simp]:
  "DecodeFixed64 (drop (length (user_key k)) (encode_key k)) = Inr (tag_num (sequence k) (key_type k))"
  using Fixed64_roundtrip [of "tag_num (sequence k) (key_type k)" "[]"] by (simp add: encode_key_def)

lemma sequence_less: "valid_key k \<Longrightarrow> sequence k < 2 ^ 56"
proof -
  assume "valid_key k"
  then have "unat (sequence k) \<le> unat kMaxSequenceNumber" by (simp add: valid_key_def word_le_nat_alt)
  then show ?thesis by (simp add: kMaxSequenceNumber_def word_less_nat_alt)
qed

lemma unat_tag_num:
  assumes "sq < 2 ^ 56"
  shows "unat (tag_num sq t) = unat sq * 256 + unat (type_num t)"
proof -
  have t: "unat (type_num t) < 2" by (cases t) simp_all
  have "\<not> bit (push_bit 8 sq) n \<or> \<not> bit (type_num t) n" for n
    by (cases t) (auto simp: bit_simps)
  then have "tag_num sq t = push_bit 8 sq + type_num t"
    using disjunctive_add [of "push_bit 8 sq" "type_num t"] by (simp add: tag_num_def)
  moreover have "unat sq < 2 ^ 56" using assms by (simp add: word_less_nat_alt)
  ultimately show ?thesis
    using t by (simp add: push_bit_eq_mult unat_word_ariths)
qed

lemma tag_num_parts:
  assumes "sq < 2 ^ 56"
  shows "drop_bit 8 (tag_num sq t) = sq" and "tag_num sq t AND 0xff = type_num t"
proof -
  have t: "unat (type_num t) < 2" by (cases t) simp_all
  have "unat (drop_bit 8 (tag_num sq t)) = unat sq"
    using t by (simp add: unat_drop_bit unat_tag_num [OF assms])
  then show "drop_bit 8 (tag_num sq t) = sq" by (simp add: word_unat_eq_iff)
  have "tag_num sq t AND 0xff = take_bit 8 (tag_num sq t)"
    by (simp add: take_bit_eq_mask mask_eq_exp_minus_1)
  moreover have "unat (take_bit 8 (tag_num sq t)) = unat (type_num t)"
    unfolding unsigned_take_bit_eq unat_tag_num [OF assms] using t by (simp add: take_bit_eq_mod)
  ultimately show "tag_num sq t AND 0xff = type_num t" by (simp add: word_unat_eq_iff)
qed

lemma ParseInternalKey_encode: "valid_key k \<Longrightarrow> ParseInternalKey (encode_key k) = Inr (Some k)"
  using tag_num_parts [OF sequence_less, of k "key_type k"]
  by (cases "key_type k") (simp_all add: ParseInternalKey_def Let_def, simp_all add: encode_key_def)

text \<open>Internal keys are ordered by user key and, for the same user key, newest first.\<close>

definition key_before :: "parsed_key \<Rightarrow> parsed_key \<Rightarrow> bool" where
  "key_before a b \<longleftrightarrow> user_key a < user_key b \<or> user_key a = user_key b \<and>
     (sequence a > sequence b \<or> sequence a = sequence b \<and> key_type a = kTypeValue \<and> key_type b = kTypeDeletion)"

lemma tag_num_less:
  assumes "x < 2 ^ 56" and "y < 2 ^ 56"
  shows "tag_num x s < tag_num y t \<longleftrightarrow> x < y \<or> x = y \<and> s = kTypeDeletion \<and> t = kTypeValue"
proof -
  have "unat (type_num s) < 2" "unat (type_num t) < 2" by (cases s; simp) (cases t; simp)
  moreover have "unat (type_num s) < unat (type_num t) \<longleftrightarrow> s = kTypeDeletion \<and> t = kTypeValue"
    by (cases s; cases t) simp_all
  ultimately show ?thesis
    using unat_tag_num [OF assms(1), of s] unat_tag_num [OF assms(2), of t]
    by (auto simp: word_less_nat_alt word_unat_eq_iff)
qed

lemma InternalKey_Compare_encode:
  assumes "valid_key a" and "valid_key b"
  shows "InternalKey_Compare (encode_key a) (encode_key b) =
    Inr (if key_before a b then -1 else if key_before b a then 1 else 0)"
  using tag_num_less [OF sequence_less [OF assms(1)] sequence_less [OF assms(2)]]
    tag_num_less [OF sequence_less [OF assms(2)] sequence_less [OF assms(1)]]
  by (cases "key_type a"; cases "key_type b")
    (auto simp: InternalKey_Compare_def Slice_compare_lex key_before_def Let_def)


section \<open>Write batches, read back\<close>

text \<open>The records of a list of operations, and batches that hold them.\<close>

primrec wb_record :: "wb_op \<Rightarrow> byte list" where
  "wb_record (WbPut k v) = 1 # PutLengthPrefixedSlice [] k @ PutLengthPrefixedSlice [] v"
| "wb_record (WbDelete k) = 0 # PutLengthPrefixedSlice [] k"

primrec small_op :: "wb_op \<Rightarrow> bool" where
  "small_op (WbPut k v) \<longleftrightarrow> length k < 2 ^ 31 \<and> length v < 2 ^ 31"
| "small_op (WbDelete k) \<longleftrightarrow> length k < 2 ^ 31"

definition holds_batch :: "wb_op list \<Rightarrow> byte list \<Rightarrow> bool" where
  "holds_batch ops rep \<longleftrightarrow> length ops < 2 ^ 31 \<and>
     (\<exists>sq. rep = EncodeFixed64 sq @ EncodeFixed32 (of_nat (length ops)) @ concat (map wb_record ops))"

primrec wb_apply :: "wb_op \<Rightarrow> byte list \<Rightarrow> byte list res" where
  "wb_apply (WbPut k v) rep = WriteBatch_Put rep k v"
| "wb_apply (WbDelete k) rep = WriteBatch_Delete rep k"

lemma PutLengthPrefixedSlice_append: "PutLengthPrefixedSlice dst x = dst @ PutLengthPrefixedSlice [] x"
  by (simp add: PutLengthPrefixedSlice_def PutVarint32_def)

lemma holds_batch_Clear: "holds_batch [] WriteBatch_Clear"
  unfolding holds_batch_def
  by (rule conjI, simp, rule exI [of _ 0])
    (simp add: WriteBatch_Clear_def kHeader_def EncodeFixed64_def EncodeFixed32_def numeral_eq_Suc)

lemma Count_batch: "holds_batch ops rep \<Longrightarrow> WriteBatch_Count rep = Inr (int (length ops))"
proof -
  assume h: "holds_batch ops rep"
  then obtain sq where rep: "rep = EncodeFixed64 sq @ EncodeFixed32 (of_nat (length ops)) @ concat (map wb_record ops)"
    and l: "length ops < 2 ^ 31" by (auto simp: holds_batch_def)
  have "uint (of_nat (length ops) :: u32) = int (length ops)"
    using l by (simp add: uint_word_of_int_eq unsigned_of_nat take_bit_nat_eq_self take_bit_eq_mod)
  then show ?thesis
    using l by (simp add: WriteBatch_Count_def rep Fixed32_roundtrip to_i32_id in_i32_def)
qed

lemma SetCount_batch:
  "WriteBatch_SetCount (EncodeFixed64 sq @ EncodeFixed32 c @ rest) n = EncodeFixed64 sq @ EncodeFixed32 (of_int n) @ rest"
  by (simp add: WriteBatch_SetCount_def write_at_def)

lemma wb_apply_holds:
  assumes "holds_batch ops rep" and "length ops + 1 < 2 ^ 31"
  shows "\<exists>rep'. wb_apply op rep = Inr rep' \<and> holds_batch (ops @ [op]) rep' \<and>
    WriteBatch_Sequence rep' = WriteBatch_Sequence rep"
proof -
  obtain sq where rep: "rep = EncodeFixed64 sq @ EncodeFixed32 (of_nat (length ops)) @ concat (map wb_record ops)"
    using assms(1) by (auto simp: holds_batch_def)
  let ?rep = "EncodeFixed64 sq @ EncodeFixed32 (of_nat (length (ops @ [op]))) @ concat (map wb_record (ops @ [op]))"
  have "in_i32 (int (length ops) + 1)" using assms(2) by (simp add: in_i32_def)
  moreover have "of_int (int (length ops) + 1) = (of_nat (length (ops @ [op])) :: u32)" by simp
  ultimately have "wb_apply op rep = Inr ?rep"
    using Count_batch [OF assms(1)]
    by (cases op) (simp_all add: WriteBatch_Put_def WriteBatch_Delete_def,
        simp_all add: rep SetCount_batch PutLengthPrefixedSlice_append [of "_ @ _"]
          PutLengthPrefixedSlice_append [of "_ # _"] add.commute)
  moreover have "holds_batch (ops @ [op]) ?rep" using assms(2) unfolding holds_batch_def by auto
  moreover have "WriteBatch_Sequence ?rep = WriteBatch_Sequence rep"
    by (simp add: WriteBatch_Sequence_def rep Fixed64_roundtrip)
  ultimately show ?thesis by blast
qed

lemma GetLengthPrefixedSlice_small:
  "length x < 2 ^ 31 \<Longrightarrow> GetLengthPrefixedSlice (PutLengthPrefixedSlice [] x @ rest) = Some (x, rest)"
  by (rule GetLengthPrefixedSlice_put) simp

lemma wb_loop_records:
  "\<forall>op \<in> set ops. small_op op \<Longrightarrow> wb_loop (concat (map wb_record ops)) = (ops, int (length ops), None)"
proof (induction ops)
  case (Cons op ops)
  then show ?case by (cases op) (simp_all add: GetLengthPrefixedSlice_small)
qed simp

lemma Iterate_batch:
  assumes "holds_batch ops rep" and "\<forall>op \<in> set ops. small_op op"
  shows "WriteBatch_Iterate rep = Inr (ops, OK)"
proof -
  have "length rep \<ge> kHeader" "drop kHeader rep = concat (map wb_record ops)"
    using assms(1) by (auto simp: holds_batch_def kHeader_def)
  then show ?thesis
    using wb_loop_records [OF assms(2)] Count_batch [OF assms(1)] by (simp add: WriteBatch_Iterate_def)
qed

fun wb_build :: "wb_op list \<Rightarrow> byte list \<Rightarrow> byte list res" where
  "wb_build [] rep = Inr rep"
| "wb_build (op # ops) rep = bind_res (wb_apply op rep) (wb_build ops)"

lemma wb_build_holds:
  "holds_batch ops rep \<Longrightarrow> length ops + length more_ops < 2 ^ 31 \<Longrightarrow>
   \<exists>rep'. wb_build more_ops rep = Inr rep' \<and> holds_batch (ops @ more_ops) rep'"
proof (induction more_ops arbitrary: ops rep)
  case (Cons op more_ops)
  obtain rep' where "wb_apply op rep = Inr rep'" "holds_batch (ops @ [op]) rep'"
    using wb_apply_holds [OF Cons.prems(1)] Cons.prems(2) by auto
  then show ?case using Cons.IH [of "ops @ [op]" rep'] Cons.prems(2) by simp
qed simp

section \<open>Properties\<close>

text \<open>C29: A batch read by \<^verbatim>\<open>Iterate\<close> calls the handler with exactly the puts and deletes
  that were recorded, in their order, and reports no corruption.\<close>

theorem write_batch_roundtrip:
  assumes "length ops < 2 ^ 31" and "\<forall>op \<in> set ops. small_op op"
  shows "\<exists>rep. wb_build ops WriteBatch_Clear = Inr rep \<and> WriteBatch_Iterate rep = Inr (ops, OK)"
  using wb_build_holds [OF holds_batch_Clear, of ops] Iterate_batch assms by fastforce

theorem write_batch_roundtrip_witness:
  "\<exists>rep. wb_build [WbPut [1, 2] [3], WbDelete [1]] WriteBatch_Clear = Inr rep \<and>
     WriteBatch_Iterate rep = Inr ([WbPut [1, 2] [3], WbDelete [1]], OK)"
  by (rule write_batch_roundtrip) simp_all



end
