(* ===== verification/MemTable.thy ===== *)
theory MemTable
  imports SkipList LevelDbFormat "HOL-Library.Multiset"
begin

text \<open>
  The memory table of LevelDB (\<^verbatim>\<open>src/ext/leveldb/db/memtable.cc\<close>, \<^verbatim>\<open>memtable.h\<close>): a skip list
  of entries, each the number of its user key and a buffer in the arena with the internal
  key and the value.  A pointer into a buffer is the list of the bytes from there on.

  \<open>MemTable_Add\<close> runs in two parts, the search for the place without the lock and the
  insertion under it, so other writers may come in between; \<open>add_step\<close> are the steps of any
  number of writers.  A search is taken as one step: a search that runs while another
  writer links its node is not modelled.
\<close>

section \<open>Entries\<close>

type_synonym table_key = "u64 \<times> byte list"

text \<open>The length-prefixed slice at a pointer, and the bytes behind it.  The length is read
  from at most five bytes; when they do not end a number the code reads an uninitialised
  variable.\<close>

definition mem_GetVarint32 :: "byte list \<Rightarrow> (u32 \<times> byte list) res" where
  "mem_GetVarint32 data =
     (case GetVarint32Ptr (take 5 data) of
        None \<Rightarrow> Inl (if length data < 5 then OutOfBounds else Uninitialized)
      | Some (len, q) \<Rightarrow> Inr (len, q @ drop 5 data))"

definition mem_GetLengthPrefixedSlice :: "byte list \<Rightarrow> (byte list \<times> byte list) res" where
  "mem_GetLengthPrefixedSlice data =
     bind_res (mem_GetVarint32 data) (\<lambda>(len, p).
       if unat len \<le> length p then Inr (take (unat len) p, drop (unat len) p) else Inl OutOfBounds)"

definition KeyComparator :: "table_key \<Rightarrow> table_key \<Rightarrow> int res" where
  "KeyComparator ak bk =
     (if fst ak < fst bk then Inr (-1)
      else if fst ak > fst bk then Inr 1
      else
        bind_res (mem_GetLengthPrefixedSlice (snd ak)) (\<lambda>(a, _).
        bind_res (mem_GetLengthPrefixedSlice (snd bk)) (\<lambda>(b, _).
        InternalKey_Compare a b)))"

definition EncodeKey :: "byte list \<Rightarrow> byte list" where
  "EncodeKey target = PutVarint32 [] (of_nat (length target)) @ target"

section \<open>The table\<close>

record memtable =
  refs :: int
  table :: "table_key skiplist"

definition new_MemTable :: memtable where
  "new_MemTable = \<lparr>refs = 0, table = new_SkipList\<rparr>"

definition MemTable_Ref :: "memtable \<Rightarrow> memtable" where
  "MemTable_Ref m = m\<lparr>refs := to_i32 (refs m + 1)\<rparr>"

text \<open>Dropping a reference; \<open>None\<close> when the table is deleted.\<close>

definition MemTable_Unref :: "memtable \<Rightarrow> memtable option res" where
  "MemTable_Unref m =
     (let r = to_i32 (refs m - 1)
      in if r < 0 then Inl AssertionFailed
         else if r \<le> 0 then Inr None
         else Inr (Some (m\<lparr>refs := r\<rparr>)))"

definition mem_entry :: "u64 \<Rightarrow> ValueType \<Rightarrow> byte list \<Rightarrow> byte list \<Rightarrow> table_key res" where
  "mem_entry s t key val =
     (let key_size = length key; val_size = length val; internal_key_size = key_size + 8;
          encoded_len = VarintLength (of_nat internal_key_size) + internal_key_size +
            VarintLength (of_nat val_size) + val_size;
          buf = EncodeVarint32 (of_nat internal_key_size) @ key @ EncodeFixed64 (push_bit 8 s OR type_num t) @
            EncodeVarint32 (of_nat val_size) @ val
      in if length buf = encoded_len then Inr (KeyNum key, buf) else Inl AssertionFailed)"

definition MemTable_Add :: "u64 \<Rightarrow> ValueType \<Rightarrow> byte list \<Rightarrow> byte list \<Rightarrow> memtable \<Rightarrow> memtable res" where
  "MemTable_Add s t key val m =
     bind_res (mem_entry s t key val) (\<lambda>tk.
     bind_res (InsertHint KeyComparator (table m) tk) (\<lambda>ih.
     bind_res (InsertWithHint KeyComparator ih tk (table m)) (\<lambda>l.
     Inr (m\<lparr>table := l\<rparr>))))"

text \<open>A lookup yields \<open>None\<close> when the table has nothing on the key, and otherwise its value
  or \<open>NotFound\<close> for a deletion.\<close>

definition MemTable_Get :: "byte list \<Rightarrow> byte list \<Rightarrow> memtable \<Rightarrow> (status + byte list) option res" where
  "MemTable_Get memkey ukey m =
     (let tk = (KeyNum ukey, memkey) in
      bind_res (iter_Seek KeyComparator (table m) tk) (\<lambda>it.
      if it = None then Inr None
      else bind_res (iter_key (table m) it) (\<lambda>(num, entry).
        bind_res (mem_GetVarint32 entry) (\<lambda>(key_length, key_ptr).
        let n = unat (key_length - 8) in
        if num = fst tk then
          if n > length key_ptr then Inl OutOfBounds
          else if Slice_compare (take n key_ptr) ukey = 0 then
            bind_res (DecodeFixed64 (drop n key_ptr)) (\<lambda>tag.
            if tag AND 0xff = 1 then
              bind_res (mem_GetLengthPrefixedSlice (drop (unat key_length) key_ptr)) (\<lambda>(v, _).
              Inr (Some (Inr v)))
            else if tag AND 0xff = 0 then Inr (Some (Inl NotFound))
            else Inr None)
          else Inr None
        else Inr None))))"

section \<open>Writing a batch\<close>

fun insert_ops :: "wb_op list \<Rightarrow> u64 \<Rightarrow> memtable \<Rightarrow> (u64 \<times> memtable) res" where
  "insert_ops [] sq m = Inr (sq, m)"
| "insert_ops (WbPut key val # ops) sq m =
     bind_res (MemTable_Add sq kTypeValue key val m) (insert_ops ops (sq + 1))"
| "insert_ops (WbDelete key # ops) sq m =
     bind_res (MemTable_Add sq kTypeDeletion key [] m) (insert_ops ops (sq + 1))"

definition InsertInto :: "byte list \<Rightarrow> memtable \<Rightarrow> (status \<times> memtable) res" where
  "InsertInto b m =
     bind_res (WriteBatch_Sequence b) (\<lambda>sq.
     bind_res (WriteBatch_Iterate b) (\<lambda>(ops, s).
     bind_res (insert_ops ops sq m) (\<lambda>(_, m). Inr (s, m))))"

section \<open>Iteration\<close>

definition mem_Seek :: "memtable \<Rightarrow> byte list \<Rightarrow> nat option res" where
  "mem_Seek m k =
     (if length k < 8 then Inl OutOfBounds
      else iter_Seek KeyComparator (table m) (KeyNum (take (length k - 8) k), EncodeKey k))"

definition mem_SeekToFirst :: "memtable \<Rightarrow> nat option res" where
  "mem_SeekToFirst m = iter_SeekToFirst (table m)"

definition mem_SeekToLast :: "memtable \<Rightarrow> nat option res" where
  "mem_SeekToLast m = iter_SeekToLast (table m)"

definition mem_Next :: "memtable \<Rightarrow> nat option \<Rightarrow> nat option res" where
  "mem_Next m it = iter_Next (table m) it"

definition mem_Prev :: "memtable \<Rightarrow> nat option \<Rightarrow> nat option res" where
  "mem_Prev m it = iter_Prev KeyComparator (table m) it"

definition mem_key :: "memtable \<Rightarrow> nat option \<Rightarrow> byte list res" where
  "mem_key m it =
     bind_res (iter_key (table m) it) (\<lambda>tk.
     bind_res (mem_GetLengthPrefixedSlice (snd tk)) (\<lambda>(k, _). Inr k))"

definition mem_value :: "memtable \<Rightarrow> nat option \<Rightarrow> byte list res" where
  "mem_value m it =
     bind_res (iter_key (table m) it) (\<lambda>tk.
     bind_res (mem_GetLengthPrefixedSlice (snd tk)) (\<lambda>(_, p).
     bind_res (mem_GetLengthPrefixedSlice p) (\<lambda>(v, _). Inr v)))"

section \<open>Several writers\<close>

text \<open>Writers between their search and their insertion, with the hint each of them holds.
  \<open>SearchFor\<close> starts a writer, \<open>Link i\<close> ends the \<open>i\<close>-th of those that wait.\<close>

datatype add_step = SearchFor table_key | Link nat

record adders =
  adders_list :: "table_key skiplist"
  waiting :: "(table_key \<times> hint) list"

primrec run_step :: "add_step \<Rightarrow> adders \<Rightarrow> adders res" where
  "run_step (SearchFor tk) a =
     bind_res (InsertHint KeyComparator (adders_list a) tk) (\<lambda>ih.
     Inr (a\<lparr>waiting := waiting a @ [(tk, ih)]\<rparr>))"
| "run_step (Link i) a =
     (if i < length (waiting a) then
        let (tk, ih) = waiting a ! i in
        bind_res (InsertWithHint KeyComparator ih tk (adders_list a)) (\<lambda>l.
        Inr (a\<lparr>adders_list := l, waiting := take i (waiting a) @ drop (Suc i) (waiting a)\<rparr>))
      else Inr a)"

fun run_steps :: "add_step list \<Rightarrow> adders \<Rightarrow> adders res" where
  "run_steps [] a = Inr a"
| "run_steps (st # sts) a = bind_res (run_step st a) (run_steps sts)"


section \<open>Entries, read back\<close>

lemma length_EncodeVarint32: "length (EncodeVarint32 v) \<le> 5"
  by (simp add: EncodeVarint32_def)

lemma mem_GetVarint32_encode [simp]: "mem_GetVarint32 (EncodeVarint32 v @ rest) = Inr (v, rest)"
proof -
  have "take 5 (EncodeVarint32 v @ rest) = EncodeVarint32 v @ take (5 - length (EncodeVarint32 v)) rest"
    "drop 5 (EncodeVarint32 v @ rest) = drop (5 - length (EncodeVarint32 v)) rest"
    using length_EncodeVarint32 [of v] by simp_all
  then show ?thesis
    using Varint32_roundtrip [of v "take (5 - length (EncodeVarint32 v)) rest"]
    by (simp add: mem_GetVarint32_def GetVarint32_def)
qed

lemma mem_slice_encode:
  "n = length x \<Longrightarrow> length x < 2 ^ 32 \<Longrightarrow>
   mem_GetLengthPrefixedSlice (EncodeVarint32 (of_nat n) @ x @ rest) = Inr (x, rest)"
  by (simp add: mem_GetLengthPrefixedSlice_def unat_of_nat)

text \<open>An internal key in a buffer, followed by anything.\<close>

definition tk_of :: "parsed_key \<Rightarrow> byte list \<Rightarrow> table_key" where
  "tk_of k rest = (KeyNum (user_key k), EncodeVarint32 (of_nat (length (user_key k) + 8)) @ encode_key k @ rest)"

definition key_ok :: "parsed_key \<Rightarrow> bool" where
  "key_ok k \<longleftrightarrow> valid_key k \<and> length (user_key k) < 2 ^ 31"

definition tk_ok :: "table_key \<Rightarrow> bool" where
  "tk_ok tk \<longleftrightarrow> (\<exists>k rest. key_ok k \<and> tk = tk_of k rest)"

definition tk_key :: "table_key \<Rightarrow> parsed_key" where
  "tk_key tk =
     (case mem_GetLengthPrefixedSlice (snd tk) of
        Inr (ik, _) \<Rightarrow> (case ParseInternalKey ik of Inr (Some k) \<Rightarrow> k))"

definition tk_before :: "table_key \<Rightarrow> table_key \<Rightarrow> bool" where
  "tk_before a b \<longleftrightarrow> key_before (tk_key a) (tk_key b)"

lemma slice_tk_of: "key_ok k \<Longrightarrow> mem_GetLengthPrefixedSlice (snd (tk_of k rest)) = Inr (encode_key k, rest)"
  using mem_slice_encode [of "length (user_key k) + 8" "encode_key k" rest] by (simp add: tk_of_def key_ok_def)

lemma tk_key_of [simp]: "key_ok k \<Longrightarrow> tk_key (tk_of k rest) = k"
  using ParseInternalKey_encode [of k] by (simp add: tk_key_def slice_tk_of key_ok_def)

lemma key_before_irrefl: "\<not> key_before a a"
  by (simp add: key_before_def)

lemma key_before_trans: "key_before a b \<Longrightarrow> key_before b c \<Longrightarrow> key_before a c"
  by (auto simp: key_before_def)

lemma key_before_total: "a \<noteq> b \<Longrightarrow> key_before a b \<or> key_before b a"
  by (cases "key_type a"; cases "key_type b") (auto simp: key_before_def intro: parsed_key.equality)

lemma KeyNum_less: "KeyNum a < KeyNum b \<Longrightarrow> a < b"
  using KeyNum_mono [of b a] by (meson not_le)

text \<open>The shortcut by the number of the key agrees with comparing the keys.\<close>

lemma KeyComparator_tk_of:
  assumes "key_ok a" and "key_ok b"
  shows "KeyComparator (tk_of a r) (tk_of b r') = Inr (if key_before a b then -1 else if key_before b a then 1 else 0)"
proof -
  have n: "fst (tk_of k x) = KeyNum (user_key k)" for k x by (simp add: tk_of_def)
  consider "KeyNum (user_key a) < KeyNum (user_key b)" | "KeyNum (user_key b) < KeyNum (user_key a)"
    | "KeyNum (user_key a) = KeyNum (user_key b)" by fastforce
  then show ?thesis
  proof cases
    case 1
    then have "key_before a b" using KeyNum_less by (simp add: key_before_def)
    then show ?thesis using 1 by (simp add: KeyComparator_def n)
  next
    case 2
    then have "key_before b a" using KeyNum_less by (simp add: key_before_def)
    moreover then have "\<not> key_before a b" using key_before_trans key_before_irrefl by blast
    ultimately show ?thesis using 2 by (simp add: KeyComparator_def n)
  next
    case 3
    then show ?thesis
      using assms InternalKey_Compare_encode [of a b] by (simp add: KeyComparator_def n slice_tk_of key_ok_def)
  qed
qed

interpretation tm: key_order KeyComparator tk_ok tk_before
proof
  fix a b c
  show "KeyComparator a b = Inr (if tk_before a b then -1 else if tk_before b a then 1 else 0)"
    if "tk_ok a" "tk_ok b"
    using that by (auto simp: tk_ok_def tk_before_def KeyComparator_tk_of)
  show "tk_before a b \<Longrightarrow> tk_before b c \<Longrightarrow> tk_before a c"
    unfolding tk_before_def by (rule key_before_trans)
  show "\<not> tk_before a a" unfolding tk_before_def by (rule key_before_irrefl)
qed

section \<open>The contents of a table\<close>

text \<open>An entry: a key and its value; how it is stored; the lists that hold given entries.\<close>

type_synonym entry = "parsed_key \<times> byte list"

definition entry_ok :: "entry \<Rightarrow> bool" where
  "entry_ok e \<longleftrightarrow> key_ok (fst e) \<and> length (snd e) < 2 ^ 31"

definition entry_tk :: "entry \<Rightarrow> table_key" where
  "entry_tk e = tk_of (fst e) (EncodeVarint32 (of_nat (length (snd e))) @ snd e)"

definition holds_at :: "table_key skiplist \<Rightarrow> nat list \<Rightarrow> entry list \<Rightarrow> bool" where
  "holds_at l xs es \<longleftrightarrow> tm.sl_sorted l xs \<and> sl_keys l xs = map entry_tk es \<and> (\<forall>e \<in> set es. entry_ok e)"

definition holds :: "table_key skiplist \<Rightarrow> entry list \<Rightarrow> bool" where
  "holds l es \<longleftrightarrow> (\<exists>xs. holds_at l xs es)"

abbreviation entry_before :: "entry \<Rightarrow> entry \<Rightarrow> bool" where
  "entry_before a b \<equiv> key_before (fst a) (fst b)"

definition entry_insert :: "entry \<Rightarrow> entry list \<Rightarrow> entry list" where
  "entry_insert e es = takeWhile (\<lambda>a. entry_before a e) es @ e # dropWhile (\<lambda>a. entry_before a e) es"

lemma tk_ok_entry [simp]: "entry_ok e \<Longrightarrow> tk_ok (entry_tk e)"
  by (auto simp: tk_ok_def entry_tk_def entry_ok_def)

lemma tk_key_entry [simp]: "entry_ok e \<Longrightarrow> tk_key (entry_tk e) = fst e"
  by (simp add: entry_tk_def entry_ok_def)

lemma entry_tk_inj:
  assumes "entry_ok a" and "entry_ok b" and "entry_tk a = entry_tk b"
  shows "a = b"
proof -
  let ?r = "\<lambda>e. EncodeVarint32 (of_nat (length (snd e))) @ snd e"
  have k: "fst a = fst b" using assms tk_key_entry by metis
  have "mem_GetLengthPrefixedSlice (snd (entry_tk e)) = Inr (encode_key (fst e), ?r e)" if "entry_ok e" for e
    using slice_tk_of that by (simp add: entry_tk_def entry_ok_def)
  then have "?r a = ?r b" using assms by (metis Inr_inject prod.inject)
  moreover have "mem_GetLengthPrefixedSlice (?r e) = Inr (snd e, [])" if "entry_ok e" for e
    using mem_slice_encode [of "length (snd e)" "snd e" "[]"] that by (simp add: entry_ok_def)
  ultimately have "snd a = snd b" using assms(1,2) by (metis Inr_inject prod.inject)
  then show ?thesis using k by (simp add: prod_eq_iff)
qed

lemma holds_new: "holds new_SkipList []"
  unfolding holds_def holds_at_def
  by (rule exI [of _ "[]"]) (simp add: tm.sl_sorted_def sl_rep_new sl_keys_def)

lemma holds_at_length: "holds_at l xs es \<Longrightarrow> length xs = length es"
  unfolding holds_at_def sl_keys_def by (metis length_map)

lemma holds_at_keyed: "holds_at l xs es \<Longrightarrow> i < length es \<Longrightarrow> keyed l (xs ! i) = entry_tk (es ! i)"
  using holds_at_length [of l xs es] unfolding holds_at_def sl_keys_def by (metis nth_map)

lemma holds_at_sorted:
  assumes h: "holds_at l xs es"
  shows "sorted_wrt entry_before es"
proof -
  have "sorted_wrt tk_before (map entry_tk es)"
    using h unfolding holds_at_def tm.sl_sorted_def by metis
  then have "sorted_wrt (\<lambda>a b. tk_before (entry_tk a) (entry_tk b)) es" by (simp add: sorted_wrt_map)
  then show ?thesis
  proof (rule sorted_wrt_mono_rel [rotated])
    fix a b
    assume "a \<in> set es" "b \<in> set es" "tk_before (entry_tk a) (entry_tk b)"
    then show "entry_before a b" using h by (simp add: holds_at_def tk_before_def)
  qed
qed

text \<open>The split of the nodes at a key is the split of the entries.\<close>

lemma holds_split:
  assumes "holds_at l (as @ bs) es" and "tm.split_at l (tk_of k r) as bs" and "key_ok k"
  shows "\<exists>ca cb. es = ca @ cb \<and> length ca = length as \<and> (\<forall>a \<in> set ca. key_before (fst a) k) \<and>
    (\<forall>b \<in> set cb. \<not> key_before (fst b) k) \<and> sl_keys l as = map entry_tk ca \<and> sl_keys l bs = map entry_tk cb"
proof -
  have m: "map (keyed l) as @ map (keyed l) bs = map entry_tk es"
    using assms(1) by (simp add: holds_at_def sl_keys_def)
  then obtain ca cb where c: "es = ca @ cb" "map (keyed l) as = map entry_tk ca" "map (keyed l) bs = map entry_tk cb"
    unfolding append_eq_map_conv by blast
  have ok: "\<forall>e \<in> set es. entry_ok e" using assms(1) by (simp add: holds_at_def)
  have "key_before (fst a) k" if a: "a \<in> set ca" for a
  proof -
    have "entry_tk a \<in> set (map (keyed l) as)" unfolding c(2) using a by simp
    then have "tk_before (entry_tk a) (tk_of k r)" using assms(2) by (auto simp: tm.split_at_def)
    then show ?thesis using ok a c(1) assms(3) by (simp add: tk_before_def)
  qed
  moreover have "\<not> key_before (fst b) k" if b: "b \<in> set cb" for b
  proof -
    have "entry_tk b \<in> set (map (keyed l) bs)" unfolding c(3) using b by simp
    then have "\<not> tk_before (entry_tk b) (tk_of k r)" using assms(2) by (auto simp: tm.split_at_def)
    then show ?thesis using ok b c(1) assms(3) by (simp add: tk_before_def)
  qed
  moreover have "length ca = length as" using c(2) by (metis length_map)
  ultimately show ?thesis using c unfolding sl_keys_def by blast
qed

lemma entry_insert_split:
  assumes "\<forall>a \<in> set ca. entry_before a e" and "\<forall>b \<in> set cb. \<not> entry_before b e"
  shows "entry_insert e (ca @ cb) = ca @ e # cb"
proof -
  have "takeWhile (\<lambda>a. entry_before a e) cb = []" "dropWhile (\<lambda>a. entry_before a e) cb = cb"
    using assms(2) by (cases cb; simp)+
  then show ?thesis using assms(1) by (simp add: entry_insert_def takeWhile_append2 dropWhile_append2)
qed

text \<open>Inserting an entry whose key is new, under a hint that may be stale.\<close>

definition hint_for :: "table_key skiplist \<Rightarrow> table_key \<Rightarrow> hint \<Rightarrow> bool" where
  "hint_for l tk ih \<longleftrightarrow> (\<exists>as bs. tm.split_at l tk as bs \<and> tm.hint_ok l as bs ih)"

lemma holds_InsertHint:
  assumes "holds l es" and "entry_ok e"
  shows "\<exists>ih. InsertHint KeyComparator l (entry_tk e) = Inr ih \<and> hint_for l (entry_tk e) ih"
proof -
  obtain xs where "holds_at l xs es" using assms(1) by (auto simp: holds_def)
  then obtain as bs where "tm.split_at l (entry_tk e) as bs"
    using tm.split_exists [of l xs "entry_tk e"] assms(2) by (auto simp: holds_at_def)
  then show ?thesis unfolding hint_for_def using tm.InsertHint_ok by blast
qed

text \<open>The nodes of a list are those that its first level links.\<close>

lemma links_unique: "links f (x # xs) \<Longrightarrow> links f (x # ys) \<Longrightarrow> xs = ys"
proof (induction xs arbitrary: x ys)
  case Nil
  then show ?case by (cases ys) auto
next
  case (Cons a xs)
  then show ?case by (cases ys) auto
qed

lemma sl_rep_unique:
  assumes "sl_rep l xs" and "sl_rep l ys"
  shows "xs = ys"
proof -
  have "level l 0 xs = xs" "level l 0 ys = ys" using tm.level_0 assms by blast+
  moreover have "links (nx l 0) (0 # level l 0 xs)" "links (nx l 0) (0 # level l 0 ys)"
    using assms unfolding sl_rep_def by (auto simp: kMaxHeight_def)
  ultimately show ?thesis using links_unique by metis
qed

text \<open>A list that grows keeps its nodes and their keys.\<close>

definition list_grows :: "table_key skiplist \<Rightarrow> table_key skiplist \<Rightarrow> bool" where
  "list_grows l l' \<longleftrightarrow> (\<forall>xs. sl_rep l xs \<longrightarrow>
     (\<exists>xs'. sl_rep l' xs' \<and> set xs \<subseteq> set xs' \<and> (\<forall>i \<in> set xs. keyed l' i = keyed l i)))"

lemma list_grows_refl [simp]: "list_grows l l"
  by (auto simp: list_grows_def)

lemma list_grows_trans:
  assumes "list_grows a b" and "list_grows b c"
  shows "list_grows a c"
  unfolding list_grows_def
proof (intro allI impI)
  fix xs
  assume "sl_rep a xs"
  then obtain ys where ys: "sl_rep b ys" "set xs \<subseteq> set ys" "\<forall>i \<in> set xs. keyed b i = keyed a i"
    using assms(1) by (auto simp: list_grows_def)
  obtain zs where zs: "sl_rep c zs" "set ys \<subseteq> set zs" "\<forall>i \<in> set ys. keyed c i = keyed b i"
    using assms(2) ys(1) by (auto simp: list_grows_def)
  have "\<forall>i \<in> set xs. keyed c i = keyed a i" using ys zs by (auto dest: subsetD)
  then show "\<exists>zs. sl_rep c zs \<and> set xs \<subseteq> set zs \<and> (\<forall>i \<in> set xs. keyed c i = keyed a i)"
    using ys(2) zs(1,2) by blast
qed

lemma holds_InsertWithHint:
  assumes "holds l es" and e: "entry_ok e" and new: "fst e \<notin> fst ` set es" and "hint_for l (entry_tk e) ih"
  shows "\<exists>l'. InsertWithHint KeyComparator ih (entry_tk e) l = Inr l' \<and> holds l' (entry_insert e es) \<and> list_grows l l' \<and>
    (\<forall>e' ih'. entry_ok e' \<longrightarrow> hint_for l (entry_tk e') ih' \<longrightarrow> hint_for l' (entry_tk e') ih')"
proof -
  obtain xs where h: "holds_at l xs es" using assms(1) by (auto simp: holds_def)
  obtain as bs where sp: "tm.split_at l (entry_tk e) as bs" and hint: "tm.hint_ok l as bs ih"
    using assms(4) by (auto simp: hint_for_def)
  have xs: "xs = as @ bs"
    using h sp by (intro sl_rep_unique [of l]) (auto simp: holds_at_def tm.sl_sorted_def tm.split_at_def)
  obtain ca cb where c: "es = ca @ cb" "\<forall>a \<in> set ca. entry_before a e" "\<forall>b \<in> set cb. \<not> entry_before b e"
    "sl_keys l as = map entry_tk ca" "sl_keys l bs = map entry_tk cb"
    using holds_split [OF h [unfolded xs] sp [unfolded entry_tk_def]] e unfolding entry_ok_def by blast
  have ok: "\<forall>a \<in> set es. entry_ok a" using h by (simp add: holds_at_def)
  have "entry_before e b" if "b \<in> set cb" for b
    using that c new key_before_total [of "fst e" "fst b"] by auto
  then have "tk_before (entry_tk e) t" if "t \<in> set (sl_keys l bs)" for t
    using that e ok c(1) unfolding c(5) by (auto simp: tk_before_def)
  then have behind: "\<forall>i \<in> set bs. tk_before (entry_tk e) (keyed l i)" by (simp add: sl_keys_def)
  obtain l' where l': "InsertWithHint KeyComparator ih (entry_tk e) l = Inr l'"
    "tm.sl_sorted l' (as @ length (nodes l) # bs)" "keyed l' (length (nodes l)) = entry_tk e"
    "\<forall>i < length (nodes l). keyed l' i = keyed l i \<and> node_height l' i = node_height l i"
    using tm.InsertWithHint_correct [OF sp hint behind refl] by blast
  have below: "\<forall>i \<in> set (as @ bs). i < length (nodes l)"
    using h xs by (auto simp: holds_at_def tm.sl_sorted_def sl_rep_def)
  have "sl_keys l' (as @ length (nodes l) # bs) = map entry_tk (ca @ e # cb)"
  proof -
    have "map (keyed l') as = map (keyed l) as" "map (keyed l') bs = map (keyed l) bs"
      using l'(4) below by (auto intro: map_cong)
    then show ?thesis using c(4,5) l'(3) unfolding sl_keys_def map_append list.map by metis
  qed
  then have "holds_at l' (as @ length (nodes l) # bs) (entry_insert e es)"
    using l'(2) ok e c(1) entry_insert_split [OF c(2,3)] by (auto simp: holds_at_def)
  moreover have "hint_for l' (entry_tk e') ih'" if e': "entry_ok e'" and hf: "hint_for l (entry_tk e') ih'" for e' ih'
  proof -
    obtain ds fs where d: "tm.split_at l (entry_tk e') ds fs" "tm.hint_ok l ds fs ih'"
      using hf by (auto simp: hint_for_def)
    have eq: "ds @ fs = as @ bs"
      using sp d(1) by (intro sl_rep_unique [of l]) (auto simp: tm.sl_sorted_def tm.split_at_def)
    obtain ds' fs' where d': "as @ length (nodes l) # bs = ds' @ fs'" "tm.split_at l' (entry_tk e') ds' fs'"
      using tm.split_exists [OF l'(2), of "entry_tk e'"] e' by auto
    have "set (ds @ fs) \<subseteq> set (ds' @ fs')" unfolding eq d'(1) [symmetric] by auto
    moreover have "\<forall>i \<in> set (ds @ fs). keyed l' i = keyed l i \<and> node_height l' i = node_height l i"
      unfolding eq using below l'(4) by blast
    ultimately have "tm.hint_ok l' ds' fs' ih'" by (rule tm.InsertHint_stale [OF d d'(2)])
    then show ?thesis using d'(2) by (auto simp: hint_for_def)
  qed
  moreover have "list_grows l l'"
    unfolding list_grows_def
  proof (intro allI impI)
    fix ys
    assume "sl_rep l ys"
    moreover have "sl_rep l (as @ bs)" using sp by (simp add: tm.split_at_def tm.sl_sorted_def)
    ultimately have ys: "ys = as @ bs" by (rule sl_rep_unique)
    have "sl_rep l' (as @ length (nodes l) # bs)" using l'(2) by (simp add: tm.sl_sorted_def)
    moreover have "set ys \<subseteq> set (as @ length (nodes l) # bs)" unfolding ys by auto
    ultimately show "\<exists>xs'. sl_rep l' xs' \<and> set ys \<subseteq> set xs' \<and> (\<forall>i \<in> set ys. keyed l' i = keyed l i)"
      using l'(4) below ys by blast
  qed
  ultimately show ?thesis using l'(1) unfolding holds_def by blast
qed


section \<open>Adding and looking up\<close>

lemma EncodeVarint32_of_nat: "n < 2 ^ 32 \<Longrightarrow> EncodeVarint32 (of_nat n) = EncodeVarint64 (of_nat n)"
proof -
  assume n: "n < 2 ^ 32"
  then have "unat (ucast (of_nat n :: u32) :: u64) = unat (of_nat n :: u64)"
    by (simp add: unat_ucast_up unat_of_nat)
  then have "(ucast (of_nat n :: u32) :: u64) = of_nat n" by (simp only: word_unat_eq_iff)
  then show ?thesis by (simp add: EncodeVarint32_is_64)
qed

lemma mem_entry_ok:
  assumes "entry_ok (k, v)"
  shows "mem_entry (sequence k) (key_type k) (user_key k) v = Inr (entry_tk (k, v))"
proof -
  have "length (user_key k) + 8 < 2 ^ 32" "length v < 2 ^ 32" using assms by (auto simp: entry_ok_def key_ok_def)
  from this [THEN EncodeVarint32_of_nat] show ?thesis
    by (simp add: mem_entry_def entry_tk_def tk_of_def encode_key_def tag_num_def Let_def VarintLength_encode)
qed

lemma MemTable_Add_holds:
  assumes "holds (table m) es" and "entry_ok (k, v)" and "k \<notin> fst ` set es"
  shows "\<exists>m'. MemTable_Add (sequence k) (key_type k) (user_key k) v m = Inr m' \<and>
    holds (table m') (entry_insert (k, v) es) \<and> refs m' = refs m \<and> list_grows (table m) (table m')"
proof -
  obtain ih where ih: "InsertHint KeyComparator (table m) (entry_tk (k, v)) = Inr ih"
    "hint_for (table m) (entry_tk (k, v)) ih"
    using holds_InsertHint [OF assms(1,2)] by blast
  obtain l' where "InsertWithHint KeyComparator ih (entry_tk (k, v)) (table m) = Inr l'"
    "holds l' (entry_insert (k, v) es)" "list_grows (table m) l'"
    using holds_InsertWithHint [OF assms(1,2) _ ih(2)] assms(3) by auto
  then show ?thesis using mem_entry_ok [OF assms(2)] ih(1) by (simp add: MemTable_Add_def)
qed

lemma set_entry_insert [simp]: "set (entry_insert e es) = insert e (set es)"
proof -
  have "set (takeWhile P es) \<union> set (dropWhile P es) = set es" for P :: "entry \<Rightarrow> bool"
    by (metis set_append takeWhile_dropWhile_id)
  then show ?thesis by (simp add: entry_insert_def)
qed

text \<open>The entry a lookup finds: the first one for the key that the snapshot sees.\<close>

definition sees :: "byte list \<Rightarrow> u64 \<Rightarrow> entry \<Rightarrow> bool" where
  "sees ukey s e \<longleftrightarrow> user_key (fst e) = ukey \<and> sequence (fst e) \<le> s"

definition found :: "entry \<Rightarrow> status + byte list" where
  "found e = (case key_type (fst e) of kTypeValue \<Rightarrow> Inr (snd e) | kTypeDeletion \<Rightarrow> Inl NotFound)"

lemma lookup_tk:
  assumes "s \<le> kMaxSequenceNumber"
  shows "LookupKey ukey s = Inr (snd (tk_of \<lparr>user_key = ukey, sequence = s, key_type = kTypeValue\<rparr> []))"
  using assms by (simp add: LookupKey_def PackSequenceAndType_def kValueTypeForSeek_def tk_of_def encode_key_def tag_num_def)

lemma find_split:
  assumes "sorted_wrt entry_before (ca @ cb)" and "\<forall>a \<in> set ca. key_before (fst a) k"
    and "\<forall>b \<in> set cb. \<not> key_before (fst b) k" and "key_type k = kTypeValue"
  shows "find (sees (user_key k) (sequence k)) (ca @ cb) =
    (case cb of [] \<Rightarrow> None | b # _ \<Rightarrow> if user_key (fst b) = user_key k then Some b else None)"
proof -
  have "\<not> sees (user_key k) (sequence k) a" if "a \<in> set ca" for a
    using assms(2,4) that by (auto simp: sees_def key_before_def)
  then have "find (sees (user_key k) (sequence k)) (ca @ cb) = find (sees (user_key k) (sequence k)) cb"
    by (induction ca) auto
  also have "\<dots> = (case cb of [] \<Rightarrow> None | b # _ \<Rightarrow> if user_key (fst b) = user_key k then Some b else None)"
  proof (cases cb)
    case (Cons b ds)
    have nb: "\<not> key_before (fst b) k" using assms(3) Cons by simp
    show ?thesis
    proof (cases "user_key (fst b) = user_key k")
      case True
      then have "sees (user_key k) (sequence k) b" using nb by (auto simp: sees_def key_before_def not_less)
      then show ?thesis using Cons True by simp
    next
      case False
      then have "user_key k < user_key (fst b)" using nb by (auto simp: key_before_def)
      moreover have "user_key (fst b) \<le> user_key (fst d)" if "d \<in> set ds" for d
        using assms(1) Cons that by (auto simp: sorted_wrt_append key_before_def)
      ultimately have "\<not> sees (user_key k) (sequence k) d" if "d \<in> set cb" for d
        using Cons that unfolding sees_def by fastforce
      then have "find (sees (user_key k) (sequence k)) cb = None" unfolding find_None_iff by blast
      then show ?thesis using Cons False by simp
    qed
  qed simp
  finally show ?thesis .
qed

lemma Get_entry:
  assumes y: "key_of (table m) y = Inr (entry_tk b)" and b: "entry_ok b"
    and seek: "iter_Seek KeyComparator (table m) (tk_of k []) = Inr (hd_opt (y # ys))"
  shows "MemTable_Get (snd (tk_of k [])) (user_key k) m =
    Inr (if user_key (fst b) = user_key k then Some (found b) else None)"
proof -
  let ?kb = "fst b"
  let ?rest = "EncodeVarint32 (of_nat (length (snd b))) @ snd b"
  have kb: "length (user_key ?kb) + 8 < 2 ^ 32" "valid_key ?kb" "length (snd b) < 2 ^ 32"
    using b by (auto simp: entry_ok_def key_ok_def)
  have e: "entry_tk b = (KeyNum (user_key ?kb),
      EncodeVarint32 (of_nat (length (user_key ?kb) + 8)) @ encode_key ?kb @ ?rest)"
    by (simp add: entry_tk_def tk_of_def)
  have n: "unat (of_nat (length (user_key ?kb) + 8) :: u32) = length (user_key ?kb) + 8"
    unfolding unat_of_nat using kb(1) by simp
  have n8: "unat (of_nat (length (user_key ?kb) + 8) - 8 :: u32) = length (user_key ?kb)"
    using kb(1) by (simp add: unat_of_nat)
  have tag: "DecodeFixed64 (drop (length (user_key ?kb)) (encode_key ?kb @ ?rest)) =
      Inr (tag_num (sequence ?kb) (key_type ?kb))"
    using Fixed64_roundtrip by (simp add: encode_key_def)
  have val: "mem_GetLengthPrefixedSlice (drop (length (user_key ?kb) + 8) (encode_key ?kb @ ?rest)) =
      Inr (snd b, [])"
    using mem_slice_encode [of "length (snd b)" "snd b" "[]"] kb(3) by simp
  have tn: "tag_num (sequence ?kb) (key_type ?kb) AND 0xff = type_num (key_type ?kb)"
    by (rule tag_num_parts(2) [OF sequence_less [OF kb(2)]])
  have cmp: "Slice_compare (take (length (user_key ?kb)) (encode_key ?kb @ ?rest)) (user_key k) = 0 \<longleftrightarrow>
      user_key ?kb = user_key k"
    by (auto simp: Slice_compare_lex encode_key_def)
  have "iter_key (table m) (Some y) = Inr (entry_tk b)" using y by (simp add: iter_key_def)
  then show ?thesis
    using seek n n8 tag val tn cmp
    by (cases "key_type ?kb")
      (auto simp: MemTable_Get_def e found_def Let_def tk_of_def)
qed

lemma MemTable_Get_holds:
  assumes h: "holds (table m) es" and s: "s \<le> kMaxSequenceNumber" and u: "length ukey < 2 ^ 31"
  shows "\<exists>memkey. LookupKey ukey s = Inr memkey \<and>
    MemTable_Get memkey ukey m = Inr (map_option found (find (sees ukey s) es))"
proof -
  let ?k = "\<lparr>user_key = ukey, sequence = s, key_type = kTypeValue\<rparr>"
  have k: "key_ok ?k" using s u by (simp add: key_ok_def valid_key_def)
  obtain xs where at: "holds_at (table m) xs es" using h by (auto simp: holds_def)
  obtain as bs where xs: "xs = as @ bs" and sp: "tm.split_at (table m) (tk_of ?k []) as bs"
    using tm.split_exists [of "table m" xs "tk_of ?k []"] at k by (auto simp: holds_at_def tk_ok_def)
  obtain ca cb where c: "es = ca @ cb" "\<forall>a \<in> set ca. key_before (fst a) ?k" "\<forall>b \<in> set cb. \<not> key_before (fst b) ?k"
    "sl_keys (table m) bs = map entry_tk cb"
    using holds_split [OF at [unfolded xs] sp k] by blast
  have f: "find (sees ukey s) es =
      (case cb of [] \<Rightarrow> None | b # _ \<Rightarrow> if user_key (fst b) = ukey then Some b else None)"
    using find_split [of ca cb ?k] holds_at_sorted [OF at] c(1-3) by (cases cb) simp_all
  have seek: "iter_Seek KeyComparator (table m) (tk_of ?k []) = Inr (hd_opt bs)"
    by (rule tm.iter_Seek_correct [OF sp])
  have "MemTable_Get (snd (tk_of ?k [])) ukey m =
      Inr (case cb of [] \<Rightarrow> None | b # _ \<Rightarrow> if user_key (fst b) = ukey then Some (found b) else None)"
  proof (cases cb)
    case Nil
    then have "bs = []" using c(4) by (simp add: sl_keys_def)
    then show ?thesis using seek Nil by (simp add: MemTable_Get_def tk_of_def)
  next
    case (Cons b ds)
    then obtain y ys where bs: "bs = y # ys" "keyed (table m) y = entry_tk b"
      using c(4) by (auto simp: sl_keys_def)
    have "key_of (table m) y = Inr (entry_tk b)"
      using key_of_rep [of "table m" xs y] at bs xs by (simp add: holds_at_def tm.sl_sorted_def)
    moreover have "entry_ok b" using at c(1) Cons by (simp add: holds_at_def)
    ultimately show ?thesis using Get_entry [of m y b ?k ys] seek Cons bs(1) by simp
  qed
  then have "MemTable_Get (snd (tk_of ?k [])) ukey m = Inr (map_option found (find (sees ukey s) es))"
    unfolding f by (cases cb) simp_all
  then show ?thesis using lookup_tk [OF s] by blast
qed

section \<open>A batch in the table\<close>

primrec op_key :: "wb_op \<Rightarrow> byte list" where
  "op_key (WbPut k v) = k"
| "op_key (WbDelete k) = k"

primrec op_entry :: "wb_op \<Rightarrow> u64 \<Rightarrow> entry" where
  "op_entry (WbPut k v) sq = (\<lparr>user_key = k, sequence = sq, key_type = kTypeValue\<rparr>, v)"
| "op_entry (WbDelete k) sq = (\<lparr>user_key = k, sequence = sq, key_type = kTypeDeletion\<rparr>, [])"

primrec op_result :: "wb_op \<Rightarrow> status + byte list" where
  "op_result (WbPut k v) = Inr v"
| "op_result (WbDelete k) = Inl NotFound"

text \<open>What a reader sees after some operations: the last one on its key.\<close>

definition last_on :: "wb_op list \<Rightarrow> byte list \<Rightarrow> wb_op option" where
  "last_on ops ukey = find (\<lambda>op. op_key op = ukey) (rev ops)"

lemma op_entry_parts [simp]:
  "user_key (fst (op_entry op sq)) = op_key op" "sequence (fst (op_entry op sq)) = sq"
  "found (op_entry op sq) = op_result op"
  by (cases op; simp add: found_def)+

lemma op_entry_ok: "small_op op \<Longrightarrow> sq \<le> kMaxSequenceNumber \<Longrightarrow> entry_ok (op_entry op sq)"
  by (cases op) (simp_all add: entry_ok_def key_ok_def valid_key_def)

lemma insert_ops_Cons: "insert_ops (op # ops) sq m =
    bind_res (MemTable_Add (sequence (fst (op_entry op sq))) (key_type (fst (op_entry op sq)))
      (user_key (fst (op_entry op sq))) (snd (op_entry op sq)) m) (insert_ops ops (sq + 1))"
  by (cases op) simp_all

text \<open>The entries of operations that are numbered from \<open>sq\<close>.\<close>

definition ops_entries :: "u64 \<Rightarrow> wb_op list \<Rightarrow> entry set" where
  "ops_entries sq ops = (\<lambda>i. op_entry (ops ! i) (sq + of_nat i)) ` {..< length ops}"

lemma ops_entries_Cons: "ops_entries sq (op # ops) = insert (op_entry op sq) (ops_entries (sq + 1) ops)"
  by (simp add: ops_entries_def lessThan_Suc_eq_insert_0 image_image add.assoc)

lemma seq_add:
  assumes "unat (sq :: u64) + n \<le> 2 ^ 56 - 1"
  shows "unat (sq + of_nat n) = unat sq + n" and "sq + of_nat n \<le> kMaxSequenceNumber"
proof -
  have "unat (of_nat n :: u64) = n" using assms by (simp add: unat_of_nat)
  then show u: "unat (sq + of_nat n) = unat sq + n" using assms by (simp add: unat_word_ariths)
  show "sq + of_nat n \<le> kMaxSequenceNumber" using assms by (simp add: word_le_nat_alt u kMaxSequenceNumber_def)
qed

lemma insert_ops_holds:
  assumes "holds (table m) es" and "\<forall>op \<in> set ops. small_op op" and "unat sq + length ops \<le> 2 ^ 56 - 1"
    and "\<forall>e \<in> set es. sequence (fst e) < sq"
  shows "\<exists>m' es'. insert_ops ops sq m = Inr (sq + of_nat (length ops), m') \<and> holds (table m') es' \<and>
    set es' = set es \<union> ops_entries sq ops \<and> list_grows (table m) (table m')"
  using assms
proof (induction ops arbitrary: sq m es)
  case Nil
  then show ?case by (auto simp: ops_entries_def)
next
  case (Cons op ops)
  let ?e = "op_entry op sq"
  have sq: "sq \<le> kMaxSequenceNumber" using seq_add(2) [of sq 0] Cons.prems(3) by simp
  have up: "unat (sq + 1) = unat sq + 1" using seq_add(1) [of sq 1] Cons.prems(3) by simp
  have e: "entry_ok (fst ?e, snd ?e)" using op_entry_ok [OF _ sq] Cons.prems(2) by simp
  have new: "fst ?e \<notin> fst ` set es"
  proof
    assume "fst ?e \<in> fst ` set es"
    then obtain d where "d \<in> set es" "fst d = fst ?e" by force
    then have "sequence (fst ?e) < sq" using Cons.prems(4) by metis
    then show False by simp
  qed
  obtain m1 where m1: "MemTable_Add (sequence (fst ?e)) (key_type (fst ?e)) (user_key (fst ?e)) (snd ?e) m = Inr m1"
    "holds (table m1) (entry_insert ?e es)" "list_grows (table m) (table m1)"
    using MemTable_Add_holds [OF Cons.prems(1) e new] by auto
  have "\<forall>d \<in> set (entry_insert ?e es). sequence (fst d) < sq + 1"
  proof
    fix d
    assume "d \<in> set (entry_insert ?e es)"
    then have "d = ?e \<or> d \<in> set es" by simp
    then have "sequence (fst d) \<le> sq" using Cons.prems(4) by (auto intro: less_imp_le)
    then show "sequence (fst d) < sq + 1" using up by (simp add: word_less_nat_alt word_le_nat_alt)
  qed
  then obtain m' es' where "insert_ops ops (sq + 1) m1 = Inr (sq + 1 + of_nat (length ops), m')"
    "holds (table m') es'" "set es' = set (entry_insert ?e es) \<union> ops_entries (sq + 1) ops"
    "list_grows (table m1) (table m')"
    using Cons.IH [OF m1(2), of "sq + 1"] Cons.prems(2,3) up by auto
  then show ?case using m1(1) list_grows_trans [OF m1(3)]
    unfolding insert_ops_Cons ops_entries_Cons by (simp add: add.assoc) blast
qed

text \<open>In a sorted list the first entry of a kind is the one before all others.\<close>

lemma find_first:
  assumes "sorted_wrt entry_before es" and "e \<in> set es" and "P e"
    and "\<And>d. d \<in> set es \<Longrightarrow> P d \<Longrightarrow> d = e \<or> entry_before e d"
  shows "find P es = Some e"
  using assms
proof (induction es)
  case (Cons a es)
  show ?case
  proof (cases "P a")
    case True
    then have "a = e \<or> entry_before e a" using Cons.prems(4) [of a] by simp
    moreover have "e = a \<or> entry_before a e" using Cons.prems(1,2) by auto
    ultimately have "a = e" using key_before_trans key_before_irrefl by blast
    then show ?thesis using True by simp
  next
    case False
    then have "e \<in> set es" using Cons.prems(2,3) by auto
    then show ?thesis using Cons False by simp
  qed
qed simp

lemma find_rev:
  "find P (rev xs) = Some y \<longleftrightarrow> (\<exists>i < length xs. xs ! i = y \<and> P y \<and> (\<forall>j < length xs. i < j \<longrightarrow> \<not> P (xs ! j)))"
proof (induction xs rule: rev_induct)
  case (snoc x xs)
  show ?case
  proof (cases "P x")
    case True
    have "(\<exists>i < length (xs @ [x]). (xs @ [x]) ! i = y \<and> P y \<and>
        (\<forall>j < length (xs @ [x]). i < j \<longrightarrow> \<not> P ((xs @ [x]) ! j))) \<longleftrightarrow> y = x"
    proof
      assume "y = x"
      then show "\<exists>i < length (xs @ [x]). (xs @ [x]) ! i = y \<and> P y \<and>
        (\<forall>j < length (xs @ [x]). i < j \<longrightarrow> \<not> P ((xs @ [x]) ! j))"
        using True by (intro exI [of _ "length xs"]) auto
    next
      assume "\<exists>i < length (xs @ [x]). (xs @ [x]) ! i = y \<and> P y \<and>
        (\<forall>j < length (xs @ [x]). i < j \<longrightarrow> \<not> P ((xs @ [x]) ! j))"
      then obtain i where i: "i < Suc (length xs)" "(xs @ [x]) ! i = y"
        "\<forall>j < Suc (length xs). i < j \<longrightarrow> \<not> P ((xs @ [x]) ! j)" by auto
      then have "i = length xs" using True by (metis lessI less_antisym nth_append_length)
      then show "y = x" using i(2) by simp
    qed
    then show ?thesis using True by auto
  next
    case False
    have "(\<exists>i < length (xs @ [x]). (xs @ [x]) ! i = y \<and> P y \<and>
        (\<forall>j < length (xs @ [x]). i < j \<longrightarrow> \<not> P ((xs @ [x]) ! j))) \<longleftrightarrow>
      (\<exists>i < length xs. xs ! i = y \<and> P y \<and> (\<forall>j < length xs. i < j \<longrightarrow> \<not> P (xs ! j)))"
      using False by (auto simp: nth_append less_Suc_eq)
    then show ?thesis using False snoc by simp
  qed
qed simp

lemma unat_snapshot:
  assumes "0 < unat (sq :: u64)" and "unat sq + n \<le> 2 ^ 56 - 1"
  shows "unat (sq + of_nat n - 1) = unat sq + n - 1"
proof -
  have "1 \<le> sq + of_nat n" using seq_add(1) [OF assms(2)] assms(1) by (simp add: word_le_nat_alt)
  then show ?thesis using seq_add(1) [OF assms(2)] by (simp add: unat_sub)
qed

text \<open>The entry that a snapshot of the first \<open>n\<close> operations sees.\<close>

lemma find_snapshot:
  assumes so: "sorted_wrt entry_before es" and set: "set es = ops_entries sq ops"
    and sq: "0 < unat sq" "unat sq + length ops \<le> 2 ^ 56 - 1" and n: "n \<le> length ops"
  shows "map_option found (find (sees ukey (sq + of_nat n - 1)) es) = map_option op_result (last_on (take n ops) ukey)"
proof -
  let ?P = "sees ukey (sq + of_nat n - 1)"
  let ?e = "\<lambda>i. op_entry (ops ! i) (sq + of_nat i)"
  have num: "unat (sq + of_nat i) = unat sq + i" if "i < length ops" for i
    using seq_add(1) [of sq i] sq(2) that by simp
  have s: "unat (sq + of_nat n - 1) = unat sq + n - 1" using unat_snapshot [of sq n] sq n by simp
  have P: "?P (?e i) \<longleftrightarrow> op_key (ops ! i) = ukey \<and> i < n" if "i < length ops" for i
    using num [OF that] s sq(1) by (auto simp: sees_def word_le_nat_alt)
  show ?thesis
  proof (cases "last_on (take n ops) ukey")
    case None
    have none: "op_key op \<noteq> ukey" if "op \<in> set (take n ops)" for op
      using None that by (auto simp: last_on_def find_None_iff)
    have "\<not> ?P d" if d: "d \<in> set es" for d
    proof -
      obtain i where i: "i < length ops" "d = ?e i" using d by (auto simp: set ops_entries_def)
      have "op_key (ops ! i) \<noteq> ukey" if "i < n"
      proof -
        have "take n ops ! i \<in> set (take n ops)" using that i(1) by (intro nth_mem) simp
        then show ?thesis using none that by simp
      qed
      then show ?thesis using P [OF i(1)] i(2) by blast
    qed
    then have "find ?P es = None" unfolding find_None_iff by blast
    then show ?thesis using None by simp
  next
    case (Some op)
    then obtain i where i: "i < n" "ops ! i = op" "op_key op = ukey"
      "\<forall>j < n. i < j \<longrightarrow> op_key (ops ! j) \<noteq> ukey"
      unfolding last_on_def find_rev using n by auto
    have "find ?P es = Some (?e i)"
    proof (rule find_first [OF so])
      show "?e i \<in> set es" using i(1) n by (auto simp: set ops_entries_def)
      show "?P (?e i)" using P [of i] i n by simp
      fix d
      assume d: "d \<in> set es" "?P d"
      obtain j where j: "j < length ops" "d = ?e j" using d(1) by (auto simp: set ops_entries_def)
      have "op_key (ops ! j) = ukey" "j < n" using P [OF j(1)] d(2) j(2) by auto
      then have "j \<le> i" using i(4) by (cases "i < j") auto
      moreover have "sq + of_nat j < sq + of_nat i" if "j < i"
        using num [OF j(1)] num [of i] that i(1) n by (simp add: word_less_nat_alt)
      ultimately show "d = ?e i \<or> entry_before (?e i) d"
        using j(2) i(2,3) \<open>op_key (ops ! j) = ukey\<close> by (cases "j = i") (auto simp: key_before_def)
    qed
    then show ?thesis using Some i(2) by simp
  qed
qed

lemma holds_batch_SetSequence:
  "holds_batch ops rep \<Longrightarrow> holds_batch ops (WriteBatch_SetSequence rep sq) \<and>
   WriteBatch_Sequence (WriteBatch_SetSequence rep sq) = Inr sq"
  by (auto simp: holds_batch_def WriteBatch_SetSequence_def WriteBatch_Sequence_def write_at_def Fixed64_roundtrip)

section \<open>Several writers\<close>

text \<open>What the steps of the writers mean: the sorted keys in the list, and the keys of the
  writers that wait.\<close>

primrec spec_step :: "add_step \<Rightarrow> table_key list \<times> table_key list \<Rightarrow> table_key list \<times> table_key list" where
  "spec_step (SearchFor tk) p = (fst p, snd p @ [tk])"
| "spec_step (Link i) p =
     (if i < length (snd p) then
        (let tk = snd p ! i
         in (takeWhile (\<lambda>k. tk_before k tk) (fst p) @ tk # dropWhile (\<lambda>k. tk_before k tk) (fst p),
             take i (snd p) @ drop (Suc i) (snd p)))
      else p)"

definition spec_steps :: "add_step list \<Rightarrow> table_key list \<times> table_key list" where
  "spec_steps sts = fold spec_step sts ([], [])"

primrec searched :: "add_step \<Rightarrow> table_key list" where
  "searched (SearchFor tk) = [tk]"
| "searched (Link i) = []"

text \<open>The keys of a list as its iterator reads them.\<close>

fun scan :: "nat \<Rightarrow> table_key skiplist \<Rightarrow> nat option \<Rightarrow> table_key list res" where
  "scan fuel l None = Inr []"
| "scan 0 l (Some x) = Inl Diverges"
| "scan (Suc fuel) l (Some x) =
     bind_res (iter_key l (Some x)) (\<lambda>k.
     bind_res (iter_Next l (Some x)) (\<lambda>it.
     bind_res (scan fuel l it) (\<lambda>ks. Inr (k # ks))))"

definition table_keys :: "table_key skiplist \<Rightarrow> table_key list res" where
  "table_keys l = bind_res (iter_SeekToFirst l) (scan (length (nodes l)) l)"

lemma scan_rep:
  "sl_rep l (as @ bs) \<Longrightarrow> length bs \<le> fuel \<Longrightarrow> scan fuel l (hd_opt bs) = Inr (sl_keys l bs)"
proof (induction bs arbitrary: as fuel)
  case (Cons b bs)
  then obtain f where f: "fuel = Suc f" "length bs \<le> f" by (cases fuel) auto
  have "iter_key l (Some b) = Inr (keyed l b)"
    using key_of_rep [OF Cons.prems(1), of b] by (simp add: iter_key_def)
  moreover have "scan f l (hd_opt bs) = Inr (sl_keys l bs)"
    using Cons.IH [of "as @ [b]" f] Cons.prems(1) f(2) by simp
  ultimately show ?case using iter_Next_rep [OF Cons.prems(1)] f(1) by (simp add: sl_keys_def)
qed (simp add: sl_keys_def)

lemma holds_table_keys: "holds l es \<Longrightarrow> table_keys l = Inr (map entry_tk es)"
proof -
  assume "holds l es"
  then obtain xs where xs: "sl_rep l xs" "sl_keys l xs = map entry_tk es"
    by (auto simp: holds_def holds_at_def tm.sl_sorted_def)
  have "length xs \<le> length (nodes l)" using rep_length [OF xs(1)] by simp
  then show ?thesis
    using iter_SeekToFirst_rep [OF xs(1)] scan_rep [of l "[]" xs] xs by (simp add: table_keys_def)
qed

lemma map_entry_insert:
  assumes "\<forall>a \<in> set (e # es). entry_ok a"
  shows "map entry_tk (entry_insert e es) = takeWhile (\<lambda>k. tk_before k (entry_tk e)) (map entry_tk es) @
    entry_tk e # dropWhile (\<lambda>k. tk_before k (entry_tk e)) (map entry_tk es)"
proof -
  have "takeWhile (\<lambda>a. tk_before (entry_tk a) (entry_tk e)) es = takeWhile (\<lambda>a. entry_before a e) es"
    "dropWhile (\<lambda>a. tk_before (entry_tk a) (entry_tk e)) es = dropWhile (\<lambda>a. entry_before a e) es"
    using assms by (auto simp: tk_before_def intro: takeWhile_cong dropWhile_cong)
  then show ?thesis by (simp add: entry_insert_def takeWhile_map dropWhile_map o_def)
qed

definition adders_ok :: "adders \<Rightarrow> entry list \<Rightarrow> entry list \<Rightarrow> bool" where
  "adders_ok a es ps \<longleftrightarrow> holds (adders_list a) es \<and> distinct (map fst (es @ ps)) \<and>
     map fst (waiting a) = map entry_tk ps \<and> (\<forall>e \<in> set ps. entry_ok e) \<and>
     (\<forall>(tk, ih) \<in> set (waiting a). hint_for (adders_list a) tk ih)"

lemma holds_ok: "holds l es \<Longrightarrow> e \<in> set es \<Longrightarrow> entry_ok e"
  by (auto simp: holds_def holds_at_def)

lemma step_SearchFor:
  assumes "adders_ok a es ps" and "entry_ok e" and "fst e \<notin> fst ` set (es @ ps)"
  shows "\<exists>a'. run_step (SearchFor (entry_tk e)) a = Inr a' \<and> adders_ok a' es (ps @ [e])"
proof -
  obtain ih where "InsertHint KeyComparator (adders_list a) (entry_tk e) = Inr ih"
    "hint_for (adders_list a) (entry_tk e) ih"
    using holds_InsertHint [of "adders_list a" es e] assms by (auto simp: adders_ok_def)
  then show ?thesis using assms by (auto simp: adders_ok_def)
qed

lemma step_Link:
  assumes ok: "adders_ok a es ps" and i: "i < length ps"
  shows "\<exists>a'. run_step (Link i) a = Inr a' \<and>
    adders_ok a' (entry_insert (ps ! i) es) (take i ps @ drop (Suc i) ps)"
proof -
  let ?e = "ps ! i"
  have w: "map fst (waiting a) = map entry_tk ps" "\<forall>(tk, ih) \<in> set (waiting a). hint_for (adders_list a) tk ih"
    "holds (adders_list a) es" "distinct (map fst (es @ ps))" "\<forall>e \<in> set ps. entry_ok e"
    using ok by (auto simp: adders_ok_def)
  then have len: "length (waiting a) = length ps" by (metis length_map)
  have tki: "fst (waiting a ! i) = entry_tk ?e" using w(1) i len by (metis nth_map)
  obtain ih where wi: "waiting a ! i = (entry_tk ?e, ih)" using tki by (cases "waiting a ! i") simp
  have mem: "waiting a ! i \<in> set (waiting a)" using i len by simp
  have hint: "hint_for (adders_list a) (entry_tk ?e) ih" using w(2) mem wi by auto
  have e: "entry_ok ?e" using w(5) i by simp
  have ps: "ps = take i ps @ ?e # drop (Suc i) ps" using i by (simp add: id_take_nth_drop)
  have d: "distinct (map fst (es @ take i ps @ ?e # drop (Suc i) ps))" using w(4) ps by simp
  then have new: "fst ?e \<notin> fst ` set es" by auto
  obtain l' where l': "InsertWithHint KeyComparator ih (entry_tk ?e) (adders_list a) = Inr l'"
    "holds l' (entry_insert ?e es)"
    "\<forall>e' ih'. entry_ok e' \<longrightarrow> hint_for (adders_list a) (entry_tk e') ih' \<longrightarrow> hint_for l' (entry_tk e') ih'"
    using holds_InsertWithHint [OF w(3) e new hint] by blast
  have "hint_for l' tk ih'" if t: "(tk, ih') \<in> set (waiting a)" for tk ih'
  proof -
    have "tk \<in> set (map fst (waiting a))" using t by force
    then obtain e' where "e' \<in> set ps" "tk = entry_tk e'" unfolding w(1) by auto
    moreover have "hint_for (adders_list a) tk ih'" using w(2) t by blast
    ultimately show ?thesis using l'(3) w(5) by blast
  qed
  then have "\<forall>(tk, ih) \<in> set (take i (waiting a) @ drop (Suc i) (waiting a)). hint_for l' tk ih"
    by (auto dest: in_set_takeD in_set_dropD)
  moreover have "map fst (take i (waiting a) @ drop (Suc i) (waiting a)) = map entry_tk (take i ps @ drop (Suc i) ps)"
    unfolding map_append take_map [symmetric] drop_map [symmetric] w(1) by simp
  moreover have "distinct (map fst (entry_insert ?e es @ take i ps @ drop (Suc i) ps))"
  proof -
    have "mset (entry_insert ?e es) = mset (?e # es)"
      by (simp add: entry_insert_def) (metis mset_append takeWhile_dropWhile_id)
    then have "mset (map fst (entry_insert ?e es @ take i ps @ drop (Suc i) ps)) =
        mset (map fst (es @ take i ps @ ?e # drop (Suc i) ps))" by (simp add: add_ac)
    then show ?thesis using d by (metis mset_eq_imp_distinct_iff)
  qed
  moreover have "\<forall>e \<in> set (take i ps @ drop (Suc i) ps). entry_ok e"
    using w(5) by (auto dest: in_set_takeD in_set_dropD)
  ultimately show ?thesis using l'(1,2) i len wi by (auto simp: adders_ok_def)
qed

lemma run_steps_refine:
  assumes "adders_ok a es ps" and "concat (map searched sts) = map entry_tk cs" and "\<forall>e \<in> set cs. entry_ok e"
    and "distinct (map fst (es @ ps @ cs))"
  shows "\<exists>a' es' ps'. run_steps sts a = Inr a' \<and> adders_ok a' es' ps' \<and>
    fold spec_step sts (map entry_tk es, map entry_tk ps) = (map entry_tk es', map entry_tk ps')"
  using assms
proof (induction sts arbitrary: a es ps cs)
  case Nil
  then show ?case by auto
next
  case (Cons st sts)
  show ?case
  proof (cases st)
    case (SearchFor tk)
    then obtain e ds where cs: "cs = e # ds" "tk = entry_tk e" "concat (map searched sts) = map entry_tk ds"
      using Cons.prems(2) by auto
    have e: "entry_ok e" "fst e \<notin> fst ` set (es @ ps)" using Cons.prems(3,4) cs(1) by auto
    obtain a1 where a1: "run_step st a = Inr a1" "adders_ok a1 es (ps @ [e])"
      unfolding SearchFor cs(2) using step_SearchFor [OF Cons.prems(1) e] by blast
    have "distinct (map fst (es @ (ps @ [e]) @ ds))" using Cons.prems(4) cs(1) by simp
    from Cons.IH [OF a1(2) cs(3) _ this] Cons.prems(3) cs(1,2) a1(1) SearchFor show ?thesis
      by (simp del: run_step.simps)
  next
    case (Link i)
    show ?thesis
    proof (cases "i < length ps")
      case True
      obtain a1 where a1: "run_step st a = Inr a1"
        "adders_ok a1 (entry_insert (ps ! i) es) (take i ps @ drop (Suc i) ps)"
        using step_Link [OF Cons.prems(1) True] Link by blast
      have ok: "\<forall>b \<in> set (ps ! i # es). entry_ok b"
        using Cons.prems(1) True holds_ok by (auto simp: adders_ok_def)
      let ?es = "entry_insert (ps ! i) es" and ?ps = "take i ps @ drop (Suc i) ps"
      have "set (map fst (?es @ ?ps)) \<subseteq> set (map fst (es @ ps))"
        using True by (auto dest: in_set_takeD in_set_dropD)
      moreover have "distinct (map fst (?es @ ?ps))" using a1(2) by (simp add: adders_ok_def)
      moreover have "set (map fst (es @ ps)) \<inter> set (map fst cs) = {}" "distinct (map fst cs)"
        using Cons.prems(4) by auto
      ultimately have "distinct (map fst (?es @ ?ps) @ map fst cs)" unfolding distinct_append by blast
      then have "distinct (map fst (?es @ ?ps @ cs))" by simp
      moreover have "spec_step st (map entry_tk es, map entry_tk ps) =
          (map entry_tk (entry_insert (ps ! i) es), map entry_tk (take i ps @ drop (Suc i) ps))"
        using True Link map_entry_insert [OF ok] by (simp add: Let_def take_map drop_map)
      ultimately show ?thesis
        using Cons.IH [OF a1(2), of cs] Cons.prems(2,3) a1(1) Link
        by (simp del: run_step.simps spec_step.simps)
    next
      case False
      then have "run_step st a = Inr a" "spec_step st (map entry_tk es, map entry_tk ps) = (map entry_tk es, map entry_tk ps)"
        using Cons.prems(1) Link by (auto simp: adders_ok_def dest: arg_cong [where f = length])
      then show ?thesis using Cons.IH [OF Cons.prems(1), of cs] Cons.prems(2-4) Link
        by (simp del: run_step.simps spec_step.simps)
    qed
  qed
qed

section \<open>Properties\<close>

text \<open>C31: Writers that search without the lock and insert under it, in any order and with
  any number of them in between: every insertion succeeds under its stale hint, and the
  list holds exactly the keys inserted so far, sorted, as its iterator reads them.\<close>

theorem concurrent_adds:
  assumes "\<forall>tk \<in> set (concat (map searched sts)). \<exists>s t k v. mem_entry s t k v = Inr tk \<and>
      s \<le> kMaxSequenceNumber \<and> length k < 2 ^ 31 \<and> length v < 2 ^ 31"
    and "distinct (map tk_key (concat (map searched sts)))"
  shows "\<exists>a. run_steps sts \<lparr>adders_list = new_SkipList, waiting = []\<rparr> = Inr a \<and>
    table_keys (adders_list a) = Inr (fst (spec_steps sts)) \<and> map fst (waiting a) = snd (spec_steps sts) \<and>
    sorted_wrt tk_before (fst (spec_steps sts))"
proof -
  have "\<exists>e. tk = entry_tk e \<and> entry_ok e" if "tk \<in> set (concat (map searched sts))" for tk
  proof -
    obtain s t k v where m: "mem_entry s t k v = Inr tk" "s \<le> kMaxSequenceNumber" "length k < 2 ^ 31" "length v < 2 ^ 31"
      using assms(1) \<open>tk \<in> _\<close> by blast
    let ?k = "\<lparr>user_key = k, sequence = s, key_type = t\<rparr>"
    have "entry_ok (?k, v)" using m by (simp add: entry_ok_def key_ok_def valid_key_def)
    then show ?thesis using mem_entry_ok [of ?k v] m(1) by auto
  qed
  then obtain f where f: "\<And>tk. tk \<in> set (concat (map searched sts)) \<Longrightarrow> tk = entry_tk (f tk) \<and> entry_ok (f tk)"
    by metis
  define cs where "cs = map f (concat (map searched sts))"
  have cs: "concat (map searched sts) = map entry_tk cs"
    unfolding cs_def map_map by (rule map_idI [symmetric]) (use f in \<open>simp add: o_def\<close>)
  have ok: "\<forall>e \<in> set cs. entry_ok e" using f by (auto simp: cs_def)
  have "map tk_key (map entry_tk cs) = map fst cs" using ok by simp
  then have d: "distinct (map fst cs)" using assms(2) unfolding cs by metis
  have "adders_ok \<lparr>adders_list = new_SkipList, waiting = []\<rparr> [] []"
    by (simp add: adders_ok_def holds_new)
  from run_steps_refine [OF this cs ok] d obtain a es ps where
    r: "run_steps sts \<lparr>adders_list = new_SkipList, waiting = []\<rparr> = Inr a" "adders_ok a es ps"
    "fold spec_step sts ([], []) = (map entry_tk es, map entry_tk ps)" by auto
  have h: "holds (adders_list a) es" using r(2) by (simp add: adders_ok_def)
  then obtain xs where "tm.sl_sorted (adders_list a) xs" "sl_keys (adders_list a) xs = map entry_tk es"
    by (auto simp: holds_def holds_at_def)
  then have "sorted_wrt tk_before (map entry_tk es)" unfolding tm.sl_sorted_def by metis
  then show ?thesis
    using r holds_table_keys [OF h] by (simp add: spec_steps_def adders_ok_def)
qed

theorem concurrent_adds_witness:
  "let a = entry_tk (\<lparr>user_key = [7], sequence = 1, key_type = kTypeValue\<rparr>, [42]);
       b = entry_tk (\<lparr>user_key = [5], sequence = 2, key_type = kTypeDeletion\<rparr>, [])
   in \<exists>s. run_steps [SearchFor a, SearchFor b, Link 1, Link 0] \<lparr>adders_list = new_SkipList, waiting = []\<rparr> = Inr s \<and>
     table_keys (adders_list s) = Inr [b, a] \<and> waiting s = []"
proof -
  let ?ka = "\<lparr>user_key = [7], sequence = 1, key_type = kTypeValue\<rparr>"
  let ?kb = "\<lparr>user_key = [5], sequence = 2, key_type = kTypeDeletion\<rparr>"
  let ?a = "entry_tk (?ka, [42])" and ?b = "entry_tk (?kb, [])"
  have ok: "entry_ok (?ka, [42])" "entry_ok (?kb, [])"
    by (simp_all add: entry_ok_def key_ok_def valid_key_def kMaxSequenceNumber_def)
  have m: "mem_entry 1 kTypeValue [7] [42] = Inr ?a" "mem_entry 2 kTypeDeletion [5] [] = Inr ?b"
    using mem_entry_ok [OF ok(1)] mem_entry_ok [OF ok(2)] by simp_all
  have bef: "tk_before ?b ?a" "\<not> tk_before ?a ?b" using ok by (simp_all add: tk_before_def key_before_def)
  have spec: "spec_steps [SearchFor ?a, SearchFor ?b, Link 1, Link 0] = ([?b, ?a], [])"
    using bef by (simp add: spec_steps_def Let_def)
  have small: "(1 :: u64) \<le> kMaxSequenceNumber" "(2 :: u64) \<le> kMaxSequenceNumber"
    by (simp_all add: kMaxSequenceNumber_def)
  have h1: "\<forall>tk \<in> set (concat (map searched [SearchFor ?a, SearchFor ?b, Link 1, Link 0])).
      \<exists>s t k v. mem_entry s t k v = Inr tk \<and> s \<le> kMaxSequenceNumber \<and> length k < 2 ^ 31 \<and> length v < 2 ^ 31"
  proof -
    have "\<exists>s t k v. mem_entry s t k v = Inr ?a \<and> s \<le> kMaxSequenceNumber \<and> length k < 2 ^ 31 \<and> length v < 2 ^ 31"
      by (intro exI conjI, rule m(1)) (use small in simp_all)
    moreover have "\<exists>s t k v. mem_entry s t k v = Inr ?b \<and> s \<le> kMaxSequenceNumber \<and> length k < 2 ^ 31 \<and> length v < 2 ^ 31"
      by (intro exI conjI, rule m(2)) (use small in simp_all)
    ultimately show ?thesis by simp
  qed
  have h2: "distinct (map tk_key (concat (map searched [SearchFor ?a, SearchFor ?b, Link 1, Link 0])))"
    using ok by simp
  from concurrent_adds [OF h1 h2] obtain a where
    "run_steps [SearchFor ?a, SearchFor ?b, Link 1, Link 0] \<lparr>adders_list = new_SkipList, waiting = []\<rparr> = Inr a"
    "table_keys (adders_list a) = Inr [?b, ?a]" "map fst (waiting a) = []"
    unfolding spec fst_conv snd_conv by blast
  then show ?thesis unfolding Let_def by (intro exI [of _ a] conjI) simp_all
qed

text \<open>C32: Snapshot reads.  A batch that is built, numbered from \<open>sq\<close> and inserted into an
  empty table can be read at any point of it: a lookup at the number of its \<open>n\<close>-th
  operation sees exactly the effect of the first \<open>n\<close>, the value of the last put, a
  deletion, or nothing on that key.\<close>

theorem snapshot_reads:
  assumes "\<forall>op \<in> set ops. small_op op" and "length ops < 2 ^ 31" and "0 < unat sq"
    and "unat sq + length ops \<le> 2 ^ 56 - 1" and "n \<le> length ops" and "length ukey < 2 ^ 31"
  shows "\<exists>rep m memkey. wb_build ops WriteBatch_Clear = Inr rep \<and>
    InsertInto (WriteBatch_SetSequence rep sq) new_MemTable = Inr (OK, m) \<and>
    LookupKey ukey (sq + of_nat n - 1) = Inr memkey \<and>
    MemTable_Get memkey ukey m = Inr (map_option op_result (last_on (take n ops) ukey))"
proof -
  obtain rep where rep: "wb_build ops WriteBatch_Clear = Inr rep" "holds_batch ops rep"
    using wb_build_holds [OF holds_batch_Clear, of ops] assms(2) by auto
  let ?rep = "WriteBatch_SetSequence rep sq"
  have b: "holds_batch ops ?rep" "WriteBatch_Sequence ?rep = Inr sq"
    using holds_batch_SetSequence [OF rep(2)] by auto
  have "holds (table new_MemTable) []" by (simp add: new_MemTable_def holds_new)
  from insert_ops_holds [OF this assms(1) assms(4)] obtain m es where
    m: "insert_ops ops sq new_MemTable = Inr (sq + of_nat (length ops), m)" "holds (table m) es"
    "set es = ops_entries sq ops" by auto
  have i: "InsertInto ?rep new_MemTable = Inr (OK, m)"
    using b Iterate_batch [OF b(1) assms(1)] m(1) by (simp add: InsertInto_def)
  have so: "sorted_wrt entry_before es" using m(2) holds_at_sorted by (auto simp: holds_def)
  have s: "sq + of_nat n - 1 \<le> kMaxSequenceNumber"
    using unat_snapshot [of sq n] assms(3-5) by (simp add: word_le_nat_alt kMaxSequenceNumber_def)
  show ?thesis
    using MemTable_Get_holds [OF m(2) s assms(6)] find_snapshot [OF so m(3) assms(3-5)] rep(1) i by auto
qed

theorem snapshot_reads_witness:
  "\<exists>rep m memkey. wb_build [WbPut [1] [9], WbDelete [1], WbPut [2] [8]] WriteBatch_Clear = Inr rep \<and>
    InsertInto (WriteBatch_SetSequence rep 5) new_MemTable = Inr (OK, m) \<and>
    LookupKey [1] (5 + of_nat 2 - 1) = Inr memkey \<and> MemTable_Get memkey [1] m = Inr (Some (Inl NotFound))"
proof -
  let ?ops = "[WbPut [1] [9], WbDelete [1], WbPut [2] [8]]"
  have e: "map_option op_result (last_on (take 2 ?ops) [1]) = Some (Inl NotFound)"
    by (simp add: last_on_def)
  have "\<exists>rep m memkey. wb_build ?ops WriteBatch_Clear = Inr rep \<and>
    InsertInto (WriteBatch_SetSequence rep 5) new_MemTable = Inr (OK, m) \<and>
    LookupKey [1] (5 + of_nat 2 - 1) = Inr memkey \<and>
    MemTable_Get memkey [1] m = Inr (map_option op_result (last_on (take 2 ?ops) [1]))"
    by (rule snapshot_reads) simp_all
  then show ?thesis unfolding e .
qed

end
