(* ===== verification/DbIter.thy ===== *)
theory DbIter
  imports MemTable
begin

text \<open>
  The iterator of the store (\<^verbatim>\<open>src/ext/leveldb/db/db_iter.cc\<close>): it walks over the entries of
  an internal iterator and shows, for every user key, the newest entry that its snapshot
  sees, unless that is a deletion.

  The abstract class \<^verbatim>\<open>Iterator\<close> is the record \<open>iter_ops\<close> of its methods over a cursor; the
  iterator of the memory table is an instance.  The pointer \<^verbatim>\<open>skip\<close> always points at
  \<^verbatim>\<open>saved_key_\<close>, and so is \<open>saved_key\<close> here.  The keys handed to \<^verbatim>\<open>RecordReadSample\<close> are
  collected in \<open>samples\<close>.  The byte counter is an unbounded integer: it stays between minus
  the size of one entry and \<open>2 ^ 21\<close>.  The loops over the entries carry fuel.
\<close>

section \<open>Iterators\<close>

record 'c iter_ops =
  it_Valid :: "'c \<Rightarrow> bool"
  it_SeekToFirst :: "'c res"
  it_SeekToLast :: "'c res"
  it_Seek :: "byte list \<Rightarrow> 'c res"
  it_Next :: "'c \<Rightarrow> 'c res"
  it_Prev :: "'c \<Rightarrow> 'c res"
  it_key :: "'c \<Rightarrow> byte list res"
  it_value :: "'c \<Rightarrow> byte list res"

definition mem_ops :: "memtable \<Rightarrow> nat option iter_ops" where
  "mem_ops m =
     \<lparr>it_Valid = (\<lambda>it. it \<noteq> None), it_SeekToFirst = mem_SeekToFirst m, it_SeekToLast = mem_SeekToLast m,
      it_Seek = mem_Seek m, it_Next = mem_Next m, it_Prev = mem_Prev m, it_key = mem_key m,
      it_value = mem_value m\<rparr>"

section \<open>Sampling\<close>

definition kReadBytesPeriod :: int where
  "kReadBytesPeriod = 1048576"

definition Random_Uniform :: "u32 \<Rightarrow> int \<Rightarrow> u32 \<times> u32" where
  "Random_Uniform seed n = (let r = Random_Next seed in (r mod of_int n, r))"

definition RandomPeriod :: "u32 \<Rightarrow> int \<times> u32" where
  "RandomPeriod seed = (let (n, seed1) = Random_Uniform seed (2 * kReadBytesPeriod) in (uint n, seed1))"

datatype direction = kForward | kReverse

record 'c dbiter =
  cursor :: 'c
  snapshot :: u64
  di_status :: status
  saved_key :: "byte list"
  saved_value :: "byte list"
  di_direction :: direction
  di_valid :: bool
  di_rnd :: u32
  bytes_counter :: int
  samples :: "byte list list"

definition new_DBIter :: "'c \<Rightarrow> u64 \<Rightarrow> u32 \<Rightarrow> 'c dbiter" where
  "new_DBIter it s seed =
     (let (counter, rnd1) = RandomPeriod (new_Random seed)
      in \<lparr>cursor = it, snapshot = s, di_status = OK, saved_key = [], saved_value = [],
          di_direction = kForward, di_valid = False, di_rnd = rnd1, bytes_counter = counter, samples = []\<rparr>)"

fun sample_loop :: "nat \<Rightarrow> byte list \<Rightarrow> 'c dbiter \<Rightarrow> 'c dbiter res" where
  "sample_loop 0 k d = Inl Diverges"
| "sample_loop (Suc fuel) k d =
     (if bytes_counter d < 0 then
        let (n, rnd1) = RandomPeriod (di_rnd d)
        in sample_loop fuel k
             (d\<lparr>bytes_counter := bytes_counter d + n, di_rnd := rnd1, samples := samples d @ [k]\<rparr>)
      else Inr d)"

definition sample_fuel :: "'c dbiter \<Rightarrow> nat" where
  "sample_fuel d = 2 * nat (- bytes_counter d) + 2"

definition ParseKey :: "'c iter_ops \<Rightarrow> 'c dbiter \<Rightarrow> (parsed_key option \<times> 'c dbiter) res" where
  "ParseKey ops d =
     bind_res (it_key ops (cursor d)) (\<lambda>k.
     bind_res (it_value ops (cursor d)) (\<lambda>v.
     let d = d\<lparr>bytes_counter := bytes_counter d - int (length k + length v)\<rparr> in
     bind_res (sample_loop (sample_fuel d) k d) (\<lambda>d.
     bind_res (ParseInternalKey k) (\<lambda>ikey.
       case ikey of
         None \<Rightarrow> Inr (None, d\<lparr>di_status := Corruption ''corrupted internal key in DBIter''\<rparr>)
       | Some p \<Rightarrow> Inr (Some p, d)))))"

section \<open>Moving forward\<close>

text \<open>The end of the loop: the next entry, if there is one.\<close>

definition advance :: "'c iter_ops \<Rightarrow> ('c dbiter \<Rightarrow> 'c dbiter res) \<Rightarrow> 'c dbiter \<Rightarrow> 'c dbiter res" where
  "advance ops again d =
     bind_res (it_Next ops (cursor d)) (\<lambda>c.
       if it_Valid ops c then again (d\<lparr>cursor := c\<rparr>)
       else Inr (d\<lparr>cursor := c, saved_key := [], di_valid := False\<rparr>))"

fun find_next_loop :: "'c iter_ops \<Rightarrow> nat \<Rightarrow> bool \<Rightarrow> 'c dbiter \<Rightarrow> 'c dbiter res" where
  "find_next_loop ops 0 skipping d = Inl Diverges"
| "find_next_loop ops (Suc fuel) skipping d =
     bind_res (ParseKey ops d) (\<lambda>(ikey, d).
       case ikey of
         None \<Rightarrow> advance ops (find_next_loop ops fuel skipping) d
       | Some p \<Rightarrow>
           if sequence p \<le> snapshot d then
             case key_type p of
               kTypeDeletion \<Rightarrow> advance ops (find_next_loop ops fuel True) (d\<lparr>saved_key := user_key p\<rparr>)
             | kTypeValue \<Rightarrow>
                 if skipping \<and> Slice_compare (user_key p) (saved_key d) \<le> 0 then
                   advance ops (find_next_loop ops fuel skipping) d
                 else Inr (d\<lparr>di_valid := True, saved_key := []\<rparr>)
           else advance ops (find_next_loop ops fuel skipping) d)"

definition FindNextUserEntry :: "'c iter_ops \<Rightarrow> nat \<Rightarrow> bool \<Rightarrow> 'c dbiter \<Rightarrow> 'c dbiter res" where
  "FindNextUserEntry ops fuel skipping d =
     (if it_Valid ops (cursor d) \<and> di_direction d = kForward then find_next_loop ops fuel skipping d
      else Inl AssertionFailed)"

definition DBIter_Next :: "'c iter_ops \<Rightarrow> nat \<Rightarrow> 'c dbiter \<Rightarrow> 'c dbiter res" where
  "DBIter_Next ops fuel d =
     (if \<not> di_valid d then Inl AssertionFailed
      else if di_direction d = kReverse then
        bind_res (if \<not> it_Valid ops (cursor d) then it_SeekToFirst ops else it_Next ops (cursor d)) (\<lambda>c.
        let d = d\<lparr>di_direction := kForward, cursor := c\<rparr> in
        if \<not> it_Valid ops c then Inr (d\<lparr>di_valid := False, saved_key := []\<rparr>)
        else FindNextUserEntry ops fuel True d)
      else
        bind_res (it_key ops (cursor d)) (\<lambda>k.
        bind_res (ExtractUserKey k) (\<lambda>u.
        FindNextUserEntry ops fuel True (d\<lparr>saved_key := u\<rparr>))))"

section \<open>Moving backward\<close>

fun find_prev_loop :: "'c iter_ops \<Rightarrow> nat \<Rightarrow> ValueType \<Rightarrow> 'c dbiter \<Rightarrow> (ValueType \<times> 'c dbiter) res" where
  "find_prev_loop ops 0 value_type d = Inl Diverges"
| "find_prev_loop ops (Suc fuel) value_type d =
     (if \<not> it_Valid ops (cursor d) then Inr (value_type, d)
      else
        bind_res (ParseKey ops d) (\<lambda>(ikey, d).
        let again = (\<lambda>t d. bind_res (it_Prev ops (cursor d)) (\<lambda>c. find_prev_loop ops fuel t (d\<lparr>cursor := c\<rparr>)))
        in case ikey of
             None \<Rightarrow> again value_type d
           | Some p \<Rightarrow>
               if sequence p \<le> snapshot d then
                 if value_type \<noteq> kTypeDeletion \<and> Slice_compare (user_key p) (saved_key d) < 0 then
                   Inr (value_type, d)
                 else if key_type p = kTypeDeletion then
                   again (key_type p) (d\<lparr>saved_key := [], saved_value := []\<rparr>)
                 else
                   bind_res (it_value ops (cursor d)) (\<lambda>raw_value.
                   bind_res (it_key ops (cursor d)) (\<lambda>k.
                   bind_res (ExtractUserKey k) (\<lambda>u.
                   again (key_type p) (d\<lparr>saved_key := u, saved_value := raw_value\<rparr>))))
               else again value_type d))"

definition FindPrevUserEntry :: "'c iter_ops \<Rightarrow> nat \<Rightarrow> 'c dbiter \<Rightarrow> 'c dbiter res" where
  "FindPrevUserEntry ops fuel d =
     (if di_direction d \<noteq> kReverse then Inl AssertionFailed
      else
        bind_res (find_prev_loop ops fuel kTypeDeletion d) (\<lambda>(value_type, d).
        if value_type = kTypeDeletion then
          Inr (d\<lparr>di_valid := False, saved_key := [], saved_value := [], di_direction := kForward\<rparr>)
        else Inr (d\<lparr>di_valid := True\<rparr>)))"

text \<open>The scan before the first step backward: \<open>None\<close> when it runs off the start.\<close>

fun leave_key_loop :: "'c iter_ops \<Rightarrow> nat \<Rightarrow> byte list \<Rightarrow> 'c \<Rightarrow> 'c res" where
  "leave_key_loop ops 0 u c = Inl Diverges"
| "leave_key_loop ops (Suc fuel) u c =
     bind_res (it_Prev ops c) (\<lambda>c.
       if \<not> it_Valid ops c then Inr c
       else
         bind_res (it_key ops c) (\<lambda>k.
         bind_res (ExtractUserKey k) (\<lambda>w.
         if Slice_compare w u < 0 then Inr c else leave_key_loop ops fuel u c)))"

definition DBIter_Prev :: "'c iter_ops \<Rightarrow> nat \<Rightarrow> 'c dbiter \<Rightarrow> 'c dbiter res" where
  "DBIter_Prev ops fuel d =
     (if \<not> di_valid d then Inl AssertionFailed
      else if di_direction d = kForward then
        if \<not> it_Valid ops (cursor d) then Inl AssertionFailed
        else
          bind_res (it_key ops (cursor d)) (\<lambda>k.
          bind_res (ExtractUserKey k) (\<lambda>u.
          bind_res (leave_key_loop ops fuel u (cursor d)) (\<lambda>c.
          if \<not> it_Valid ops c then
            Inr (d\<lparr>cursor := c, di_valid := False, saved_key := [], saved_value := []\<rparr>)
          else
            FindPrevUserEntry ops fuel (d\<lparr>cursor := c, saved_key := u, di_direction := kReverse\<rparr>))))
      else FindPrevUserEntry ops fuel d)"

section \<open>Positioning and reading\<close>

definition DBIter_Seek :: "'c iter_ops \<Rightarrow> nat \<Rightarrow> byte list \<Rightarrow> 'c dbiter \<Rightarrow> 'c dbiter res" where
  "DBIter_Seek ops fuel target d =
     bind_res (AppendInternalKey [] \<lparr>user_key = target, sequence = snapshot d, key_type = kValueTypeForSeek\<rparr>) (\<lambda>k.
     bind_res (it_Seek ops k) (\<lambda>c.
     let d = d\<lparr>di_direction := kForward, saved_value := [], saved_key := k, cursor := c\<rparr> in
     if it_Valid ops c then FindNextUserEntry ops fuel False d else Inr (d\<lparr>di_valid := False\<rparr>)))"

definition DBIter_SeekToFirst :: "'c iter_ops \<Rightarrow> nat \<Rightarrow> 'c dbiter \<Rightarrow> 'c dbiter res" where
  "DBIter_SeekToFirst ops fuel d =
     bind_res (it_SeekToFirst ops) (\<lambda>c.
     let d = d\<lparr>di_direction := kForward, saved_value := [], cursor := c\<rparr> in
     if it_Valid ops c then FindNextUserEntry ops fuel False d else Inr (d\<lparr>di_valid := False\<rparr>))"

definition DBIter_SeekToLast :: "'c iter_ops \<Rightarrow> nat \<Rightarrow> 'c dbiter \<Rightarrow> 'c dbiter res" where
  "DBIter_SeekToLast ops fuel d =
     bind_res (it_SeekToLast ops) (\<lambda>c.
     FindPrevUserEntry ops fuel (d\<lparr>di_direction := kReverse, saved_value := [], cursor := c\<rparr>))"

definition DBIter_key :: "'c iter_ops \<Rightarrow> 'c dbiter \<Rightarrow> byte list res" where
  "DBIter_key ops d =
     (if \<not> di_valid d then Inl AssertionFailed
      else if di_direction d = kForward then bind_res (it_key ops (cursor d)) ExtractUserKey
      else Inr (saved_key d))"

definition DBIter_value :: "'c iter_ops \<Rightarrow> 'c dbiter \<Rightarrow> byte list res" where
  "DBIter_value ops d =
     (if \<not> di_valid d then Inl AssertionFailed
      else if di_direction d = kForward then it_value ops (cursor d)
      else Inr (saved_value d))"


section \<open>The sampling ends\<close>

definition seed_ok :: "'c dbiter \<Rightarrow> bool" where
  "seed_ok d \<longleftrightarrow> 0 < unat (di_rnd d) \<and> unat (di_rnd d) < 2147483647"

lemma unat_mod_u32: "unat ((a :: u32) mod 2097152) = unat a mod 2097152"
  by (simp add: unat_mod)

lemma RandomPeriod_value:
  "RandomPeriod seed = (int (unat (Random_Next seed) mod 2097152), Random_Next seed)"
proof -
  have "uint (Random_Next seed mod 2097152) = int (unat (Random_Next seed) mod 2097152)"
    by (metis unat_mod_u32 uint_nat)
  then show ?thesis by (simp add: RandomPeriod_def Random_Uniform_def kReadBytesPeriod_def Let_def)
qed

text \<open>Two draws in a row are not both 0: the bits above the low 21 of the first come down
  into the low ones of the second.\<close>

lemma period_not_0_twice:
  assumes "0 < unat seed" and "unat seed < 2147483647" and "unat seed mod 2097152 = 0"
  shows "0 < unat (Random_Next seed) mod 2097152"
proof -
  define j where "j = unat seed div 2097152"
  define q r where "q = 16807 * j div 1024" and "r = 16807 * j mod 1024"
  have j: "unat seed = 2097152 * j" using assms(3) mult_div_mod_eq [of 2097152 "unat seed"] by (simp add: j_def)
  have jb: "0 < j" "j < 1024" using assms(1,2) j by auto
  have qr: "16807 * j = 1024 * q + r" by (simp add: q_def r_def)
  have r: "r < 1024" by (simp add: r_def)
  have q: "q < 16807" using qr jb(2) by simp
  have q1: "0 < q" using qr jb(1) r by (cases q) auto
  have "unat seed * 16807 = 2097152 * (16807 * j)" using j by simp
  also have "\<dots> = 2147483647 * q + (q + 2097152 * r)" unfolding qr by simp
  finally have "unat seed * 16807 mod 2147483647 = (q + 2097152 * r) mod 2147483647"
    by (metis mod_mult_self4)
  also have "\<dots> = q + 2097152 * r" using q r by (intro mod_less) simp
  finally have "unat (Random_Next seed) = q + 2097152 * r"
    using Random_Next_lehmer(1) [OF assms(1,2)] by simp
  then show ?thesis using q q1 by simp
qed

lemma sample_loop_ends:
  assumes "seed_ok d"
    and "2 * nat (- bytes_counter d) + 2 \<le> fuel \<or>
      2 * nat (- bytes_counter d) + 1 \<le> fuel \<and> 0 < unat (Random_Next (di_rnd d)) mod 2097152"
  shows "\<exists>r c ks. sample_loop fuel k d = Inr (d\<lparr>bytes_counter := c, di_rnd := r, samples := ks\<rparr>) \<and>
    0 \<le> c \<and> c < max (bytes_counter d + 1) 2097152 \<and> seed_ok (d\<lparr>di_rnd := r\<rparr>)"
  using assms
proof (induction fuel arbitrary: d)
  case 0
  then show ?case by simp
next
  case (Suc fuel)
  let ?r = "Random_Next (di_rnd d)"
  let ?n = "unat ?r mod 2097152"
  show ?case
  proof (cases "bytes_counter d < 0")
    case False
    then have "sample_loop (Suc fuel) k d =
        Inr (d\<lparr>bytes_counter := bytes_counter d, di_rnd := di_rnd d, samples := samples d\<rparr>)" by simp
    moreover have "seed_ok (d\<lparr>di_rnd := di_rnd d\<rparr>)" using Suc.prems(1) by (simp add: seed_ok_def)
    moreover have "0 \<le> bytes_counter d" "bytes_counter d < max (bytes_counter d + 1) 2097152" using False by auto
    ultimately show ?thesis by blast
  next
    case True
    let ?d = "d\<lparr>bytes_counter := bytes_counter d + int ?n, di_rnd := ?r, samples := samples d @ [k]\<rparr>"
    have ok: "seed_ok ?d" using Random_Next_lehmer(2,3) Suc.prems(1) by (simp add: seed_ok_def)
    have step: "sample_loop (Suc fuel) k d = sample_loop fuel k ?d"
      using True by (simp add: RandomPeriod_value)
    have "2 * nat (- bytes_counter ?d) + 2 \<le> fuel \<or>
      2 * nat (- bytes_counter ?d) + 1 \<le> fuel \<and> 0 < unat (Random_Next (di_rnd ?d)) mod 2097152"
    proof (cases "?n = 0")
      case n: True
      then have "2 * nat (- bytes_counter d) + 2 \<le> Suc fuel" using Suc.prems(2) by auto
      moreover have "0 < unat (Random_Next ?r) mod 2097152"
        using ok n by (intro period_not_0_twice) (auto simp: seed_ok_def)
      ultimately show ?thesis using n by simp
    next
      case False
      then have "nat (- bytes_counter ?d) + 1 \<le> nat (- bytes_counter d)" using True by simp
      then show ?thesis using Suc.prems(2) by linarith
    qed
    from Suc.IH [OF ok this] obtain r c ks where
      l: "sample_loop fuel k ?d = Inr (?d\<lparr>bytes_counter := c, di_rnd := r, samples := ks\<rparr>)"
      "0 \<le> c" "c < max (bytes_counter ?d + 1) 2097152" "seed_ok (?d\<lparr>di_rnd := r\<rparr>)" by blast
    have "int ?n < 2097152" by simp
    then have "c < max (bytes_counter d + 1) 2097152" using l(3) True by auto
    moreover have "seed_ok (d\<lparr>di_rnd := r\<rparr>)" using l(4) by (simp add: seed_ok_def)
    moreover have "sample_loop (Suc fuel) k d = Inr (d\<lparr>bytes_counter := c, di_rnd := r, samples := ks\<rparr>)"
      using step l(1) by simp
    ultimately show ?thesis using l(2) by blast
  qed
qed

section \<open>What a snapshot shows\<close>

definition view :: "entry list \<Rightarrow> u64 \<Rightarrow> byte list \<Rightarrow> byte list option" where
  "view es s u =
     (case find (sees u s) es of
        None \<Rightarrow> None
      | Some e \<Rightarrow> (case key_type (fst e) of kTypeValue \<Rightarrow> Some (snd e) | kTypeDeletion \<Rightarrow> None))"

abbreviation ukey :: "entry \<Rightarrow> byte list" where
  "ukey e \<equiv> user_key (fst e)"

abbreviation eseq :: "entry \<Rightarrow> u64" where
  "eseq e \<equiv> sequence (fst e)"

text \<open>The entry an iterator stands on: the one its snapshot sees of its user key, and a value.\<close>

definition shows_entry :: "entry list \<Rightarrow> u64 \<Rightarrow> entry \<Rightarrow> bool" where
  "shows_entry es s e \<longleftrightarrow> find (sees (ukey e) s) es = Some e \<and> key_type (fst e) = kTypeValue"

lemma view_Cons: "view (e # es) s u =
    (if sees u s e then (case key_type (fst e) of kTypeValue \<Rightarrow> Some (snd e) | kTypeDeletion \<Rightarrow> None) else view es s u)"
  by (simp add: view_def)

lemma view_Nil [simp]: "view [] s u = None"
  by (simp add: view_def)

lemma shows_view: "shows_entry es s e \<Longrightarrow> view es s (ukey e) = Some (snd e)"
  by (simp add: shows_entry_def view_def)

lemma view_seen:
  assumes "view es s u = Some v"
  shows "\<exists>e \<in> set es. sees u s e"
  using assms by (auto simp: view_def find_Some_iff split: option.splits)

lemma find_append_skip: "(\<And>x. x \<in> set xs \<Longrightarrow> \<not> P x) \<Longrightarrow> find P (xs @ ys) = find P ys"
  by (induction xs) auto

lemma view_drop:
  assumes "\<And>e. e \<in> set (take n es) \<Longrightarrow> \<not> sees u s e"
  shows "view es s u = view (drop n es) s u"
proof -
  have "find (sees u s) es = find (sees u s) (take n es @ drop n es)" by simp
  also have "\<dots> = find (sees u s) (drop n es)" using assms by (rule find_append_skip)
  finally show ?thesis by (simp add: view_def)
qed

lemma ukey_mono:
  assumes "sorted_wrt entry_before es" and "i \<le> j" and "j < length es"
  shows "ukey (es ! i) \<le> ukey (es ! j)"
proof (cases "i = j")
  case False
  then have "entry_before (es ! i) (es ! j)" using assms sorted_wrt_nth_less by (metis le_neq_implies_less)
  then show ?thesis by (auto simp: key_before_def)
qed simp

lemma Slice_compare_le: "Slice_compare a b \<le> 0 \<longleftrightarrow> a \<le> b" "Slice_compare a b < 0 \<longleftrightarrow> a < b"
  by (auto simp: Slice_compare_lex not_le)

lemma key_le_before: "ukey a < ukey b \<Longrightarrow> entry_before a b"
  by (simp add: key_before_def)

section \<open>Walking over sorted entries\<close>

text \<open>The least user key outside \<open>D\<close> that a snapshot shows, and the greatest one.\<close>

definition is_next :: "entry list \<Rightarrow> u64 \<Rightarrow> (byte list \<Rightarrow> bool) \<Rightarrow> byte list option \<Rightarrow> bool" where
  "is_next es s D k \<longleftrightarrow>
     (case k of
        None \<Rightarrow> \<forall>u. \<not> D u \<longrightarrow> view es s u = None
      | Some w \<Rightarrow> \<not> D w \<and> view es s w \<noteq> None \<and> (\<forall>u. u < w \<longrightarrow> \<not> D u \<longrightarrow> view es s u = None))"

definition is_prev :: "entry list \<Rightarrow> u64 \<Rightarrow> (byte list \<Rightarrow> bool) \<Rightarrow> byte list option \<Rightarrow> bool" where
  "is_prev es s U k \<longleftrightarrow>
     (case k of
        None \<Rightarrow> \<forall>u. \<not> U u \<longrightarrow> view es s u = None
      | Some w \<Rightarrow> \<not> U w \<and> view es s w \<noteq> None \<and> (\<forall>u. w < u \<longrightarrow> \<not> U u \<longrightarrow> view es s u = None))"

text \<open>The state of the forward loop at position \<open>i\<close>: what was passed is done (\<open>D\<close>) or hidden
  behind the key to skip.\<close>

definition fwd_inv :: "entry list \<Rightarrow> u64 \<Rightarrow> (byte list \<Rightarrow> bool) \<Rightarrow> nat \<Rightarrow> bool \<Rightarrow> byte list \<Rightarrow> bool" where
  "fwd_inv es s D i skipping skip \<longleftrightarrow>
     (\<forall>j < i. eseq (es ! j) \<le> s \<longrightarrow> \<not> D (ukey (es ! j)) \<longrightarrow> skipping \<and> ukey (es ! j) \<le> skip) \<and>
     (skipping \<longrightarrow> (\<forall>u. D u \<longrightarrow> u \<le> skip) \<and> (\<forall>u \<le> skip. D u \<or> view es s u = None) \<and>
        (\<forall>j < length es. i \<le> j \<longrightarrow> eseq (es ! j) \<le> s \<longrightarrow> skip \<le> ukey (es ! j))) \<and>
     (\<not> skipping \<longrightarrow> (\<forall>j < length es. i \<le> j \<longrightarrow> \<not> D (ukey (es ! j))))"

lemma fwd_passed:
  assumes so: "sorted_wrt entry_before es" and inv: "fwd_inv es s D i skipping skip"
    and i: "i \<le> length es" and u: "i < length es \<Longrightarrow> u < ukey (es ! i)" and D: "\<not> D u"
  shows "view es s u = None"
proof (rule ccontr)
  assume "view es s u \<noteq> None"
  then obtain v where "view es s u = Some v" by blast
  then obtain j where j: "j < length es" "sees u s (es ! j)" using view_seen by (metis in_set_conv_nth)
  have "j < i"
  proof (rule ccontr)
    assume "\<not> j < i"
    then have "ukey (es ! i) \<le> ukey (es ! j)" using ukey_mono [OF so] j(1) by simp
    then show False using u j \<open>\<not> j < i\<close> by (auto simp: sees_def)
  qed
  then have "skipping" "u \<le> skip" using inv j(2) D by (auto simp: fwd_inv_def sees_def)
  then show False using inv D \<open>view es s u \<noteq> None\<close> by (auto simp: fwd_inv_def)
qed

lemma fwd_found:
  assumes so: "sorted_wrt entry_before es" and inv: "fwd_inv es s D i skipping skip" and i: "i < length es"
    and s: "eseq (es ! i) \<le> s" and val: "key_type (fst (es ! i)) = kTypeValue"
    and new: "\<not> (skipping \<and> ukey (es ! i) \<le> skip)"
  shows "shows_entry es s (es ! i)" and "is_next es s D (Some (ukey (es ! i)))"
proof -
  have D: "\<not> D (ukey (es ! i))" using inv i new by (auto simp: fwd_inv_def)
  have "\<not> sees (ukey (es ! i)) s (es ! j)" if "j < i" for j
    using inv that new D by (auto simp: fwd_inv_def sees_def)
  then have "find (sees (ukey (es ! i)) s) es = Some (es ! i)"
    unfolding find_Some_iff using i s by (auto simp: sees_def)
  then show sh: "shows_entry es s (es ! i)" using val by (simp add: shows_entry_def)
  show "is_next es s D (Some (ukey (es ! i)))"
    using shows_view [OF sh] D fwd_passed [OF so inv] i by (auto simp: is_next_def)
qed

lemma fwd_hidden:
  assumes "fwd_inv es s D i skipping skip"
    and "eseq (es ! i) \<le> s \<Longrightarrow> skipping \<and> ukey (es ! i) \<le> skip"
  shows "fwd_inv es s D (Suc i) skipping skip"
  using assms by (auto simp: fwd_inv_def less_Suc_eq)

lemma fwd_deleted:
  assumes so: "sorted_wrt entry_before es" and inv: "fwd_inv es s D i skipping skip" and i: "i < length es"
    and s: "eseq (es ! i) \<le> s" and del: "key_type (fst (es ! i)) = kTypeDeletion"
    and down: "\<And>u v. D u \<Longrightarrow> v \<le> u \<Longrightarrow> D v"
  shows "fwd_inv es s D (Suc i) True (ukey (es ! i))"
proof -
  let ?u = "ukey (es ! i)"
  have 1: "ukey (es ! j) \<le> ?u" if "j < Suc i" for j using ukey_mono [OF so] that i by simp
  have 2: "u \<le> ?u" if "D u" for u
  proof (cases skipping)
    case True
    then have "u \<le> skip" "skip \<le> ?u" using inv that i s by (auto simp: fwd_inv_def)
    then show ?thesis by simp
  next
    case False
    then have "\<not> D ?u" using inv i by (auto simp: fwd_inv_def)
    then show ?thesis using down [OF that] by (meson linear)
  qed
  have 3: "D u \<or> view es s u = None" if "u \<le> ?u" for u
  proof (cases "u < ?u \<or> D u")
    case True
    then show ?thesis using fwd_passed [OF so inv, of u] i by (cases "D u") auto
  next
    case False
    then have u: "u = ?u" "\<not> D ?u" using that by auto
    show ?thesis
    proof (cases "skipping \<and> ?u \<le> skip")
      case True
      then show ?thesis using inv u by (auto simp: fwd_inv_def)
    next
      case False
      then have "\<not> sees ?u s (es ! j)" if "j < i" for j
        using inv that u by (auto simp: fwd_inv_def sees_def)
      then have "find (sees ?u s) es = Some (es ! i)"
        unfolding find_Some_iff using i s by (auto simp: sees_def)
      then show ?thesis using u del by (simp add: view_def)
    qed
  qed
  have 4: "?u \<le> ukey (es ! j)" if "Suc i \<le> j" "j < length es" for j using ukey_mono [OF so] that by simp
  show ?thesis unfolding fwd_inv_def using 1 2 3 4 by blast
qed

text \<open>The state of the backward loop when \<open>n\<close> entries are left: what the entries behind them
  show below \<open>U\<close>.\<close>

definition bwd_inv ::
    "entry list \<Rightarrow> u64 \<Rightarrow> (byte list \<Rightarrow> bool) \<Rightarrow> nat \<Rightarrow> ValueType \<Rightarrow> byte list \<Rightarrow> byte list \<Rightarrow> bool" where
  "bwd_inv es s U n t sk sv \<longleftrightarrow>
     (\<forall>j < n. \<not> U (ukey (es ! j))) \<and>
     (t = kTypeDeletion \<longrightarrow> (\<forall>u. \<not> U u \<longrightarrow> view (drop n es) s u = None)) \<and>
     (t = kTypeValue \<longrightarrow> \<not> U sk \<and> view (drop n es) s sk = Some sv \<and>
        (\<forall>u. sk < u \<longrightarrow> \<not> U u \<longrightarrow> view (drop n es) s u = None) \<and>
        (\<forall>e \<in> set (drop n es). eseq e \<le> s \<longrightarrow> \<not> U (ukey e) \<longrightarrow> sk \<le> ukey e))"

lemma drop_view_ge:
  assumes so: "sorted_wrt entry_before es" and "n < length es" and "view (drop (Suc n) es) s u = Some v"
  shows "ukey (es ! n) \<le> u"
proof -
  obtain e where e: "e \<in> set (drop (Suc n) es)" "sees u s e" using view_seen [OF assms(3)] by blast
  then obtain j where "j < length es" "Suc n \<le> j" "e = es ! j"
    by (auto simp: in_set_conv_nth) (metis add_Suc le_add1 less_diff_conv add.commute)
  then show ?thesis using ukey_mono [OF so, of n j] e(2) by (auto simp: sees_def)
qed

lemma bwd_hidden:
  assumes "bwd_inv es s U (Suc n) t sk sv" and "n < length es" and "\<not> eseq (es ! n) \<le> s"
  shows "bwd_inv es s U n t sk sv"
proof -
  have d: "drop n es = es ! n # drop (Suc n) es" using assms(2) by (simp add: Cons_nth_drop_Suc)
  show ?thesis using assms unfolding bwd_inv_def d view_Cons by (auto simp: sees_def)
qed

lemma bwd_same_key:
  assumes "sorted_wrt entry_before es" and "bwd_inv es s U (Suc n) kTypeValue sk sv" and "n < length es"
    and "\<not> ukey (es ! n) < sk"
  shows "ukey (es ! n) = sk"
  using drop_view_ge [OF assms(1,3), of s sk sv] assms(2,4) by (auto simp: bwd_inv_def)

lemma bwd_others:
  assumes so: "sorted_wrt entry_before es" and inv: "bwd_inv es s U (Suc n) t sk sv" and n: "n < length es"
    and c: "t = kTypeDeletion \<or> \<not> ukey (es ! n) < sk" and u: "u \<noteq> ukey (es ! n)" "\<not> U u"
  shows "view (drop (Suc n) es) s u = None"
proof (cases t)
  case kTypeDeletion
  then show ?thesis using inv u by (auto simp: bwd_inv_def)
next
  case kTypeValue
  then have sk: "ukey (es ! n) = sk" using bwd_same_key [OF so] inv n c by auto
  show ?thesis
  proof (rule ccontr)
    assume "view (drop (Suc n) es) s u \<noteq> None"
    then obtain v where v: "view (drop (Suc n) es) s u = Some v" by blast
    then have "sk < u" using drop_view_ge [OF so n v] u sk by simp
    then show False using inv v u(2) kTypeValue by (auto simp: bwd_inv_def)
  qed
qed

lemma bwd_step:
  assumes so: "sorted_wrt entry_before es" and inv: "bwd_inv es s U (Suc n) t sk sv" and n: "n < length es"
    and s: "eseq (es ! n) \<le> s" and c: "t = kTypeDeletion \<or> \<not> ukey (es ! n) < sk"
  shows "key_type (fst (es ! n)) = kTypeDeletion \<Longrightarrow> bwd_inv es s U n kTypeDeletion x y"
    and "key_type (fst (es ! n)) = kTypeValue \<Longrightarrow> bwd_inv es s U n kTypeValue (ukey (es ! n)) (snd (es ! n))"
proof -
  have d: "drop n es = es ! n # drop (Suc n) es" using n by (simp add: Cons_nth_drop_Suc)
  have sees_n: "sees u s (es ! n) \<longleftrightarrow> u = ukey (es ! n)" for u using s by (auto simp: sees_def)
  have U: "\<forall>j < n. \<not> U (ukey (es ! j))" "\<not> U (ukey (es ! n))" using inv by (auto simp: bwd_inv_def)
  note others = bwd_others [OF so inv n c]
  have ge: "ukey (es ! n) \<le> ukey e" if e: "e \<in> set (drop (Suc n) es)" for e
  proof -
    obtain j where "j < length es - Suc n" "e = es ! (Suc n + j)" using e by (auto simp: in_set_conv_nth)
    then show ?thesis using ukey_mono [OF so, of n "Suc n + j"] by simp
  qed
  show "bwd_inv es s U n kTypeDeletion x y" if "key_type (fst (es ! n)) = kTypeDeletion"
    using that U others unfolding bwd_inv_def d view_Cons sees_n by auto
  show "bwd_inv es s U n kTypeValue (ukey (es ! n)) (snd (es ! n))" if "key_type (fst (es ! n)) = kTypeValue"
    using that U others ge unfolding bwd_inv_def d view_Cons sees_n by auto
qed

text \<open>Where an iterator that moves backward leaves the internal one: before everything that
  its snapshot sees of its key and of those behind.\<close>

definition rev_pos :: "entry list \<Rightarrow> u64 \<Rightarrow> byte list \<Rightarrow> nat option \<Rightarrow> bool" where
  "rev_pos es s u p \<longleftrightarrow>
     (case p of
        None \<Rightarrow> \<forall>e \<in> set es. eseq e \<le> s \<longrightarrow> u \<le> ukey e
      | Some i \<Rightarrow> ukey (es ! i) < u \<and> (\<forall>e \<in> set es. entry_before (es ! i) e \<longrightarrow> eseq e \<le> s \<longrightarrow> u \<le> ukey e))"

section \<open>The iterator over any internal iterator\<close>

text \<open>What the iterator relies on: a source \<open>t\<close> that holds sorted entries, and cursors into it
  that are at a position (\<open>None\<close> beyond the ends).  A source may grow; a cursor then stays
  at its entry.\<close>

definition seek_pos :: "entry list \<Rightarrow> parsed_key \<Rightarrow> nat option" where
  "seek_pos es k =
     (let n = length (takeWhile (\<lambda>e. key_before (fst e) k) es) in if n < length es then Some n else None)"

lemma seek_pos_split:
  assumes so: "sorted_wrt entry_before es" and n: "n = length (takeWhile (\<lambda>e. key_before (fst e) k) es)"
  shows "j < n \<Longrightarrow> key_before (fst (es ! j)) k" and "n \<le> j \<Longrightarrow> j < length es \<Longrightarrow> \<not> key_before (fst (es ! j)) k"
proof -
  let ?P = "\<lambda>e. key_before (fst e) k"
  show "?P (es ! j)" if j: "j < n"
  proof -
    have "takeWhile ?P es ! j \<in> set (takeWhile ?P es)" using j n by simp
    then show ?thesis using takeWhile_nth [of j ?P es] j n set_takeWhileD [of _ ?P es] by auto
  qed
  show "\<not> ?P (es ! j)" if j: "n \<le> j" "j < length es"
  proof
    assume b: "?P (es ! j)"
    have "n < length es" using j by simp
    then have "\<not> ?P (es ! n)" using nth_length_takeWhile [of ?P es] n by simp
    moreover have "n = j \<or> entry_before (es ! n) (es ! j)"
      using sorted_wrt_nth_less [OF so, of n j] j by (cases "n = j") auto
    ultimately show False using b key_before_trans by blast
  qed
qed

locale entry_iterator =
  fixes ops :: "'t \<Rightarrow> 'c iter_ops"
    and rep :: "'t \<Rightarrow> entry list \<Rightarrow> bool"
    and at :: "'t \<Rightarrow> entry list \<Rightarrow> 'c \<Rightarrow> nat option \<Rightarrow> bool"
    and grows :: "'t \<Rightarrow> 't \<Rightarrow> bool"
  assumes rep_sorted: "rep t es \<Longrightarrow> sorted_wrt entry_before es"
    and rep_ok: "rep t es \<Longrightarrow> e \<in> set es \<Longrightarrow> entry_ok e"
    and at_bound: "rep t es \<Longrightarrow> at t es c (Some i) \<Longrightarrow> i < length es"
    and at_valid: "rep t es \<Longrightarrow> at t es c p \<Longrightarrow> it_Valid (ops t) c \<longleftrightarrow> p \<noteq> None"
    and at_key: "rep t es \<Longrightarrow> at t es c (Some i) \<Longrightarrow> it_key (ops t) c = Inr (encode_key (fst (es ! i)))"
    and at_value: "rep t es \<Longrightarrow> at t es c (Some i) \<Longrightarrow> it_value (ops t) c = Inr (snd (es ! i))"
    and at_Next: "rep t es \<Longrightarrow> at t es c (Some i) \<Longrightarrow>
      \<exists>c'. it_Next (ops t) c = Inr c' \<and> at t es c' (if Suc i < length es then Some (Suc i) else None)"
    and at_Prev: "rep t es \<Longrightarrow> at t es c (Some i) \<Longrightarrow>
      \<exists>c'. it_Prev (ops t) c = Inr c' \<and> at t es c' (if i = 0 then None else Some (i - 1))"
    and at_Seek: "rep t es \<Longrightarrow> key_ok k \<Longrightarrow>
      \<exists>c'. it_Seek (ops t) (encode_key k) = Inr c' \<and> at t es c' (seek_pos es k)"
    and at_First: "rep t es \<Longrightarrow> \<exists>c'. it_SeekToFirst (ops t) = Inr c' \<and> at t es c' (if es = [] then None else Some 0)"
    and at_Last: "rep t es \<Longrightarrow>
      \<exists>c'. it_SeekToLast (ops t) = Inr c' \<and> at t es c' (if es = [] then None else Some (length es - 1))"
    and at_grows: "rep t es \<Longrightarrow> rep t' es' \<Longrightarrow> grows t t' \<Longrightarrow> at t es c (Some i) \<Longrightarrow>
      \<exists>j. at t' es' c (Some j) \<and> es' ! j = es ! i"
    and at_grows_None: "rep t es \<Longrightarrow> rep t' es' \<Longrightarrow> grows t t' \<Longrightarrow> at t es c None \<Longrightarrow> at t' es' c None"
begin

definition same_place :: "'c dbiter \<Rightarrow> 'c dbiter \<Rightarrow> bool" where
  "same_place d d' \<longleftrightarrow> cursor d' = cursor d \<and> snapshot d' = snapshot d \<and> saved_key d' = saved_key d \<and>
     saved_value d' = saved_value d \<and> di_direction d' = di_direction d \<and> di_valid d' = di_valid d"

lemma ParseKey_at:
  assumes "rep t es" and "at t es (cursor d) (Some i)" and "seed_ok d"
  shows "\<exists>d'. ParseKey (ops t) d = Inr (Some (fst (es ! i)), d') \<and> same_place d d' \<and> seed_ok d'"
proof -
  let ?k = "encode_key (fst (es ! i))"
  let ?d = "d\<lparr>bytes_counter := bytes_counter d - int (length ?k + length (snd (es ! i)))\<rparr>"
  have "seed_ok ?d" using assms(3) by (simp add: seed_ok_def)
  from sample_loop_ends [OF this, of "sample_fuel ?d" ?k] obtain r c ks where
    l: "sample_loop (sample_fuel ?d) ?k ?d = Inr (?d\<lparr>bytes_counter := c, di_rnd := r, samples := ks\<rparr>)"
    "seed_ok (?d\<lparr>di_rnd := r\<rparr>)"
    unfolding sample_fuel_def by auto
  have "i < length es" using at_bound assms(1,2) by blast
  then have "valid_key (fst (es ! i))" using rep_ok [OF assms(1), of "es ! i"] by (simp add: entry_ok_def key_ok_def)
  then have "ParseInternalKey ?k = Inr (Some (fst (es ! i)))" by (rule ParseInternalKey_encode)
  then have "ParseKey (ops t) d = Inr (Some (fst (es ! i)), ?d\<lparr>bytes_counter := c, di_rnd := r, samples := ks\<rparr>)"
    using l(1) at_key [OF assms(1,2)] at_value [OF assms(1,2)] by (simp add: ParseKey_def Let_def)
  then show ?thesis using l(2) by (auto simp: same_place_def seed_ok_def)
qed

text \<open>The user key an iterator stands on.\<close>

definition denotes :: "'t \<Rightarrow> entry list \<Rightarrow> 'c dbiter \<Rightarrow> byte list option \<Rightarrow> bool" where
  "denotes t es d k \<longleftrightarrow> seed_ok d \<and>
     (case k of
        None \<Rightarrow> \<not> di_valid d
      | Some u \<Rightarrow> di_valid d \<and>
          (case di_direction d of
             kForward \<Rightarrow> \<exists>i. at t es (cursor d) (Some i) \<and> shows_entry es (snapshot d) (es ! i) \<and> ukey (es ! i) = u
           | kReverse \<Rightarrow> saved_key d = u \<and> view es (snapshot d) u = Some (saved_value d) \<and>
               (\<exists>p. at t es (cursor d) p \<and> rev_pos es (snapshot d) u p)))"

lemma advance_at:
  assumes "rep t es" and "at t es (cursor d) (Some i)"
  shows "\<exists>c. at t es c (if Suc i < length es then Some (Suc i) else None) \<and>
    advance (ops t) again d =
      (if Suc i < length es then again (d\<lparr>cursor := c\<rparr>)
       else Inr (d\<lparr>cursor := c, saved_key := [], di_valid := False\<rparr>))"
  using at_Next [OF assms] at_valid [OF assms(1)] by (auto simp: advance_def)

lemma find_next_loop_correct:
  assumes "rep t es" and "at t es (cursor d) (Some i)" and "seed_ok d"
    and "fwd_inv es (snapshot d) D i skipping (saved_key d)" and "\<And>u v. D u \<Longrightarrow> v \<le> u \<Longrightarrow> D v"
    and "di_direction d = kForward" and "length es \<le> i + fuel"
  shows "\<exists>d' k. find_next_loop (ops t) fuel skipping d = Inr d' \<and> denotes t es d' k \<and>
    is_next es (snapshot d) D k \<and> snapshot d' = snapshot d"
  using assms(2-)
proof (induction fuel arbitrary: d i skipping)
  case 0
  then show ?case using at_bound [OF assms(1)] by fastforce
next
  case (Suc fuel)
  let ?s = "snapshot d"
  note so = rep_sorted [OF assms(1)]
  have i: "i < length es" using at_bound [OF assms(1)] Suc.prems(1) by blast
  obtain d1 where d1: "ParseKey (ops t) d = Inr (Some (fst (es ! i)), d1)" "same_place d d1" "seed_ok d1"
    using ParseKey_at [OF assms(1) Suc.prems(1,2)] by blast
  have sp: "cursor d1 = cursor d" "snapshot d1 = ?s" "saved_key d1 = saved_key d" "di_direction d1 = kForward"
    using d1(2) Suc.prems(5) by (auto simp: same_place_def)
  have go: "\<exists>d' k. advance (ops t) (find_next_loop (ops t) fuel sk) d2 = Inr d' \<and> denotes t es d' k \<and>
      is_next es ?s D k \<and> snapshot d' = ?s"
    if inv: "fwd_inv es ?s D (Suc i) sk (saved_key d2)" and d2: "cursor d2 = cursor d" "snapshot d2 = ?s"
      "di_direction d2 = kForward" "seed_ok d2" for sk d2
  proof -
    obtain c where c: "at t es c (if Suc i < length es then Some (Suc i) else None)"
      "advance (ops t) (find_next_loop (ops t) fuel sk) d2 =
        (if Suc i < length es then find_next_loop (ops t) fuel sk (d2\<lparr>cursor := c\<rparr>)
         else Inr (d2\<lparr>cursor := c, saved_key := [], di_valid := False\<rparr>))"
      using advance_at [OF assms(1), of d2 i "find_next_loop (ops t) fuel sk"] Suc.prems(1) d2(1) by auto
    show ?thesis
    proof (cases "Suc i < length es")
      case True
      have "seed_ok (d2\<lparr>cursor := c\<rparr>)" using d2(4) by (simp add: seed_ok_def)
      with Suc.IH [of "d2\<lparr>cursor := c\<rparr>" "Suc i" sk] True c inv d2 Suc.prems(4,6) show ?thesis by simp
    next
      case False
      have "is_next es ?s D None"
        using fwd_passed [OF so inv] False i by (auto simp: is_next_def)
      moreover have "denotes t es (d2\<lparr>cursor := c, saved_key := [], di_valid := False\<rparr>) None"
        using d2(4) by (simp add: denotes_def seed_ok_def)
      ultimately show ?thesis using c(2) False d2(2)
        by (intro exI [of _ "d2\<lparr>cursor := c, saved_key := [], di_valid := False\<rparr>"] exI [of _ None] conjI) auto
    qed
  qed
  show ?case
  proof (cases "eseq (es ! i) \<le> ?s")
    case False
    have "fwd_inv es ?s D (Suc i) skipping (saved_key d1)"
      using fwd_hidden [OF Suc.prems(3)] False sp(3) by simp
    from go [OF this sp(1,2,4) d1(3)] show ?thesis using d1(1) False sp(2) by simp
  next
    case s: True
    show ?thesis
    proof (cases "key_type (fst (es ! i))")
      case kTypeDeletion
      let ?d = "d1\<lparr>saved_key := ukey (es ! i)\<rparr>"
      have "fwd_inv es ?s D (Suc i) True (saved_key ?d)"
        using fwd_deleted [OF so Suc.prems(3) i s kTypeDeletion Suc.prems(4)] by simp
      moreover have "seed_ok ?d" using d1(3) by (simp add: seed_ok_def)
      ultimately show ?thesis using go [of True ?d] d1(1) s sp kTypeDeletion by simp
    next
      case kTypeValue
      show ?thesis
      proof (cases "skipping \<and> ukey (es ! i) \<le> saved_key d")
        case True
        then have "fwd_inv es ?s D (Suc i) skipping (saved_key d1)"
          using fwd_hidden [OF Suc.prems(3)] sp(3) by simp
        from go [OF this sp(1,2,4) d1(3)] show ?thesis
          using d1(1) s sp True kTypeValue by (simp add: Slice_compare_le)
      next
        case False
        let ?d = "d1\<lparr>di_valid := True, saved_key := []\<rparr>"
        note f = fwd_found [OF so Suc.prems(3) i s kTypeValue False]
        have "find_next_loop (ops t) (Suc fuel) skipping d = Inr ?d"
          using d1(1) s sp False kTypeValue by (auto simp: Slice_compare_le)
        moreover have "denotes t es ?d (Some (ukey (es ! i)))"
          using f(1) sp d1(3) Suc.prems(1) by (auto simp: denotes_def seed_ok_def)
        ultimately show ?thesis using f(2) sp(2)
          by (intro exI [of _ ?d] exI [of _ "Some (ukey (es ! i))"] conjI) auto
      qed
    qed
  qed
qed

lemma DBIter_read:
  assumes "rep t es" and "denotes t es d (Some u)"
  shows "DBIter_key (ops t) d = Inr u" and "\<exists>v. view es (snapshot d) u = Some v \<and> DBIter_value (ops t) d = Inr v"
proof -
  show "DBIter_key (ops t) d = Inr u"
    using assms at_key [OF assms(1)] by (auto simp: denotes_def DBIter_key_def split: direction.splits)
  show "\<exists>v. view es (snapshot d) u = Some v \<and> DBIter_value (ops t) d = Inr v"
    using assms at_value [OF assms(1)] shows_view
    by (auto simp: denotes_def DBIter_value_def split: direction.splits)
qed

lemma denotes_bound:
  assumes "rep t es" and "denotes t es d (Some u)"
  shows "view es (snapshot d) u \<noteq> None"
  using DBIter_read(2) [OF assms] by auto

lemma FindNextUserEntry_correct:
  assumes "rep t es" and "at t es (cursor d) (Some i)" and "seed_ok d"
    and "fwd_inv es (snapshot d) D i skipping (saved_key d)" and "\<And>u v. D u \<Longrightarrow> v \<le> u \<Longrightarrow> D v"
    and "di_direction d = kForward" and "length es \<le> fuel"
  shows "\<exists>d' k. FindNextUserEntry (ops t) fuel skipping d = Inr d' \<and> denotes t es d' k \<and>
    is_next es (snapshot d) D k \<and> snapshot d' = snapshot d"
  using find_next_loop_correct [OF assms(1-6)] at_valid [OF assms(1,2)] assms(6,7) by (simp add: FindNextUserEntry_def)

lemma DBIter_Next_correct:
  assumes "rep t es" and "denotes t es d (Some u)" and "length es \<le> fuel"
  shows "\<exists>d' k. DBIter_Next (ops t) fuel d = Inr d' \<and> denotes t es d' k \<and>
    is_next es (snapshot d) (\<lambda>w. w \<le> u) k \<and> snapshot d' = snapshot d"
proof (cases "di_direction d")
  case kForward
  then obtain i where i: "at t es (cursor d) (Some i)" "ukey (es ! i) = u" and v: "di_valid d" "seed_ok d"
    using assms(2) by (auto simp: denotes_def)
  have il: "i < length es" using at_bound [OF assms(1) i(1)] .
  let ?d = "d\<lparr>saved_key := u\<rparr>"
  have "fwd_inv es (snapshot ?d) (\<lambda>w. w \<le> u) i True (saved_key ?d)"
    using ukey_mono [OF rep_sorted [OF assms(1)]] il i(2) by (auto simp: fwd_inv_def)
  from FindNextUserEntry_correct [OF assms(1) _ _ this _ _ assms(3)] i(1) v kForward
  have "\<exists>d' k. FindNextUserEntry (ops t) fuel True ?d = Inr d' \<and> denotes t es d' k \<and>
    is_next es (snapshot d) (\<lambda>w. w \<le> u) k \<and> snapshot d' = snapshot d"
    by (auto simp: seed_ok_def)
  then show ?thesis using at_key [OF assms(1) i(1)] i(2) v kForward by (simp add: DBIter_Next_def)
next
  case kReverse
  then obtain p where p: "at t es (cursor d) p" "rev_pos es (snapshot d) u p" "saved_key d = u" and v: "di_valid d" "seed_ok d"
    using assms(2) by (auto simp: denotes_def)
  note so = rep_sorted [OF assms(1)]
  define n where "n = (case p of None \<Rightarrow> 0 | Some i \<Rightarrow> Suc i)"
  obtain c where c: "(if \<not> it_Valid (ops t) (cursor d) then it_SeekToFirst (ops t) else it_Next (ops t) (cursor d)) = Inr c"
    "at t es c (if n < length es then Some n else None)"
  proof (cases p)
    case None
    then show ?thesis
      using that at_valid [OF assms(1) p(1)] at_First [OF assms(1)] by (cases es) (auto simp: n_def)
  next
    case (Some i)
    then have "n = Suc i" by (simp add: n_def)
    with Some show ?thesis
      using that at_valid [OF assms(1) p(1)] at_Next [OF assms(1), of "cursor d" i] p(1) by auto
  qed
  have low: "ukey (es ! j) \<le> u" if "j < n" for j
  proof (cases p)
    case (Some i)
    then have "j \<le> i" "i < length es" using that p(1) at_bound [OF assms(1)] by (auto simp: n_def)
    then have "ukey (es ! j) \<le> ukey (es ! i)" using ukey_mono [OF so] by blast
    then show ?thesis using p(2) Some by (auto simp: rev_pos_def)
  qed (use that in \<open>simp add: n_def\<close>)
  have high: "u \<le> ukey (es ! j)" if "n \<le> j" "j < length es" "eseq (es ! j) \<le> snapshot d" for j
  proof (cases p)
    case (Some i)
    then have "entry_before (es ! i) (es ! j)" using so that by (auto simp: n_def intro: sorted_wrt_nth_less)
    then show ?thesis using p(2) Some that by (auto simp: rev_pos_def)
  qed (use p(2) that in \<open>auto simp: rev_pos_def\<close>)
  have inv: "fwd_inv es (snapshot d) (\<lambda>w. w \<le> u) n True u" using low high by (auto simp: fwd_inv_def)
  let ?d = "d\<lparr>di_direction := kForward, cursor := c\<rparr>"
  show ?thesis
  proof (cases "n < length es")
    case True
    have "\<exists>d' k. FindNextUserEntry (ops t) fuel True ?d = Inr d' \<and> denotes t es d' k \<and>
      is_next es (snapshot ?d) (\<lambda>w. w \<le> u) k \<and> snapshot d' = snapshot ?d"
      by (rule FindNextUserEntry_correct [OF assms(1) _ _ _ _ _ assms(3), where i = n])
        (use c(2) True v inv p(3) in \<open>auto simp: seed_ok_def\<close>)
    then show ?thesis using c True v kReverse at_valid [OF assms(1) c(2)] by (simp add: DBIter_Next_def Let_def)
  next
    case False
    let ?d' = "?d\<lparr>di_valid := False, saved_key := []\<rparr>"
    have "n \<le> length es" using p(1) at_bound [OF assms(1)] by (auto simp: n_def Suc_le_eq split: option.splits)
    then have "is_next es (snapshot d) (\<lambda>w. w \<le> u) None"
      using fwd_passed [OF so inv] False by (auto simp: is_next_def)
    moreover have "denotes t es ?d' None" using v by (simp add: denotes_def seed_ok_def)
    moreover have "DBIter_Next (ops t) fuel d = Inr ?d'"
      using c False v kReverse at_valid [OF assms(1) c(2)] by (simp add: DBIter_Next_def Let_def)
    ultimately show ?thesis by (intro exI [of _ ?d'] exI [of _ None] conjI) auto
  qed
qed

lemma DBIter_Seek_correct:
  assumes "rep t es" and "seed_ok d" and "length target < 2 ^ 31" and "snapshot d \<le> kMaxSequenceNumber"
    and "length es \<le> fuel"
  shows "\<exists>d' k. DBIter_Seek (ops t) fuel target d = Inr d' \<and> denotes t es d' k \<and>
    is_next es (snapshot d) (\<lambda>w. w < target) k \<and> snapshot d' = snapshot d"
proof -
  let ?k = "\<lparr>user_key = target, sequence = snapshot d, key_type = kTypeValue\<rparr>"
  define n where "n = length (takeWhile (\<lambda>e. key_before (fst e) ?k) es)"
  note so = rep_sorted [OF assms(1)]
  note split = seek_pos_split [OF so n_def]
  have k: "key_ok ?k" using assms(3,4) by (simp add: key_ok_def valid_key_def)
  obtain c where c: "it_Seek (ops t) (encode_key ?k) = Inr c" "at t es c (if n < length es then Some n else None)"
    using at_Seek [OF assms(1) k] unfolding seek_pos_def Let_def n_def [symmetric] by blast
  have app: "AppendInternalKey [] \<lparr>user_key = target, sequence = snapshot d, key_type = kValueTypeForSeek\<rparr> = Inr (encode_key ?k)"
    using AppendInternalKey_valid [of ?k "[]"] k by (simp add: key_ok_def kValueTypeForSeek_def)
  have inv: "fwd_inv es (snapshot d) (\<lambda>w. w < target) n False x" for x
  proof -
    have "ukey (es ! j) < target" if "j < n" "eseq (es ! j) \<le> snapshot d" for j
      using split(1) [OF that(1)] that(2) by (auto simp: key_before_def)
    moreover have "\<not> ukey (es ! j) < target" if "n \<le> j" "j < length es" for j
      using split(2) [OF that] by (auto simp: key_before_def)
    ultimately show ?thesis by (auto simp: fwd_inv_def)
  qed
  let ?d = "d\<lparr>di_direction := kForward, saved_value := [], saved_key := encode_key ?k, cursor := c\<rparr>"
  have v: "it_Valid (ops t) c \<longleftrightarrow> n < length es" using at_valid [OF assms(1) c(2)] by simp
  show ?thesis
  proof (cases "n < length es")
    case True
    have "\<exists>d' k. FindNextUserEntry (ops t) fuel False ?d = Inr d' \<and> denotes t es d' k \<and>
      is_next es (snapshot ?d) (\<lambda>w. w < target) k \<and> snapshot d' = snapshot ?d"
      by (rule FindNextUserEntry_correct [OF assms(1) _ _ _ _ _ assms(5), where i = n])
        (use c(2) True inv assms(2) in \<open>auto simp: seed_ok_def\<close>)
    then show ?thesis using app c(1) True v by (simp add: DBIter_Seek_def Let_def)
  next
    case False
    let ?d' = "?d\<lparr>di_valid := False\<rparr>"
    have "n \<le> length es" by (simp add: n_def length_takeWhile_le)
    then have "is_next es (snapshot d) (\<lambda>w. w < target) None"
      using fwd_passed [OF so inv] False by (auto simp: is_next_def)
    moreover have "denotes t es ?d' None" using assms(2) by (simp add: denotes_def seed_ok_def)
    moreover have "DBIter_Seek (ops t) fuel target d = Inr ?d'"
      using app c(1) False v by (simp add: DBIter_Seek_def Let_def)
    ultimately show ?thesis by (intro exI [of _ ?d'] exI [of _ None] conjI) auto
  qed
qed

lemma DBIter_SeekToFirst_correct:
  assumes "rep t es" and "seed_ok d" and "length es \<le> fuel"
  shows "\<exists>d' k. DBIter_SeekToFirst (ops t) fuel d = Inr d' \<and> denotes t es d' k \<and>
    is_next es (snapshot d) (\<lambda>w. False) k \<and> snapshot d' = snapshot d"
proof -
  note so = rep_sorted [OF assms(1)]
  obtain c where c: "it_SeekToFirst (ops t) = Inr c" "at t es c (if es = [] then None else Some 0)"
    using at_First [OF assms(1)] by blast
  let ?d = "d\<lparr>di_direction := kForward, saved_value := [], cursor := c\<rparr>"
  have v: "it_Valid (ops t) c \<longleftrightarrow> es \<noteq> []" using at_valid [OF assms(1) c(2)] by simp
  show ?thesis
  proof (cases "es = []")
    case False
    have "\<exists>d' k. FindNextUserEntry (ops t) fuel False ?d = Inr d' \<and> denotes t es d' k \<and>
      is_next es (snapshot ?d) (\<lambda>w. False) k \<and> snapshot d' = snapshot ?d"
      by (rule FindNextUserEntry_correct [OF assms(1) _ _ _ _ _ assms(3), where i = 0])
        (use c(2) False assms(2) in \<open>auto simp: seed_ok_def fwd_inv_def\<close>)
    then show ?thesis using c(1) False v by (simp add: DBIter_SeekToFirst_def Let_def)
  next
    case True
    let ?d' = "?d\<lparr>di_valid := False\<rparr>"
    have "is_next es (snapshot d) (\<lambda>w. False) None" using True by (simp add: is_next_def)
    moreover have "denotes t es ?d' None" using assms(2) by (simp add: denotes_def seed_ok_def)
    moreover have "DBIter_SeekToFirst (ops t) fuel d = Inr ?d'"
      using c(1) True v by (simp add: DBIter_SeekToFirst_def Let_def)
    ultimately show ?thesis by (intro exI [of _ ?d'] exI [of _ None] conjI) auto
  qed
qed

text \<open>The backward loop, with \<open>n\<close> entries left.\<close>

abbreviation pos_of :: "nat \<Rightarrow> nat option" where
  "pos_of n \<equiv> (if n = 0 then None else Some (n - 1))"

lemma bwd_result:
  assumes so: "sorted_wrt entry_before es" and inv: "bwd_inv es s U n kTypeValue sk sv"
    and up: "\<And>u v. U u \<Longrightarrow> u \<le> v \<Longrightarrow> U v" and n: "n \<le> length es" "n = 0 \<or> ukey (es ! (n - 1)) < sk"
  shows "is_prev es s U (Some sk)" and "view es s sk = Some sv" and "rev_pos es s sk (pos_of n)"
proof -
  have low: "ukey e < sk" if e: "e \<in> set (take n es)" for e
  proof -
    obtain j where j: "j < n" "e = es ! j" using e by (auto simp: in_set_conv_nth)
    then have "ukey (es ! j) \<le> ukey (es ! (n - 1))" using ukey_mono [OF so, of j "n - 1"] n(1) by simp
    then show ?thesis using j n(2) by auto
  qed
  have vd: "view es s u = view (drop n es) s u" if "sk \<le> u" for u
    using low that by (intro view_drop) (fastforce simp: sees_def)
  have v: "view (drop n es) s sk = Some sv" "\<not> U sk" using inv by (auto simp: bwd_inv_def)
  show "view es s sk = Some sv" using vd v(1) by simp
  then show "is_prev es s U (Some sk)" using inv vd v(2) by (auto simp: is_prev_def bwd_inv_def)
  have ge: "sk \<le> ukey e" if e: "e \<in> set (drop n es)" "eseq e \<le> s" for e
  proof (cases "U (ukey e)")
    case True
    then show ?thesis using up [OF True, of sk] v(2) by (meson linear)
  next
    case False
    then show ?thesis using inv e by (auto simp: bwd_inv_def)
  qed
  show "rev_pos es s sk (pos_of n)"
  proof (cases n)
    case 0
    then show ?thesis using ge by (simp add: rev_pos_def)
  next
    case (Suc m)
    have "e \<in> set (drop n es)" if e: "e \<in> set es" "entry_before (es ! m) e" for e
    proof -
      obtain j where j: "j < length es" "e = es ! j" using e(1) by (auto simp: in_set_conv_nth)
      have "m < j"
      proof (rule ccontr)
        assume "\<not> m < j"
        then have "j = m \<or> entry_before (es ! j) (es ! m)"
          using sorted_wrt_nth_less [OF so, of j m] n(1) Suc by (cases "j = m") auto
        then show False using e(2) j(2) key_before_trans key_before_irrefl by blast
      qed
      then have "drop n es ! (j - n) = e" "j - n < length (drop n es)" using j Suc by auto
      then show ?thesis by (metis nth_mem)
    qed
    then show ?thesis using ge n(2) Suc by (auto simp: rev_pos_def)
  qed
qed

lemma find_prev_loop_correct:
  assumes "rep t es" and "at t es (cursor d) (pos_of n)" and "seed_ok d" and "n \<le> length es"
    and "bwd_inv es (snapshot d) U n vt (saved_key d) (saved_value d)" and "n < fuel"
  shows "\<exists>vt' d' m. find_prev_loop (ops t) fuel vt d = Inr (vt', d') \<and> at t es (cursor d') (pos_of m) \<and>
    m \<le> length es \<and> seed_ok d' \<and> snapshot d' = snapshot d \<and> di_direction d' = di_direction d \<and>
    bwd_inv es (snapshot d) U m vt' (saved_key d') (saved_value d') \<and>
    (m = 0 \<or> vt' = kTypeValue \<and> ukey (es ! (m - 1)) < saved_key d')"
  using assms(2-)
proof (induction fuel arbitrary: d n vt)
  case 0
  then show ?case by simp
next
  case (Suc fuel)
  let ?s = "snapshot d"
  note so = rep_sorted [OF assms(1)]
  show ?case
  proof (cases n)
    case 0
    then have "\<not> it_Valid (ops t) (cursor d)" using at_valid [OF assms(1) Suc.prems(1)] by simp
    then have "find_prev_loop (ops t) (Suc fuel) vt d = Inr (vt, d)" by simp
    then show ?thesis using Suc.prems 0 by (intro exI [of _ vt] exI [of _ d] exI [of _ 0] conjI) simp_all
  next
    case n: (Suc i)
    have ati: "at t es (cursor d) (Some i)" and i: "i < length es" using Suc.prems(1,3) n by auto
    have v: "it_Valid (ops t) (cursor d)" using at_valid [OF assms(1) ati] by simp
    obtain d1 where d1: "ParseKey (ops t) d = Inr (Some (fst (es ! i)), d1)" "same_place d d1" "seed_ok d1"
      using ParseKey_at [OF assms(1) ati Suc.prems(2)] by blast
    have sp: "cursor d1 = cursor d" "snapshot d1 = ?s" "saved_key d1 = saved_key d"
      "saved_value d1 = saved_value d" "di_direction d1 = di_direction d"
      using d1(2) by (auto simp: same_place_def)
    let ?P = "\<lambda>r. \<exists>vt' d' m. r = Inr (vt', d') \<and> at t es (cursor d') (pos_of m) \<and>
      m \<le> length es \<and> seed_ok d' \<and> snapshot d' = ?s \<and> di_direction d' = di_direction d \<and>
      bwd_inv es ?s U m vt' (saved_key d') (saved_value d') \<and>
      (m = 0 \<or> vt' = kTypeValue \<and> ukey (es ! (m - 1)) < saved_key d')"
    have go: "?P (bind_res (it_Prev (ops t) (cursor d2)) (\<lambda>c. find_prev_loop (ops t) fuel ty (d2\<lparr>cursor := c\<rparr>)))"
      if inv: "bwd_inv es ?s U i ty (saved_key d2) (saved_value d2)" and d2: "cursor d2 = cursor d" "snapshot d2 = ?s"
        "di_direction d2 = di_direction d" "seed_ok d2" for ty d2
    proof -
      obtain c where c: "it_Prev (ops t) (cursor d2) = Inr c" "at t es c (pos_of i)"
        using at_Prev [OF assms(1) ati] d2(1) by auto
      have "seed_ok (d2\<lparr>cursor := c\<rparr>)" using d2(4) by (simp add: seed_ok_def)
      with Suc.IH [of "d2\<lparr>cursor := c\<rparr>" i ty] c inv d2 i Suc.prems(5) n show ?thesis by simp
    qed
    show ?thesis
    proof (cases "eseq (es ! i) \<le> ?s")
      case False
      have "bwd_inv es ?s U i vt (saved_key d1) (saved_value d1)"
        using bwd_hidden [OF Suc.prems(4) [unfolded n] i False] sp by simp
      from go [OF this sp(1,2,5) d1(3)] show ?thesis using d1(1) False sp(2) v by (simp add: Let_def)
    next
      case s: True
      show ?thesis
      proof (cases "vt \<noteq> kTypeDeletion \<and> ukey (es ! i) < saved_key d")
        case True
        then have vt: "vt = kTypeValue" by (cases vt) auto
        have "find_prev_loop (ops t) (Suc fuel) vt d = Inr (vt, d1)"
          using d1(1) s sp v True by (simp add: Let_def Slice_compare_le)
        then show ?thesis
          using True vt sp d1(3) Suc.prems(1,3,4) n
          by (intro exI [of _ vt] exI [of _ d1] exI [of _ n] conjI) simp_all
      next
        case False
        then have c: "vt = kTypeDeletion \<or> \<not> ukey (es ! i) < saved_key d" by auto
        note step = bwd_step [OF so Suc.prems(4) [unfolded n] i s c]
        show ?thesis
        proof (cases "key_type (fst (es ! i))")
          case kTypeDeletion
          let ?d = "d1\<lparr>saved_key := [], saved_value := []\<rparr>"
          have "find_prev_loop (ops t) (Suc fuel) vt d =
              bind_res (it_Prev (ops t) (cursor ?d)) (\<lambda>c. find_prev_loop (ops t) fuel kTypeDeletion (?d\<lparr>cursor := c\<rparr>))"
            using d1(1) s sp v False kTypeDeletion by (auto simp: Let_def Slice_compare_le)
          moreover have "seed_ok ?d" using d1(3) by (simp add: seed_ok_def)
          ultimately show ?thesis using go [of kTypeDeletion ?d] step(1) [OF kTypeDeletion] sp by simp
        next
          case kTypeValue
          let ?d = "d1\<lparr>saved_key := ukey (es ! i), saved_value := snd (es ! i)\<rparr>"
          have "find_prev_loop (ops t) (Suc fuel) vt d =
              bind_res (it_Prev (ops t) (cursor ?d)) (\<lambda>c. find_prev_loop (ops t) fuel kTypeValue (?d\<lparr>cursor := c\<rparr>))"
            using d1(1) s sp v False kTypeValue at_key [OF assms(1) ati] at_value [OF assms(1) ati]
            by (auto simp: Let_def Slice_compare_le)
          moreover have "seed_ok ?d" using d1(3) by (simp add: seed_ok_def)
          ultimately show ?thesis using go [of kTypeValue ?d] step(2) [OF kTypeValue] sp by simp
        qed
      qed
    qed
  qed
qed

lemma FindPrevUserEntry_correct:
  assumes "rep t es" and "at t es (cursor d) (pos_of n)" and "seed_ok d" and "n \<le> length es"
    and "\<And>u. \<not> U u \<Longrightarrow> view (drop n es) (snapshot d) u = None" and "\<And>j. j < n \<Longrightarrow> \<not> U (ukey (es ! j))"
    and up: "\<And>u v. U u \<Longrightarrow> u \<le> v \<Longrightarrow> U v" and "di_direction d = kReverse" and "n < fuel"
  shows "\<exists>d' k. FindPrevUserEntry (ops t) fuel d = Inr d' \<and> denotes t es d' k \<and>
    is_prev es (snapshot d) U k \<and> snapshot d' = snapshot d"
proof -
  have "bwd_inv es (snapshot d) U n kTypeDeletion (saved_key d) (saved_value d)"
    using assms(5,6) by (auto simp: bwd_inv_def)
  from find_prev_loop_correct [OF assms(1-4) this assms(9)] obtain vt d1 m where
    l: "find_prev_loop (ops t) fuel kTypeDeletion d = Inr (vt, d1)" "at t es (cursor d1) (pos_of m)"
    "m \<le> length es" "seed_ok d1" "snapshot d1 = snapshot d" "di_direction d1 = di_direction d"
    "bwd_inv es (snapshot d) U m vt (saved_key d1) (saved_value d1)"
    "m = 0 \<or> vt = kTypeValue \<and> ukey (es ! (m - 1)) < saved_key d1" by blast
  show ?thesis
  proof (cases vt)
    case kTypeDeletion
    let ?d = "d1\<lparr>di_valid := False, saved_key := [], saved_value := [], di_direction := kForward\<rparr>"
    have "is_prev es (snapshot d) U None" using l(7,8) kTypeDeletion by (auto simp: is_prev_def bwd_inv_def)
    moreover have "denotes t es ?d None" using l(4) by (simp add: denotes_def seed_ok_def)
    moreover have "FindPrevUserEntry (ops t) fuel d = Inr ?d"
      using l(1) assms(8) kTypeDeletion by (simp add: FindPrevUserEntry_def)
    ultimately show ?thesis using l(5) by (intro exI [of _ ?d] exI [of _ None] conjI) auto
  next
    case kTypeValue
    let ?d = "d1\<lparr>di_valid := True\<rparr>"
    have m: "m = 0 \<or> ukey (es ! (m - 1)) < saved_key d1" using l(8) by blast
    note r = bwd_result [OF rep_sorted [OF assms(1)] l(7) [unfolded kTypeValue] up l(3) m]
    have "denotes t es ?d (Some (saved_key d1))"
      using r(2,3) l(2,4,5,6) assms(8) by (auto simp: denotes_def seed_ok_def)
    moreover have "FindPrevUserEntry (ops t) fuel d = Inr ?d"
      using l(1) assms(8) kTypeValue by (simp add: FindPrevUserEntry_def)
    ultimately show ?thesis using r(1) l(5) by (intro exI [of _ ?d] exI [of _ "Some (saved_key d1)"] conjI) auto
  qed
qed

lemma leave_key_loop_correct:
  assumes "rep t es" and "at t es c (Some i)" and "u \<le> ukey (es ! i)" and "i < fuel"
  shows "\<exists>c' n. leave_key_loop (ops t) fuel u c = Inr c' \<and> at t es c' (pos_of n) \<and> n \<le> i \<and>
    u \<le> ukey (es ! n) \<and> (n = 0 \<or> ukey (es ! (n - 1)) < u)"
  using assms(2-)
proof (induction fuel arbitrary: c i)
  case 0
  then show ?case by simp
next
  case (Suc fuel)
  obtain c1 where c1: "it_Prev (ops t) c = Inr c1" "at t es c1 (pos_of i)"
    using at_Prev [OF assms(1) Suc.prems(1)] by blast
  have v: "it_Valid (ops t) c1 \<longleftrightarrow> i \<noteq> 0" using at_valid [OF assms(1) c1(2)] by simp
  show ?case
  proof (cases i)
    case 0
    then have "leave_key_loop (ops t) (Suc fuel) u c = Inr c1" using c1(1) v by simp
    then show ?thesis using c1(2) 0 Suc.prems(2) by (intro exI [of _ c1] exI [of _ 0] conjI) simp_all
  next
    case i: (Suc m)
    then have at1: "at t es c1 (Some m)" using c1(2) by simp
    show ?thesis
    proof (cases "ukey (es ! m) < u")
      case True
      then have "leave_key_loop (ops t) (Suc fuel) u c = Inr c1"
        using c1(1) v i at_key [OF assms(1) at1] by (simp add: Slice_compare_le)
      then show ?thesis using c1(2) i True Suc.prems(2) by (intro exI [of _ c1] exI [of _ i] conjI) simp_all
    next
      case False
      then have "leave_key_loop (ops t) (Suc fuel) u c = leave_key_loop (ops t) fuel u c1"
        using c1(1) v i at_key [OF assms(1) at1] by (simp add: Slice_compare_le)
      moreover obtain c' n where "leave_key_loop (ops t) fuel u c1 = Inr c'" "at t es c' (pos_of n)" "n \<le> m"
        "u \<le> ukey (es ! n)" "n = 0 \<or> ukey (es ! (n - 1)) < u"
        using Suc.IH [OF at1] False Suc.prems(3) i by (auto simp: not_less)
      ultimately show ?thesis using i by (intro exI [of _ c'] exI [of _ n] conjI) simp_all
    qed
  qed
qed

lemma drop_view_above:
  assumes so: "sorted_wrt entry_before es" and "n < length es \<Longrightarrow> u \<le> ukey (es ! n)" and "w < u"
  shows "view (drop n es) s w = None"
proof (rule ccontr)
  assume "view (drop n es) s w \<noteq> None"
  then obtain e where e: "e \<in> set (drop n es)" "sees w s e" using view_seen by blast
  then obtain j where "j < length es - n" "e = es ! (n + j)" by (auto simp: in_set_conv_nth)
  then have "ukey (es ! n) \<le> w" "n < length es" using ukey_mono [OF so, of n "n + j"] e(2) by (auto simp: sees_def)
  then show False using assms(2,3) by auto
qed

lemma DBIter_Prev_correct:
  assumes "rep t es" and "denotes t es d (Some u)" and "length es < fuel"
  shows "\<exists>d' k. DBIter_Prev (ops t) fuel d = Inr d' \<and> denotes t es d' k \<and>
    is_prev es (snapshot d) (\<lambda>w. u \<le> w) k \<and> snapshot d' = snapshot d"
proof (cases "di_direction d")
  case kForward
  then obtain i where i: "at t es (cursor d) (Some i)" "ukey (es ! i) = u" and v: "di_valid d" "seed_ok d"
    using assms(2) by (auto simp: denotes_def)
  note so = rep_sorted [OF assms(1)]
  have il: "i < length es" using at_bound [OF assms(1) i(1)] .
  obtain c n where c: "leave_key_loop (ops t) fuel u (cursor d) = Inr c" "at t es c (pos_of n)" "n \<le> i"
    "u \<le> ukey (es ! n)" "n = 0 \<or> ukey (es ! (n - 1)) < u"
    using leave_key_loop_correct [OF assms(1) i(1), of u fuel] i(2) il assms(3) by auto
  have vc: "it_Valid (ops t) c \<longleftrightarrow> n \<noteq> 0" using at_valid [OF assms(1) c(2)] by simp
  have unseen: "view (drop n es) (snapshot d) w = None" if "\<not> u \<le> w" for w
    using drop_view_above [OF so] c(4) that by (auto simp: not_le)
  show ?thesis
  proof (cases "n = 0")
    case True
    let ?d = "d\<lparr>cursor := c, di_valid := False, saved_key := [], saved_value := []\<rparr>"
    have "view es (snapshot d) w = None" if "\<not> u \<le> w" for w using unseen [OF that] True by simp
    then have "is_prev es (snapshot d) (\<lambda>w. u \<le> w) None" by (auto simp: is_prev_def)
    moreover have "denotes t es ?d None" using v by (simp add: denotes_def seed_ok_def)
    moreover have "DBIter_Prev (ops t) fuel d = Inr ?d"
      using v kForward at_valid [OF assms(1) i(1)] at_key [OF assms(1) i(1)] i(2) c(1) vc True
      by (simp add: DBIter_Prev_def)
    ultimately show ?thesis by (intro exI [of _ ?d] exI [of _ None] conjI) auto
  next
    case False
    let ?d = "d\<lparr>cursor := c, saved_key := u, di_direction := kReverse\<rparr>"
    have "ukey (es ! j) < u" if "j < n" for j
    proof -
      have "ukey (es ! j) \<le> ukey (es ! (n - 1))" using ukey_mono [OF so, of j "n - 1"] c(3) il that by simp
      also have "\<dots> < u" using c(5) False by simp
      finally show ?thesis .
    qed
    then have "\<exists>d' k. FindPrevUserEntry (ops t) fuel ?d = Inr d' \<and> denotes t es d' k \<and>
      is_prev es (snapshot ?d) (\<lambda>w. u \<le> w) k \<and> snapshot d' = snapshot ?d"
      using unseen c(2,3) il assms(3) v
      by (intro FindPrevUserEntry_correct [OF assms(1), where n = n]) (auto simp: seed_ok_def not_le)
    then show ?thesis
      using v kForward at_valid [OF assms(1) i(1)] at_key [OF assms(1) i(1)] i(2) c(1) vc False
      by (simp add: DBIter_Prev_def)
  qed
next
  case kReverse
  then obtain p where p: "at t es (cursor d) p" "rev_pos es (snapshot d) u p" and v: "di_valid d" "seed_ok d"
    using assms(2) by (auto simp: denotes_def)
  note so = rep_sorted [OF assms(1)]
  define n where "n = (case p of None \<Rightarrow> 0 | Some i \<Rightarrow> Suc i)"
  have pn: "p = pos_of n" by (simp add: n_def split: option.splits)
  have nl: "n \<le> length es" using p(1) at_bound [OF assms(1)] by (auto simp: n_def Suc_le_eq split: option.splits)
  have low: "\<not> u \<le> ukey (es ! j)" if "j < n" for j
  proof -
    have "ukey (es ! (n - 1)) < u" using p(2) that by (auto simp: rev_pos_def pn)
    moreover have "ukey (es ! j) \<le> ukey (es ! (n - 1))" using ukey_mono [OF so, of j "n - 1"] that nl by simp
    ultimately show ?thesis by (simp add: not_le)
  qed
  have unseen: "view (drop n es) (snapshot d) w = None" if w: "\<not> u \<le> w" for w
  proof (rule ccontr)
    assume "view (drop n es) (snapshot d) w \<noteq> None"
    then obtain e where e: "e \<in> set (drop n es)" "sees w (snapshot d) e" using view_seen by blast
    then obtain j where j: "j < length es - n" "e = es ! (n + j)" by (auto simp: in_set_conv_nth)
    have mem: "e \<in> set es" using e(1) by (rule in_set_dropD)
    have "u \<le> ukey e"
    proof (cases n)
      case 0
      then show ?thesis using p(2) mem e(2) by (auto simp: rev_pos_def pn sees_def)
    next
      case (Suc m)
      then have "entry_before (es ! m) e" using sorted_wrt_nth_less [OF so, of m "n + j"] j by simp
      then show ?thesis using p(2) mem e(2) Suc by (auto simp: rev_pos_def pn sees_def)
    qed
    then show False using e(2) w by (simp add: sees_def)
  qed
  have "\<exists>d' k. FindPrevUserEntry (ops t) fuel d = Inr d' \<and> denotes t es d' k \<and>
    is_prev es (snapshot d) (\<lambda>w. u \<le> w) k \<and> snapshot d' = snapshot d"
    using unseen low p(1) nl assms(3) v kReverse
    by (intro FindPrevUserEntry_correct [OF assms(1), where n = n]) (auto simp: pn)
  then show ?thesis using v kReverse by (simp add: DBIter_Prev_def)
qed

lemma DBIter_SeekToLast_correct:
  assumes "rep t es" and "seed_ok d" and "length es < fuel"
  shows "\<exists>d' k. DBIter_SeekToLast (ops t) fuel d = Inr d' \<and> denotes t es d' k \<and>
    is_prev es (snapshot d) (\<lambda>w. False) k \<and> snapshot d' = snapshot d"
proof -
  obtain c where c: "it_SeekToLast (ops t) = Inr c" "at t es c (pos_of (length es))"
    using at_Last [OF assms(1)] by auto
  let ?d = "d\<lparr>di_direction := kReverse, saved_value := [], cursor := c\<rparr>"
  have "\<exists>d' k. FindPrevUserEntry (ops t) fuel ?d = Inr d' \<and> denotes t es d' k \<and>
    is_prev es (snapshot ?d) (\<lambda>w. False) k \<and> snapshot d' = snapshot ?d"
    using c(2) assms(2,3)
    by (intro FindPrevUserEntry_correct [OF assms(1), where n = "length es"]) (auto simp: seed_ok_def)
  then show ?thesis using c(1) by (simp add: DBIter_SeekToLast_def)
qed

text \<open>New entries that the snapshot does not see change nothing.\<close>

lemma find_grows:
  assumes "sorted_wrt entry_before es" and "sorted_wrt entry_before es'" and "set es \<subseteq> set es'"
    and new: "\<And>e. e \<in> set es' \<Longrightarrow> e \<notin> set es \<Longrightarrow> \<not> eseq e \<le> s"
  shows "find (sees u s) es' = find (sees u s) es"
proof (cases "find (sees u s) es")
  case None
  have none: "\<not> sees u s e" if "e \<in> set es" for e using None that unfolding find_None_iff by blast
  have "\<not> sees u s e" if "e \<in> set es'" for e
    using none [of e] new [OF that] by (cases "e \<in> set es") (auto simp: sees_def)
  then have "find (sees u s) es' = None" unfolding find_None_iff by blast
  then show ?thesis using None by simp
next
  case (Some e)
  then obtain i where i: "i < length es" "e = es ! i" "sees u s e" "\<forall>j < i. \<not> sees u s (es ! j)"
    by (auto simp: find_Some_iff)
  have "find (sees u s) es' = Some e"
  proof (rule find_first [OF assms(2)])
    show "e \<in> set es'" using i(1,2) assms(3) by auto
    show "sees u s e" by (rule i(3))
    fix d
    assume d: "d \<in> set es'" "sees u s d"
    then have "d \<in> set es" using new [of d] by (auto simp: sees_def)
    then obtain j where j: "j < length es" "d = es ! j" by (auto simp: in_set_conv_nth)
    then have "i \<le> j" using i(4) d(2) by (meson not_le)
    then show "d = e \<or> entry_before e d"
      using sorted_wrt_nth_less [OF assms(1), of i j] i(2) j by (cases "i = j") auto
  qed
  then show ?thesis using Some by simp
qed

lemma denotes_grows:
  assumes "rep t es" and "rep t' es'" and "grows t t'" and "set es \<subseteq> set es'"
    and new: "\<And>e. e \<in> set es' \<Longrightarrow> e \<notin> set es \<Longrightarrow> \<not> eseq e \<le> snapshot d" and "denotes t es d k"
  shows "denotes t' es' d k"
proof -
  let ?s = "snapshot d"
  have f: "find (sees u ?s) es' = find (sees u ?s) es" for u
    using find_grows [OF rep_sorted [OF assms(1)] rep_sorted [OF assms(2)] assms(4) new] .
  have seen: "e \<in> set es" if "e \<in> set es'" "eseq e \<le> ?s" for e using new that by blast
  have sh: "shows_entry es' ?s e \<longleftrightarrow> shows_entry es ?s e" for e by (simp add: shows_entry_def f)
  have vw: "view es' ?s u = view es ?s u" for u by (simp add: view_def f)
  have pos: "\<exists>p'. at t' es' (cursor d) p' \<and> rev_pos es' ?s u p'" if p: "at t es (cursor d) p" "rev_pos es ?s u p" for u p
  proof (cases p)
    case None
    then have "at t' es' (cursor d) None" using at_grows_None [OF assms(1-3)] p(1) by blast
    moreover have "rev_pos es' ?s u None" using p(2) None seen by (auto simp: rev_pos_def)
    ultimately show ?thesis by blast
  next
    case (Some i)
    then obtain j where j: "at t' es' (cursor d) (Some j)" "es' ! j = es ! i"
      using at_grows [OF assms(1-3)] p(1) by blast
    moreover have "rev_pos es' ?s u (Some j)" using p(2) Some seen j(2) by (auto simp: rev_pos_def)
    ultimately show ?thesis by blast
  qed
  show ?thesis
  proof (cases k)
    case None
    then show ?thesis using assms(6) by (simp add: denotes_def)
  next
    case (Some u)
    show ?thesis
    proof (cases "di_direction d")
      case kForward
      then obtain i where i: "at t es (cursor d) (Some i)" "shows_entry es ?s (es ! i)" "ukey (es ! i) = u"
        and v: "di_valid d" "seed_ok d"
        using assms(6) Some by (auto simp: denotes_def)
      obtain j where "at t' es' (cursor d) (Some j)" "es' ! j = es ! i"
        using at_grows [OF assms(1-3) i(1)] by blast
      then show ?thesis using i v Some kForward sh by (auto simp: denotes_def)
    next
      case kReverse
      then obtain p where p: "at t es (cursor d) p" "rev_pos es ?s u p"
        and v: "di_valid d" "seed_ok d" "saved_key d = u" "view es ?s u = Some (saved_value d)"
        using assms(6) Some by (auto simp: denotes_def)
      from pos [OF p] show ?thesis using v Some kReverse vw by (auto simp: denotes_def)
    qed
  qed
qed

end

section \<open>The memory table as internal iterator\<close>

definition mem_rep :: "memtable \<Rightarrow> entry list \<Rightarrow> bool" where
  "mem_rep m es \<longleftrightarrow> holds (table m) es"

definition mem_at :: "memtable \<Rightarrow> entry list \<Rightarrow> nat option \<Rightarrow> nat option \<Rightarrow> bool" where
  "mem_at m es c p \<longleftrightarrow>
     (case p of
        None \<Rightarrow> c = None
      | Some i \<Rightarrow> i < length es \<and> (\<exists>xs. holds_at (table m) xs es \<and> c = Some (xs ! i)))"

definition mem_grows :: "memtable \<Rightarrow> memtable \<Rightarrow> bool" where
  "mem_grows m m' \<longleftrightarrow> list_grows (table m) (table m')"

lemma hd_opt_drop: "hd_opt (drop n xs) = (if n < length xs then Some (xs ! n) else None)"
  by (cases "drop n xs") (auto simp: drop_eq_Nil nth_via_drop not_less dest: arg_cong [where f = length])

lemma mem_at_hd:
  assumes "holds_at (table m) xs es"
  shows "mem_at m es (hd_opt (drop n xs)) (if n < length es then Some n else None)"
  using assms holds_at_length [OF assms] by (auto simp: mem_at_def hd_opt_drop)

lemma mem_key_at:
  assumes "holds_at (table m) xs es" and "i < length es"
  shows "iter_key (table m) (Some (xs ! i)) = Inr (entry_tk (es ! i))" and "entry_ok (es ! i)"
proof -
  have "xs ! i \<in> set xs" using holds_at_length [OF assms(1)] assms(2) by simp
  then show "iter_key (table m) (Some (xs ! i)) = Inr (entry_tk (es ! i))"
    using key_of_rep [of "table m" xs "xs ! i"] holds_at_keyed [OF assms] assms(1)
    by (simp add: iter_key_def holds_at_def tm.sl_sorted_def)
  show "entry_ok (es ! i)" using assms by (simp add: holds_at_def)
qed

lemma entry_slices:
  assumes "entry_ok e"
  shows "mem_GetLengthPrefixedSlice (snd (entry_tk e)) =
      Inr (encode_key (fst e), EncodeVarint32 (of_nat (length (snd e))) @ snd e)"
    and "mem_GetLengthPrefixedSlice (EncodeVarint32 (of_nat (length (snd e))) @ snd e) = Inr (snd e, [])"
  using assms slice_tk_of mem_slice_encode [of "length (snd e)" "snd e" "[]"]
  by (auto simp: entry_tk_def entry_ok_def)

lemma mem_step_at:
  assumes h: "holds_at (table m) xs es" and i: "i < length es"
  shows "mem_Next m (Some (xs ! i)) = Inr (hd_opt (drop (Suc i) xs))"
    and "mem_Prev m (Some (xs ! i)) = Inr (if i = 0 then None else Some (xs ! (i - 1)))"
proof -
  have xs: "xs = take i xs @ xs ! i # drop (Suc i) xs"
    using holds_at_length [OF h] i by (simp add: id_take_nth_drop)
  have so: "tm.sl_sorted (table m) xs" using h by (simp add: holds_at_def)
  then have so': "tm.sl_sorted (table m) (take i xs @ xs ! i # drop (Suc i) xs)" using xs by simp
  then have "sl_rep (table m) (take i xs @ xs ! i # drop (Suc i) xs)" by (simp only: tm.sl_sorted_def)
  from iter_Next_rep [OF this] show "mem_Next m (Some (xs ! i)) = Inr (hd_opt (drop (Suc i) xs))"
    by (simp add: mem_Next_def)
  have "last (take i xs) = xs ! (i - 1)" if "i \<noteq> 0"
    using that i holds_at_length [OF h] by (subst last_conv_nth) auto
  then show "mem_Prev m (Some (xs ! i)) = Inr (if i = 0 then None else Some (xs ! (i - 1)))"
    using tm.iter_Prev_correct [OF so'] i holds_at_length [OF h] by (auto simp: mem_Prev_def)
qed

lemma mem_Seek_at:
  assumes h: "holds_at (table m) xs es" and k: "key_ok k"
  shows "mem_Seek m (encode_key k) = Inr (hd_opt (drop (length (takeWhile (\<lambda>e. key_before (fst e) k) es)) xs))"
proof -
  obtain as bs where xs: "xs = as @ bs" and sp: "tm.split_at (table m) (tk_of k []) as bs"
    using tm.split_exists [of "table m" xs "tk_of k []"] h k by (auto simp: holds_at_def tk_ok_def)
  obtain ca cb where c: "es = ca @ cb" "length ca = length as" "\<forall>a \<in> set ca. key_before (fst a) k"
    "\<forall>b \<in> set cb. \<not> key_before (fst b) k"
    using holds_split [OF h [unfolded xs] sp k] by blast
  have "takeWhile (\<lambda>e. key_before (fst e) k) es = ca"
    unfolding c(1) using c(3,4) by (cases cb) (simp_all add: takeWhile_append2)
  moreover have "(KeyNum (take (length (encode_key k) - 8) (encode_key k)), EncodeKey (encode_key k)) = tk_of k []"
    by (simp add: tk_of_def EncodeKey_def PutVarint32_def) (simp add: encode_key_def)
  ultimately show ?thesis
    using tm.iter_Seek_correct [OF sp] c(2) xs by (simp add: mem_Seek_def)
qed

interpretation mi: entry_iterator mem_ops mem_rep mem_at mem_grows
proof
  fix m es c i
  assume r: "mem_rep m es"
  then obtain xs where h: "holds_at (table m) xs es" by (auto simp: mem_rep_def holds_def)
  have rep: "sl_rep (table m) xs" using h by (simp add: holds_at_def tm.sl_sorted_def)
  have eq: "ys = xs" if "holds_at (table m) ys es" for ys
    using that h by (intro sl_rep_unique [of "table m"]) (auto simp: holds_at_def tm.sl_sorted_def)
  have ci: "c = Some (xs ! i)" "i < length es" if "mem_at m es c (Some i)" for c i
    using that eq by (auto simp: mem_at_def)
  show "sorted_wrt entry_before es" by (rule holds_at_sorted [OF h])
  show "entry_ok e" if "e \<in> set es" for e using h that by (simp add: holds_at_def)
  show "i < length es" if "mem_at m es c (Some i)" using ci that by blast
  show "it_Valid (mem_ops m) c \<longleftrightarrow> p \<noteq> None" if "mem_at m es c p" for p
    using that by (auto simp: mem_at_def mem_ops_def split: option.splits)
  show "it_key (mem_ops m) c = Inr (encode_key (fst (es ! i)))" if "mem_at m es c (Some i)"
    using ci [OF that] mem_key_at [OF h] entry_slices by (simp add: mem_ops_def mem_key_def)
  show "it_value (mem_ops m) c = Inr (snd (es ! i))" if "mem_at m es c (Some i)"
    using ci [OF that] mem_key_at [OF h] entry_slices by (simp add: mem_ops_def mem_value_def)
  show "\<exists>c'. it_Next (mem_ops m) c = Inr c' \<and> mem_at m es c' (if Suc i < length es then Some (Suc i) else None)"
    if "mem_at m es c (Some i)"
    using ci [OF that] mem_step_at(1) [OF h] mem_at_hd [OF h] by (simp add: mem_ops_def)
  show "\<exists>c'. it_Prev (mem_ops m) c = Inr c' \<and> mem_at m es c' (if i = 0 then None else Some (i - 1))"
    if "mem_at m es c (Some i)"
    using ci [OF that] mem_step_at(2) [OF h] h by (auto simp: mem_ops_def mem_at_def)
  show "\<exists>c'. it_Seek (mem_ops m) (encode_key k) = Inr c' \<and> mem_at m es c' (seek_pos es k)" if "key_ok k" for k
    using mem_Seek_at [OF h that] mem_at_hd [OF h] by (simp add: mem_ops_def seek_pos_def Let_def)
  show "\<exists>c'. it_SeekToFirst (mem_ops m) = Inr c' \<and> mem_at m es c' (if es = [] then None else Some 0)"
    using iter_SeekToFirst_rep [OF rep] mem_at_hd [OF h, of 0] by (cases es) (simp_all add: mem_ops_def mem_SeekToFirst_def)
  show "\<exists>c'. it_SeekToLast (mem_ops m) = Inr c' \<and> mem_at m es c' (if es = [] then None else Some (length es - 1))"
    using iter_SeekToLast_rep [OF rep] holds_at_length [OF h] h
    by (auto simp: mem_ops_def mem_SeekToLast_def mem_at_def last_conv_nth)
  show "mem_at m' es' c None" if "mem_at m es c None" for m' es' using that by (simp add: mem_at_def)
  show "\<exists>j. mem_at m' es' c (Some j) \<and> es' ! j = es ! i"
    if r': "mem_rep m' es'" and g: "mem_grows m m'" and at: "mem_at m es c (Some i)" for m' es'
  proof -
    obtain ys where ys: "holds_at (table m') ys es'" using r' by (auto simp: mem_rep_def holds_def)
    obtain zs where zs: "sl_rep (table m') zs" "set xs \<subseteq> set zs" "\<forall>i \<in> set xs. keyed (table m') i = keyed (table m) i"
      using g rep by (auto simp: mem_grows_def list_grows_def)
    have "zs = ys" using zs(1) ys by (intro sl_rep_unique [of "table m'"]) (auto simp: holds_at_def tm.sl_sorted_def)
    moreover have x: "xs ! i \<in> set xs" using ci [OF at] holds_at_length [OF h] by simp
    ultimately have "xs ! i \<in> set ys" using zs(2) by blast
    then obtain j where j: "j < length ys" "ys ! j = xs ! i" by (auto simp: in_set_conv_nth)
    then have jl: "j < length es'" using holds_at_length [OF ys] by simp
    have "entry_tk (es' ! j) = entry_tk (es ! i)"
      using holds_at_keyed [OF ys jl] holds_at_keyed [OF h ci(2) [OF at]] j(2) zs(3) x by simp
    then have "es' ! j = es ! i"
      using entry_tk_inj mem_key_at(2) [OF ys jl] mem_key_at(2) [OF h ci(2) [OF at]] by blast
    moreover have "mem_at m' es' c (Some j)" using ys jl j(2) ci [OF at] by (auto simp: mem_at_def)
    ultimately show ?thesis by blast
  qed
qed

section \<open>Properties\<close>

text \<open>C33: The loop that samples the bytes read ends, however far the counter has dropped:
  of two random gaps in a row one is positive, so that \<open>sample_fuel\<close> rounds are enough.  It
  leaves the counter between 0 and a gap, and the generator in its range.\<close>

theorem sampling_ends:
  assumes "0 < unat (di_rnd d)" and "unat (di_rnd d) < 2147483647"
  shows "\<exists>d'. sample_loop (sample_fuel d) k d = Inr d' \<and> 0 \<le> bytes_counter d' \<and>
    bytes_counter d' < max (bytes_counter d + 1) 2097152 \<and> 0 < unat (di_rnd d') \<and> unat (di_rnd d') < 2147483647"
proof -
  have "seed_ok d" using assms by (simp add: seed_ok_def)
  from sample_loop_ends [OF this, of "sample_fuel d" k] obtain r c ks where
    "sample_loop (sample_fuel d) k d = Inr (d\<lparr>bytes_counter := c, di_rnd := r, samples := ks\<rparr>)"
    "0 \<le> c" "c < max (bytes_counter d + 1) 2097152" "seed_ok (d\<lparr>di_rnd := r\<rparr>)"
    unfolding sample_fuel_def by auto
  then show ?thesis by (auto simp: seed_ok_def)
qed

theorem sampling_ends_witness:
  "let d = (new_DBIter None 7 3 :: nat option dbiter)\<lparr>bytes_counter := -5, di_rnd := 2097152\<rparr>
   in \<exists>d'. sample_loop (sample_fuel d) [1] d = Inr d' \<and> 0 \<le> bytes_counter d' \<and> bytes_counter d' < 2097152"
  using sampling_ends [of "(new_DBIter None 7 3 :: nat option dbiter)\<lparr>bytes_counter := -5, di_rnd := 2097152\<rparr>" "[1]"]
  unfolding Let_def by auto

end
