(* ===== verification/Store.thy ===== *)
theory Store
  imports DbIter
begin

text \<open>
  The database (\<^verbatim>\<open>src/ext/leveldb/db/db_impl.cc\<close>) while everything is in its memory table: no
  table files, no table under compaction (\<^verbatim>\<open>imm_\<close> is \<^verbatim>\<open>NULL\<close>), no background error, and room in
  the table, so that \<^verbatim>\<open>SequenceWriteBegin\<close> takes its second branch.  The internal iterator is
  then the one of the memory table, as \<^verbatim>\<open>NewMergingIterator\<close> returns the only child it is
  given.  What the log and the recovery return is a parameter.  The reference counts of the
  table are left out.

  Writers take tickets: \<open>writers_upper\<close> numbers the writes, and a writer makes its own
  visible only when \<open>writers_lower\<close> has reached its number.
\<close>

section \<open>The database\<close>

record db =
  db_mem :: memtable
  writers_lower :: u64
  writers_upper :: u64
  last_sequence :: u64
  bg_error :: status
  db_seed :: u32

record writer =
  linked :: bool
  start_sequence :: u64
  end_sequence :: u64

text \<open>The end of \<^verbatim>\<open>Open\<close>: when the recovery failed the object is deleted before its counters
  are set.\<close>

definition DB_Open :: "status \<Rightarrow> db res" where
  "DB_Open s =
     (if s = OK then
        Inr \<lparr>db_mem = new_MemTable, writers_lower = 1, writers_upper = 0, last_sequence = 0,
          bg_error = OK, db_seed = 0\<rparr>
      else Inl UseAfterFree)"

definition SequenceWriteBegin :: "byte list \<Rightarrow> db \<Rightarrow> (status \<times> writer \<times> db) res" where
  "SequenceWriteBegin updates d =
     (if bg_error d \<noteq> OK then Inr (bg_error d, \<lparr>linked = False, start_sequence = 0, end_sequence = 0\<rparr>, d)
      else
        bind_res (WriteBatch_Count updates) (\<lambda>n.
        let diff = (of_int n :: u64); ticket = writers_upper d + (1 + diff)
        in Inr (OK, \<lparr>linked = True, start_sequence = ticket - diff, end_sequence = ticket\<rparr>,
             d\<lparr>writers_upper := ticket\<rparr>)))"

definition SetLastSequence :: "u64 \<Rightarrow> db \<Rightarrow> db res" where
  "SetLastSequence s d = (if s \<ge> last_sequence d then Inr (d\<lparr>last_sequence := s\<rparr>) else Inl AssertionFailed)"

text \<open>With one thread, waiting for a turn that has not come is waiting forever.\<close>

definition SequenceWriteEnd :: "writer \<Rightarrow> db \<Rightarrow> db res" where
  "SequenceWriteEnd w d =
     (if \<not> linked w then Inr d
      else if writers_lower d < start_sequence w then Inl Diverges
      else
        bind_res (SetLastSequence (end_sequence w) d) (\<lambda>d.
        Inr (d\<lparr>writers_lower := writers_lower d + (1 + end_sequence w - start_sequence w)\<rparr>)))"

definition DB_Write :: "status \<Rightarrow> byte list \<Rightarrow> db \<Rightarrow> (status \<times> db) res" where
  "DB_Write log_status updates d =
     bind_res (SequenceWriteBegin updates d) (\<lambda>(s, w, d).
     bind_res (if s = OK then
                 if log_status = OK then InsertInto (WriteBatch_SetSequence updates (start_sequence w)) (db_mem d)
                 else Inr (log_status, db_mem d)
               else Inr (s, db_mem d)) (\<lambda>(s, mem).
     bind_res (SequenceWriteEnd w (d\<lparr>db_mem := mem\<rparr>)) (\<lambda>d. Inr (s, d))))"

definition DB_Put :: "status \<Rightarrow> byte list \<Rightarrow> byte list \<Rightarrow> db \<Rightarrow> (status \<times> db) res" where
  "DB_Put log_status key val d =
     bind_res (WriteBatch_Put WriteBatch_Clear key val) (\<lambda>batch. DB_Write log_status batch d)"

definition DB_Delete :: "status \<Rightarrow> byte list \<Rightarrow> db \<Rightarrow> (status \<times> db) res" where
  "DB_Delete log_status key d =
     bind_res (WriteBatch_Delete WriteBatch_Clear key) (\<lambda>batch. DB_Write log_status batch d)"

definition DB_Get :: "byte list \<Rightarrow> db \<Rightarrow> (status + byte list) res" where
  "DB_Get key d =
     bind_res (LookupKey key (last_sequence d)) (\<lambda>lkey.
     bind_res (MemTable_Get lkey key (db_mem d)) (\<lambda>r.
     Inr (case r of Some x \<Rightarrow> x | None \<Rightarrow> Inl NotFound)))"

text \<open>A new iterator stands nowhere and sees the latest write.\<close>

definition DB_NewIterator :: "db \<Rightarrow> nat option dbiter \<times> db" where
  "DB_NewIterator d =
     (let seed = db_seed d + 1 in (new_DBIter None (last_sequence d) seed, d\<lparr>db_seed := seed\<rparr>))"

section \<open>Iterating over the database\<close>

definition it_fuel :: "db \<Rightarrow> nat" where
  "it_fuel d = length (nodes (table (db_mem d)))"

abbreviation db_Seek :: "db \<Rightarrow> byte list \<Rightarrow> nat option dbiter \<Rightarrow> nat option dbiter res" where
  "db_Seek d \<equiv> DBIter_Seek (mem_ops (db_mem d)) (it_fuel d)"

abbreviation db_SeekToFirst :: "db \<Rightarrow> nat option dbiter \<Rightarrow> nat option dbiter res" where
  "db_SeekToFirst d \<equiv> DBIter_SeekToFirst (mem_ops (db_mem d)) (it_fuel d)"

abbreviation db_SeekToLast :: "db \<Rightarrow> nat option dbiter \<Rightarrow> nat option dbiter res" where
  "db_SeekToLast d \<equiv> DBIter_SeekToLast (mem_ops (db_mem d)) (it_fuel d)"

abbreviation db_Next :: "db \<Rightarrow> nat option dbiter \<Rightarrow> nat option dbiter res" where
  "db_Next d \<equiv> DBIter_Next (mem_ops (db_mem d)) (it_fuel d)"

abbreviation db_Prev :: "db \<Rightarrow> nat option dbiter \<Rightarrow> nat option dbiter res" where
  "db_Prev d \<equiv> DBIter_Prev (mem_ops (db_mem d)) (it_fuel d)"

abbreviation db_key :: "db \<Rightarrow> nat option dbiter \<Rightarrow> byte list res" where
  "db_key d \<equiv> DBIter_key (mem_ops (db_mem d))"

abbreviation db_value :: "db \<Rightarrow> nat option dbiter \<Rightarrow> byte list res" where
  "db_value d \<equiv> DBIter_value (mem_ops (db_mem d))"

text \<open>Programs over the database and one iterator, which they may replace by a new one; every
  step that moves the iterator or looks a key up reads what it found.\<close>

datatype store_step =
    SPut "byte list" "byte list" | SDelete "byte list" | SGet "byte list"
  | SIter | SSeek "byte list" | SFirst | SLast | SNext | SPrev

datatype seen = Found "byte list" "byte list" | Nowhere | Got "byte list option"

definition read_it :: "db \<Rightarrow> nat option dbiter \<Rightarrow> seen res" where
  "read_it d it =
     (if di_valid it then
        bind_res (db_key d it) (\<lambda>k. bind_res (db_value d it) (\<lambda>v. Inr (Found k v)))
      else Inr Nowhere)"

definition moved :: "db \<Rightarrow> nat option dbiter res \<Rightarrow> (seen list \<times> db \<times> nat option dbiter) res" where
  "moved d r = bind_res r (\<lambda>it. bind_res (read_it d it) (\<lambda>x. Inr ([x], d, it)))"

primrec do_step :: "store_step \<Rightarrow> db \<times> nat option dbiter \<Rightarrow> (seen list \<times> db \<times> nat option dbiter) res" where
  "do_step (SPut k v) p = bind_res (DB_Put OK k v (fst p)) (\<lambda>(s, d). Inr ([], d, snd p))"
| "do_step (SDelete k) p = bind_res (DB_Delete OK k (fst p)) (\<lambda>(s, d). Inr ([], d, snd p))"
| "do_step (SGet k) p =
     bind_res (DB_Get k (fst p)) (\<lambda>r. Inr ([Got (case r of Inl _ \<Rightarrow> None | Inr v \<Rightarrow> Some v)], p))"
| "do_step SIter p = (let (it, d) = DB_NewIterator (fst p) in Inr ([], d, it))"
| "do_step (SSeek k) p = moved (fst p) (db_Seek (fst p) k (snd p))"
| "do_step SFirst p = moved (fst p) (db_SeekToFirst (fst p) (snd p))"
| "do_step SLast p = moved (fst p) (db_SeekToLast (fst p) (snd p))"
| "do_step SNext p = moved (fst p) (db_Next (fst p) (snd p))"
| "do_step SPrev p = moved (fst p) (db_Prev (fst p) (snd p))"

fun store_run :: "store_step list \<Rightarrow> db \<times> nat option dbiter \<Rightarrow> seen list res" where
  "store_run [] p = Inr []"
| "store_run (st # sts) p =
     bind_res (do_step st p) (\<lambda>(xs, p). bind_res (store_run sts p) (\<lambda>ys. Inr (xs @ ys)))"

definition open_run :: "status \<Rightarrow> store_step list \<Rightarrow> seen list res" where
  "open_run s sts = bind_res (DB_Open s) (\<lambda>d. let (it, d) = DB_NewIterator d in store_run sts (d, it))"

section \<open>What it means\<close>

text \<open>A sorted list of keys and values, with the update and the deletion of a key.\<close>

type_synonym kv = "(byte list \<times> byte list) list"

fun kv_put :: "byte list \<Rightarrow> byte list \<Rightarrow> kv \<Rightarrow> kv" where
  "kv_put k v [] = [(k, v)]"
| "kv_put k v ((a, b) # xs) =
     (if k < a then (k, v) # (a, b) # xs else if k = a then (k, v) # xs else (a, b) # kv_put k v xs)"

fun kv_delete :: "byte list \<Rightarrow> kv \<Rightarrow> kv" where
  "kv_delete k [] = []"
| "kv_delete k ((a, b) # xs) = (if k = a then xs else (a, b) # kv_delete k xs)"

record kv_state =
  kv_now :: kv
  kv_snap :: kv
  kv_place :: "byte list option"

definition kv_read :: "kv_state \<Rightarrow> byte list option \<Rightarrow> seen list \<times> kv_state" where
  "kv_read p k =
     ([case k of None \<Rightarrow> Nowhere | Some u \<Rightarrow> Found u (the (map_of (kv_snap p) u))], p\<lparr>kv_place := k\<rparr>)"

definition first_with :: "(byte list \<Rightarrow> bool) \<Rightarrow> kv \<Rightarrow> byte list option" where
  "first_with P xs = map_option fst (find (\<lambda>x. P (fst x)) xs)"

primrec kv_step :: "store_step \<Rightarrow> kv_state \<Rightarrow> (seen list \<times> kv_state) res" where
  "kv_step (SPut k v) p = Inr ([], p\<lparr>kv_now := kv_put k v (kv_now p)\<rparr>)"
| "kv_step (SDelete k) p = Inr ([], p\<lparr>kv_now := kv_delete k (kv_now p)\<rparr>)"
| "kv_step (SGet k) p = Inr ([Got (map_of (kv_now p) k)], p)"
| "kv_step SIter p = Inr ([], p\<lparr>kv_snap := kv_now p, kv_place := None\<rparr>)"
| "kv_step (SSeek k) p = Inr (kv_read p (first_with (\<lambda>u. k \<le> u) (kv_snap p)))"
| "kv_step SFirst p = Inr (kv_read p (first_with (\<lambda>u. True) (kv_snap p)))"
| "kv_step SLast p = Inr (kv_read p (first_with (\<lambda>u. True) (rev (kv_snap p))))"
| "kv_step SNext p =
     (case kv_place p of
        None \<Rightarrow> Inl AssertionFailed
      | Some w \<Rightarrow> Inr (kv_read p (first_with (\<lambda>u. w < u) (kv_snap p))))"
| "kv_step SPrev p =
     (case kv_place p of
        None \<Rightarrow> Inl AssertionFailed
      | Some w \<Rightarrow> Inr (kv_read p (first_with (\<lambda>u. u < w) (rev (kv_snap p)))))"

fun kv_run :: "store_step list \<Rightarrow> kv_state \<Rightarrow> seen list res" where
  "kv_run [] p = Inr []"
| "kv_run (st # sts) p =
     bind_res (kv_step st p) (\<lambda>(xs, p). bind_res (kv_run sts p) (\<lambda>ys. Inr (xs @ ys)))"


section \<open>Sorted lists of keys\<close>

definition kv_ok :: "entry list \<Rightarrow> u64 \<Rightarrow> kv \<Rightarrow> bool" where
  "kv_ok es s xs \<longleftrightarrow> sorted_wrt (<) (map fst xs) \<and> (\<forall>u. map_of xs u = view es s u)"

lemma map_of_kv_put: "sorted_wrt (<) (map fst xs) \<Longrightarrow> map_of (kv_put k v xs) u = (if u = k then Some v else map_of xs u)"
  by (induction k v xs rule: kv_put.induct) auto

lemma fst_kv_put: "fst ` set (kv_put k v xs) = insert k (fst ` set xs)"
  by (induction k v xs rule: kv_put.induct) auto

lemma sorted_kv_put: "sorted_wrt (<) (map fst xs) \<Longrightarrow> sorted_wrt (<) (map fst (kv_put k v xs))"
  by (induction k v xs rule: kv_put.induct) (auto simp: fst_kv_put)

lemma fst_kv_delete: "fst ` set (kv_delete k xs) \<subseteq> fst ` set xs"
  by (induction k xs rule: kv_delete.induct) auto

lemma sorted_kv_delete: "sorted_wrt (<) (map fst xs) \<Longrightarrow> sorted_wrt (<) (map fst (kv_delete k xs))"
  using fst_kv_delete by (induction k xs rule: kv_delete.induct) fastforce+

lemma map_of_kv_delete:
  "sorted_wrt (<) (map fst xs) \<Longrightarrow> map_of (kv_delete k xs) u = (if u = k then None else map_of xs u)"
proof (induction k xs rule: kv_delete.induct)
  case (2 k a b xs)
  have "map_of xs a = None" using "2.prems" by (auto simp: map_of_eq_None_iff)
  then show ?case using 2 by auto
qed simp

lemma first_with_order:
  assumes "sorted_wrt R (map fst xs)" and "w \<in> fst ` set xs" and "P w" and "\<And>u. u \<in> fst ` set xs \<Longrightarrow> R u w \<Longrightarrow> \<not> P u"
  shows "first_with P xs = Some w"
  using assms
proof (induction xs)
  case (Cons x xs)
  show ?case
  proof (cases "fst x = w")
    case True
    then show ?thesis using Cons.prems(3) by (simp add: first_with_def)
  next
    case False
    then have w: "w \<in> fst ` set xs" using Cons.prems(2) by auto
    then have "R (fst x) w" using Cons.prems(1) by auto
    then have "\<not> P (fst x)" using Cons.prems(4) [of "fst x"] by simp
    moreover have "first_with P xs = Some w" using Cons w by simp
    ultimately show ?thesis by (simp add: first_with_def)
  qed
qed simp

lemma first_with_None: "(\<And>u. u \<in> fst ` set xs \<Longrightarrow> \<not> P u) \<Longrightarrow> first_with P xs = None"
proof -
  assume "\<And>u. u \<in> fst ` set xs \<Longrightarrow> \<not> P u"
  then have "\<not> (\<exists>x. x \<in> set xs \<and> P (fst x))" by blast
  then have "find (\<lambda>x. P (fst x)) xs = None" unfolding find_None_iff .
  then show ?thesis by (simp add: first_with_def)
qed

lemma kv_dom: "kv_ok es s xs \<Longrightarrow> u \<in> fst ` set xs \<longleftrightarrow> view es s u \<noteq> None"
  by (metis kv_ok_def map_of_eq_None_iff)

lemma is_next_first: "kv_ok es s xs \<Longrightarrow> is_next es s D k \<Longrightarrow> k = first_with (\<lambda>u. \<not> D u) xs"
proof (cases k)
  case None
  assume "kv_ok es s xs" "is_next es s D k"
  then have "first_with (\<lambda>u. \<not> D u) xs = None"
    using None kv_dom [of es s xs] by (intro first_with_None) (auto simp: is_next_def)
  then show ?thesis using None by simp
next
  case (Some w)
  assume ok: "kv_ok es s xs" "is_next es s D k"
  have "first_with (\<lambda>u. \<not> D u) xs = Some w"
    by (rule first_with_order [where R = "(<)"])
      (use ok Some kv_dom [OF ok(1)] in \<open>auto simp: is_next_def kv_ok_def\<close>)
  then show ?thesis using Some by simp
qed

lemma is_prev_first: "kv_ok es s xs \<Longrightarrow> is_prev es s D k \<Longrightarrow> k = first_with (\<lambda>u. \<not> D u) (rev xs)"
proof (cases k)
  case None
  assume "kv_ok es s xs" "is_prev es s D k"
  then have "first_with (\<lambda>u. \<not> D u) (rev xs) = None"
    using None kv_dom [of es s xs] by (intro first_with_None) (auto simp: is_prev_def)
  then show ?thesis using None by simp
next
  case (Some w)
  assume ok: "kv_ok es s xs" "is_prev es s D k"
  have so: "sorted_wrt (\<lambda>a b. b < a) (map fst (rev xs))"
    using ok(1) unfolding kv_ok_def rev_map [symmetric] sorted_wrt_rev by simp
  have "first_with (\<lambda>u. \<not> D u) (rev xs) = Some w"
    by (rule first_with_order [OF so]) (use ok Some kv_dom [OF ok(1)] in \<open>auto simp: is_prev_def\<close>)
  then show ?thesis using Some by simp
qed

section \<open>A write\<close>

lemma view_newest:
  assumes so: "sorted_wrt entry_before es" "sorted_wrt entry_before es'" and set: "set es' = insert e (set es)"
    and old: "\<And>d. d \<in> set es \<Longrightarrow> eseq d \<le> s" and e: "s < eseq e" "eseq e \<le> s'"
  shows "view es' s' u =
    (if u = ukey e then (case key_type (fst e) of kTypeValue \<Rightarrow> Some (snd e) | kTypeDeletion \<Rightarrow> None) else view es s u)"
proof (cases "u = ukey e")
  case True
  have "find (sees u s') es' = Some e"
  proof (rule find_first [OF so(2)])
    show "e \<in> set es'" using set by simp
    show "sees u s' e" using True e(2) by (simp add: sees_def)
    fix d
    assume "d \<in> set es'" "sees u s' d"
    then show "d = e \<or> entry_before e d"
      using set old [of d] e(1) True by (auto simp: sees_def key_before_def)
  qed
  then show ?thesis using True by (simp add: view_def)
next
  case False
  have same: "sees u s' d \<longleftrightarrow> sees u s d" if "d \<in> set es" for d
    using old [OF that] e by (auto simp: sees_def)
  have ne: "\<not> sees u s' e" using False by (simp add: sees_def)
  have "find (sees u s') es' = find (sees u s) es"
  proof (cases "find (sees u s) es")
    case None
    have none: "\<not> sees u s d" if "d \<in> set es" for d using None that unfolding find_None_iff by blast
    have "\<not> sees u s' d" if "d \<in> set es'" for d
      using that none [of d] same [of d] ne unfolding set by (cases "d = e") auto
    then have "find (sees u s') es' = None" unfolding find_None_iff by blast
    then show ?thesis using None by simp
  next
    case (Some x)
    then obtain i where i: "i < length es" "x = es ! i" "sees u s x" "\<forall>j < i. \<not> sees u s (es ! j)"
      by (auto simp: find_Some_iff)
    have "find (sees u s') es' = Some x"
    proof (rule find_first [OF so(2)])
      show "x \<in> set es'" using i(1,2) set by auto
      show "sees u s' x" using i same [of x] by auto
      fix d
      assume d: "d \<in> set es'" "sees u s' d"
      then have "d \<in> set es" using set ne by auto
      moreover from this have "sees u s d" using same d(2) by blast
      ultimately obtain j where j: "j < length es" "d = es ! j" "i \<le> j" using i(4) by (metis in_set_conv_nth not_le)
      then show "d = x \<or> entry_before x d"
        using sorted_wrt_nth_less [OF so(1), of i j] i(2) by (cases "i = j") auto
    qed
    then show ?thesis using Some by simp
  qed
  then show ?thesis using False by (simp add: view_def)
qed

text \<open>A database whose latest contents are \<open>xs\<close>.\<close>

definition db_rel :: "db \<Rightarrow> entry list \<Rightarrow> kv \<Rightarrow> bool" where
  "db_rel d es xs \<longleftrightarrow> holds (table (db_mem d)) es \<and> (\<forall>e \<in> set es. eseq e \<le> last_sequence d) \<and>
     writers_upper d = last_sequence d \<and> writers_lower d = last_sequence d + 1 \<and>
     bg_error d = OK \<and> kv_ok es (last_sequence d) xs"

primrec kv_apply :: "wb_op \<Rightarrow> kv \<Rightarrow> kv" where
  "kv_apply (WbPut k v) xs = kv_put k v xs"
| "kv_apply (WbDelete k) xs = kv_delete k xs"

lemma kv_apply_ok:
  assumes "kv_ok es s xs" and "\<And>u. view es' s' u = (if u = op_key op then
      (case key_type (fst (op_entry op sq)) of kTypeValue \<Rightarrow> Some (snd (op_entry op sq)) | kTypeDeletion \<Rightarrow> None)
    else view es s u)"
  shows "kv_ok es' s' (kv_apply op xs)"
  using assms by (cases op) (auto simp: kv_ok_def map_of_kv_put map_of_kv_delete sorted_kv_put sorted_kv_delete)

lemma holds_sorted: "holds l es \<Longrightarrow> sorted_wrt entry_before es"
  using holds_at_sorted by (auto simp: holds_def)

lemma DB_Write_correct:
  assumes rel: "db_rel d es xs" and op: "small_op op" and room: "unat (last_sequence d) + 2 \<le> 2 ^ 56 - 1"
  shows "\<exists>batch d' es'. wb_apply op WriteBatch_Clear = Inr batch \<and> DB_Write OK batch d = Inr (OK, d') \<and>
    db_rel d' es' (kv_apply op xs) \<and> set es' = insert (op_entry op (last_sequence d + 1)) (set es) \<and>
    list_grows (table (db_mem d)) (table (db_mem d')) \<and> last_sequence d' = last_sequence d + 2"
proof -
  let ?l = "last_sequence d" and ?e = "op_entry op (last_sequence d + 1)"
  obtain batch where b: "wb_apply op WriteBatch_Clear = Inr batch" "holds_batch [op] batch"
    using wb_apply_holds [OF holds_batch_Clear, of op] by auto
  have n: "WriteBatch_Count batch = Inr 1" using Count_batch [OF b(2)] by simp
  let ?b = "WriteBatch_SetSequence batch (?l + 1)"
  have sb: "holds_batch [op] ?b" "WriteBatch_Sequence ?b = Inr (?l + 1)"
    using holds_batch_SetSequence [OF b(2)] by auto
  have u: "unat (?l + 1) = unat ?l + 1" "unat (?l + 2) = unat ?l + 2"
    using seq_add(1) [of ?l 1] seq_add(1) [of ?l 2] room by auto
  have older: "\<forall>e \<in> set es. eseq e < ?l + 1"
    using rel u(1) by (auto simp: db_rel_def word_less_nat_alt word_le_nat_alt)
  obtain m es' where m: "insert_ops [op] (?l + 1) (db_mem d) = Inr (?l + 1 + 1, m)" "holds (table m) es'"
    "set es' = insert ?e (set es)" "list_grows (table (db_mem d)) (table m)"
  proof -
    have "holds (table (db_mem d)) es" "unat (?l + 1) + length [op] \<le> 2 ^ 56 - 1" "\<forall>o' \<in> set [op]. small_op o'"
      using rel room u(1) op by (auto simp: db_rel_def)
    from insert_ops_holds [OF this(1,3,2) older] obtain m es' where
      "insert_ops [op] (?l + 1) (db_mem d) = Inr (?l + 1 + of_nat (length [op]), m)" "holds (table m) es'"
      "set es' = set es \<union> ops_entries (?l + 1) [op]" "list_grows (table (db_mem d)) (table m)" by blast
    then show ?thesis using that [of m es'] by (simp add: ops_entries_def lessThan_Suc)
  qed
  have ins: "InsertInto ?b (db_mem d) = Inr (OK, m)"
    using sb Iterate_batch [OF sb(1)] op m(1) by (simp add: InsertInto_def)
  let ?d = "d\<lparr>db_mem := m, writers_upper := ?l + 2, last_sequence := ?l + 2, writers_lower := ?l + 3\<rparr>"
  have le: "?l \<le> ?l + 2" using u(2) by (simp add: word_le_nat_alt)
  have w: "DB_Write OK batch d = Inr (OK, ?d)"
    using rel n ins le
    by (simp add: DB_Write_def SequenceWriteBegin_def SequenceWriteEnd_def SetLastSequence_def db_rel_def Let_def)
  have "view es' (?l + 2) v = (if v = ukey ?e then
      (case key_type (fst ?e) of kTypeValue \<Rightarrow> Some (snd ?e) | kTypeDeletion \<Rightarrow> None) else view es ?l v)" for v
    using rel u by (intro view_newest [OF holds_sorted holds_sorted [OF m(2)] m(3)])
      (auto simp: db_rel_def word_less_nat_alt word_le_nat_alt)
  then have "kv_ok es' (?l + 2) (kv_apply op xs)"
    using kv_apply_ok [of es ?l xs es' "?l + 2" op "?l + 1"] rel by (simp add: db_rel_def)
  moreover have "\<forall>e \<in> set es'. eseq e \<le> ?l + 2"
    using rel le u unfolding m(3) by (auto simp: db_rel_def word_le_nat_alt)
  ultimately have "db_rel ?d es' (kv_apply op xs)" using m(2) rel by (simp add: db_rel_def add.commute)
  then show ?thesis using b(1) w m(3,4) by (intro exI [of _ batch] exI [of _ ?d] exI [of _ es'] conjI) simp_all
qed

section \<open>The iterator of the database\<close>

definition it_rel :: "db \<Rightarrow> entry list \<Rightarrow> nat option dbiter \<Rightarrow> kv \<Rightarrow> byte list option \<Rightarrow> bool" where
  "it_rel d es it xs k \<longleftrightarrow> mi.denotes (db_mem d) es it k \<and> kv_ok es (snapshot it) xs \<and>
     snapshot it \<le> last_sequence d \<and> snapshot it \<le> kMaxSequenceNumber"

lemma it_fuel_enough:
  assumes "holds (table (db_mem d)) es"
  shows "length es < it_fuel d"
proof -
  obtain xs where xs: "holds_at (table (db_mem d)) xs es" using assms by (auto simp: holds_def)
  then have "sl_rep (table (db_mem d)) xs" by (simp add: holds_at_def tm.sl_sorted_def)
  from rep_length [OF this] show ?thesis using holds_at_length [OF xs] by (simp add: it_fuel_def)
qed

lemma DB_NewIterator_correct:
  assumes "db_rel d es xs" and "last_sequence d \<le> kMaxSequenceNumber" and "DB_NewIterator d = (it, d')"
  shows "db_rel d' es xs" and "it_rel d' es it xs None" and "last_sequence d' = last_sequence d"
    and "db_mem d' = db_mem d"
proof -
  obtain c r where it: "it = \<lparr>cursor = None, snapshot = last_sequence d, di_status = OK, saved_key = [],
      saved_value = [], di_direction = kForward, di_valid = False, di_rnd = r, bytes_counter = c, samples = []\<rparr>"
    "RandomPeriod (new_Random (db_seed d + 1)) = (c, r)" and d': "d' = d\<lparr>db_seed := db_seed d + 1\<rparr>"
    using assms(3) by (auto simp: DB_NewIterator_def new_DBIter_def Let_def split: prod.splits)
  have r: "r = Random_Next (new_Random (db_seed d + 1))" using it(2) by (simp add: RandomPeriod_value)
  have "0 < unat (new_Random x) \<and> unat (new_Random x) < 2147483647" for x
  proof -
    have m: "x AND 0x7fffffff = take_bit 31 x" unfolding take_bit_eq_mask mask_eq_exp_minus_1 by simp
    have "unat (take_bit 31 x) < 2 ^ 31" unfolding unsigned_take_bit_eq by (rule take_bit_nat_less_exp)
    then show ?thesis unfolding new_Random_def Let_def m
      by (auto simp: word_unat_eq_iff [of "take_bit 31 x" 0] word_unat_eq_iff [of "take_bit 31 x" 2147483647])
  qed
  then have "seed_ok it" using Random_Next_lehmer(2,3) unfolding seed_ok_def it(1) r by simp
  then show "it_rel d' es it xs None"
    using assms(1,2) unfolding it_rel_def mi.denotes_def d' it(1) by (simp add: db_rel_def)
  show "db_rel d' es xs" "last_sequence d' = last_sequence d" "db_mem d' = db_mem d"
    using assms(1) unfolding d' by (simp_all add: db_rel_def)
qed

text \<open>The moves of an iterator, as places in the sorted list.\<close>

lemma db_moves:
  assumes rel: "db_rel d es xs" and it: "it_rel d es it ys k"
  shows "length target < 2 ^ 31 \<Longrightarrow>
      \<exists>it'. db_Seek d target it = Inr it' \<and> it_rel d es it' ys (first_with (\<lambda>u. target \<le> u) ys)"
    and "\<exists>it'. db_SeekToFirst d it = Inr it' \<and> it_rel d es it' ys (first_with (\<lambda>u. True) ys)"
    and "\<exists>it'. db_SeekToLast d it = Inr it' \<and> it_rel d es it' ys (first_with (\<lambda>u. True) (rev ys))"
    and "k = Some w \<Longrightarrow> \<exists>it'. db_Next d it = Inr it' \<and> it_rel d es it' ys (first_with (\<lambda>u. w < u) ys)"
    and "k = Some w \<Longrightarrow> \<exists>it'. db_Prev d it = Inr it' \<and> it_rel d es it' ys (first_with (\<lambda>u. u < w) (rev ys))"
proof -
  have rep: "mem_rep (db_mem d) es" and fuel: "length es < it_fuel d"
    using rel it_fuel_enough by (auto simp: db_rel_def mem_rep_def)
  have dn: "mi.denotes (db_mem d) es it k" and kv: "kv_ok es (snapshot it) ys"
    and sn: "snapshot it \<le> last_sequence d" "snapshot it \<le> kMaxSequenceNumber"
    using it by (auto simp: it_rel_def)
  have sd: "seed_ok it" using dn by (simp add: mi.denotes_def)
  have next_rel: "it_rel d es it' ys (first_with (\<lambda>u. \<not> D u) ys)"
    if "mi.denotes (db_mem d) es it' k'" "is_next es (snapshot it) D k'" "snapshot it' = snapshot it" for it' k' D
    using that kv sn is_next_first [OF kv that(2)] by (simp add: it_rel_def)
  have prev_rel: "it_rel d es it' ys (first_with (\<lambda>u. \<not> D u) (rev ys))"
    if "mi.denotes (db_mem d) es it' k'" "is_prev es (snapshot it) D k'" "snapshot it' = snapshot it" for it' k' D
    using that kv sn is_prev_first [OF kv that(2)] by (simp add: it_rel_def)
  show "\<exists>it'. db_Seek d target it = Inr it' \<and> it_rel d es it' ys (first_with (\<lambda>u. target \<le> u) ys)"
    if t: "length target < 2 ^ 31"
    using mi.DBIter_Seek_correct [OF rep sd t sn(2), of "it_fuel d"] fuel next_rel [where D = "\<lambda>w. w < target"]
    by (auto simp: not_less)
  show "\<exists>it'. db_SeekToFirst d it = Inr it' \<and> it_rel d es it' ys (first_with (\<lambda>u. True) ys)"
    using mi.DBIter_SeekToFirst_correct [OF rep sd, of "it_fuel d"] fuel next_rel [where D = "\<lambda>w. False"] by auto
  show "\<exists>it'. db_SeekToLast d it = Inr it' \<and> it_rel d es it' ys (first_with (\<lambda>u. True) (rev ys))"
    using mi.DBIter_SeekToLast_correct [OF rep sd, of "it_fuel d"] fuel prev_rel [where D = "\<lambda>w. False"] by auto
  show "\<exists>it'. db_Next d it = Inr it' \<and> it_rel d es it' ys (first_with (\<lambda>u. w < u) ys)" if k: "k = Some w"
    using mi.DBIter_Next_correct [OF rep dn [unfolded k], of "it_fuel d"] fuel next_rel [where D = "\<lambda>u. u \<le> w"]
    by (auto simp: not_le)
  show "\<exists>it'. db_Prev d it = Inr it' \<and> it_rel d es it' ys (first_with (\<lambda>u. u < w) (rev ys))" if k: "k = Some w"
    using mi.DBIter_Prev_correct [OF rep dn [unfolded k], of "it_fuel d"] fuel prev_rel [where D = "\<lambda>u. w \<le> u"]
    by (auto simp: not_le)
qed

lemma db_read:
  assumes rel: "db_rel d es xs" and it: "it_rel d es it ys k"
  shows "di_valid it \<longleftrightarrow> k \<noteq> None"
    and "k = Some u \<Longrightarrow> db_key d it = Inr u \<and> db_value d it = Inr (the (map_of ys u)) \<and> map_of ys u \<noteq> None"
proof -
  have rep: "mem_rep (db_mem d) es" using rel by (auto simp: db_rel_def mem_rep_def)
  have dn: "mi.denotes (db_mem d) es it k" and kv: "kv_ok es (snapshot it) ys" using it by (auto simp: it_rel_def)
  show "di_valid it \<longleftrightarrow> k \<noteq> None" using dn by (auto simp: mi.denotes_def split: option.splits)
  show "db_key d it = Inr u \<and> db_value d it = Inr (the (map_of ys u)) \<and> map_of ys u \<noteq> None" if k: "k = Some u"
    using mi.DBIter_read [OF rep dn [unfolded k]] kv by (auto simp: kv_ok_def)
qed

lemma kv_unchanged:
  assumes "sorted_wrt entry_before es" and "sorted_wrt entry_before es'" and "set es' = insert e (set es)"
    and "\<not> eseq e \<le> s" and "kv_ok es s ys"
  shows "kv_ok es' s ys"
proof -
  have "find (sees u s) es' = find (sees u s) es" for u
    using mi.find_grows [OF assms(1,2), of s u] assms(3,4) by auto
  then show ?thesis using assms(5) by (simp add: kv_ok_def view_def)
qed

lemma it_rel_write:
  assumes rel: "db_rel d es xs" and rel': "db_rel d' es' xs'" and it: "it_rel d es it ys k"
    and set: "set es' = insert (op_entry op (last_sequence d + 1)) (set es)"
    and g: "list_grows (table (db_mem d)) (table (db_mem d'))" and l: "last_sequence d' = last_sequence d + 2"
    and room: "unat (last_sequence d) + 2 \<le> 2 ^ 56 - 1"
  shows "it_rel d' es' it ys k"
proof -
  have u: "unat (last_sequence d + 1) = unat (last_sequence d) + 1" "unat (last_sequence d + 2) = unat (last_sequence d) + 2"
    using seq_add(1) [of "last_sequence d" 1] seq_add(1) [of "last_sequence d" 2] room by auto
  have new: "\<not> last_sequence d + 1 \<le> snapshot it" using it u(1) by (auto simp: it_rel_def word_le_nat_alt)
  have so: "sorted_wrt entry_before es" "sorted_wrt entry_before es'"
    using rel rel' holds_sorted by (auto simp: db_rel_def)
  have "kv_ok es' (snapshot it) ys"
    by (rule kv_unchanged [OF so set]) (use new it in \<open>auto simp: it_rel_def\<close>)
  moreover have "mi.denotes (db_mem d') es' it k"
  proof (rule mi.denotes_grows)
    show "mem_rep (db_mem d) es" "mem_rep (db_mem d') es'" using rel rel' by (auto simp: db_rel_def mem_rep_def)
    show "mem_grows (db_mem d) (db_mem d')" using g by (simp add: mem_grows_def)
    show "set es \<subseteq> set es'" using set by auto
    show "\<not> eseq e \<le> snapshot it" if "e \<in> set es'" "e \<notin> set es" for e
    proof -
      have "e = op_entry op (last_sequence d + 1)" using that set by auto
      then show ?thesis using new by simp
    qed
    show "mi.denotes (db_mem d) es it k" using it by (simp add: it_rel_def)
  qed
  moreover have "snapshot it \<le> last_sequence d'"
    using it u(2) l by (auto simp: it_rel_def word_le_nat_alt)
  ultimately show ?thesis using it by (simp add: it_rel_def)
qed

section \<open>Refinement\<close>

primrec small_step :: "store_step \<Rightarrow> bool" where
  "small_step (SPut k v) \<longleftrightarrow> length k < 2 ^ 31 \<and> length v < 2 ^ 31"
| "small_step (SDelete k) \<longleftrightarrow> length k < 2 ^ 31"
| "small_step (SGet k) \<longleftrightarrow> length k < 2 ^ 31"
| "small_step SIter \<longleftrightarrow> True"
| "small_step (SSeek k) \<longleftrightarrow> length k < 2 ^ 31"
| "small_step SFirst \<longleftrightarrow> True"
| "small_step SLast \<longleftrightarrow> True"
| "small_step SNext \<longleftrightarrow> True"
| "small_step SPrev \<longleftrightarrow> True"

definition state_rel :: "db \<times> nat option dbiter \<Rightarrow> kv_state \<Rightarrow> bool" where
  "state_rel c p \<longleftrightarrow> (\<exists>es. db_rel (fst c) es (kv_now p) \<and> it_rel (fst c) es (snd c) (kv_snap p) (kv_place p))"

lemma DB_Get_correct:
  assumes rel: "db_rel d es xs" and "length k < 2 ^ 31" and "last_sequence d \<le> kMaxSequenceNumber"
  shows "DB_Get k d = Inr (case map_of xs k of None \<Rightarrow> Inl NotFound | Some v \<Rightarrow> Inr v)"
proof -
  have h: "holds (table (db_mem d)) es" and kv: "map_of xs k = view es (last_sequence d) k"
    using rel by (auto simp: db_rel_def kv_ok_def)
  obtain mk where "LookupKey k (last_sequence d) = Inr mk"
    "MemTable_Get mk k (db_mem d) = Inr (map_option found (find (sees k (last_sequence d)) es))"
    using MemTable_Get_holds [OF h assms(3,2)] by blast
  then show ?thesis
    by (auto simp: DB_Get_def kv view_def found_def split: option.splits ValueType.splits)
qed

lemma write_step:
  assumes rel: "state_rel c p" and op: "small_op op" and room: "unat (last_sequence (fst c)) + 2 \<le> 2 ^ 56 - 1"
  shows "\<exists>batch d'. wb_apply op WriteBatch_Clear = Inr batch \<and> DB_Write OK batch (fst c) = Inr (OK, d') \<and>
    state_rel (d', snd c) (p\<lparr>kv_now := kv_apply op (kv_now p)\<rparr>) \<and> last_sequence d' = last_sequence (fst c) + 2"
proof -
  obtain es where r: "db_rel (fst c) es (kv_now p)" "it_rel (fst c) es (snd c) (kv_snap p) (kv_place p)"
    using rel by (auto simp: state_rel_def)
  from DB_Write_correct [OF r(1) op room] obtain batch d' es' where
    w: "wb_apply op WriteBatch_Clear = Inr batch" "DB_Write OK batch (fst c) = Inr (OK, d')"
    "db_rel d' es' (kv_apply op (kv_now p))" "set es' = insert (op_entry op (last_sequence (fst c) + 1)) (set es)"
    "list_grows (table (db_mem (fst c))) (table (db_mem d'))" "last_sequence d' = last_sequence (fst c) + 2" by blast
  have "it_rel d' es' (snd c) (kv_snap p) (kv_place p)"
    by (rule it_rel_write [OF r(1) w(3) r(2) w(4-6) room])
  then show ?thesis using w by (auto simp: state_rel_def)
qed

lemma moved_step:
  assumes rel: "db_rel d es (kv_now p)" and r: "r = Inr it'" and it: "it_rel d es it' (kv_snap p) k"
  shows "\<exists>c'. moved d r = Inr (fst (kv_read p k), c') \<and> state_rel c' (snd (kv_read p k)) \<and> fst c' = d"
proof -
  have "read_it d it' = Inr (case k of None \<Rightarrow> Nowhere | Some u \<Rightarrow> Found u (the (map_of (kv_snap p) u)))"
    using db_read [OF rel it] by (cases k) (auto simp: read_it_def)
  then show ?thesis using r rel it by (auto simp: moved_def kv_read_def state_rel_def)
qed

lemma do_step_refines:
  assumes rel: "state_rel c p" and small: "small_step st" and room: "unat (last_sequence (fst c)) + 2 \<le> 2 ^ 56 - 1"
  shows "case kv_step st p of
      Inl e \<Rightarrow> do_step st c = Inl e
    | Inr (xs, p') \<Rightarrow> \<exists>c'. do_step st c = Inr (xs, c') \<and> state_rel c' p' \<and>
        unat (last_sequence (fst c')) \<le> unat (last_sequence (fst c)) + 2"
proof -
  obtain es where r: "db_rel (fst c) es (kv_now p)" "it_rel (fst c) es (snd c) (kv_snap p) (kv_place p)"
    using rel by (auto simp: state_rel_def)
  have l2: "unat (last_sequence (fst c) + 2) = unat (last_sequence (fst c)) + 2"
    using seq_add(1) [of "last_sequence (fst c)" 2] room by simp
  note mv = db_moves [OF r]
  have go: "\<exists>c'. moved (fst c) x = Inr (fst (kv_read p k), c') \<and> state_rel c' (snd (kv_read p k)) \<and>
      unat (last_sequence (fst c')) \<le> unat (last_sequence (fst c)) + 2"
    if x: "\<exists>it'. x = Inr it' \<and> it_rel (fst c) es it' (kv_snap p) k" for x k
  proof -
    obtain it' where "x = Inr it'" "it_rel (fst c) es it' (kv_snap p) k" using x by blast
    from moved_step [OF r(1) this] show ?thesis by fastforce
  qed
  have stuck: "\<not> di_valid (snd c)" if "kv_place p = None" using db_read(1) [OF r] that by simp
  show ?thesis
  proof (cases st)
    case (SPut k v)
    then show ?thesis using write_step [OF rel, of "WbPut k v"] small room l2 by (auto simp: DB_Put_def)
  next
    case (SDelete k)
    then show ?thesis using write_step [OF rel, of "WbDelete k"] small room l2 by (auto simp: DB_Delete_def)
  next
    case (SGet k)
    have "last_sequence (fst c) \<le> kMaxSequenceNumber" using seq_add(2) [of "last_sequence (fst c)" 0] room by simp
    then show ?thesis using DB_Get_correct [OF r(1), of k] SGet small rel by (auto split: option.splits)
  next
    case SIter
    obtain it d where n: "DB_NewIterator (fst c) = (it, d)" by fastforce
    have "last_sequence (fst c) \<le> kMaxSequenceNumber" using seq_add(2) [of "last_sequence (fst c)" 0] room by simp
    from DB_NewIterator_correct [OF r(1) this n]
    have "state_rel (d, it) (p\<lparr>kv_snap := kv_now p, kv_place := None\<rparr>)" "last_sequence d = last_sequence (fst c)"
      by (auto simp: state_rel_def)
    then show ?thesis using SIter n by auto
  next
    case (SSeek k)
    then show ?thesis using go [OF mv(1)] small by (auto simp: case_prod_unfold)
  next
    case SFirst
    then show ?thesis using go [OF mv(2)] by (auto simp: case_prod_unfold)
  next
    case SLast
    then show ?thesis using go [OF mv(3)] by (auto simp: case_prod_unfold)
  next
    case SNext
    show ?thesis
    proof (cases "kv_place p")
      case None
      then show ?thesis using SNext stuck by (simp add: moved_def DBIter_Next_def)
    next
      case (Some w)
      then show ?thesis using SNext go [OF mv(4) [OF Some]] by (auto simp: case_prod_unfold)
    qed
  next
    case SPrev
    show ?thesis
    proof (cases "kv_place p")
      case None
      then show ?thesis using SPrev stuck by (simp add: moved_def DBIter_Prev_def)
    next
      case (Some w)
      then show ?thesis using SPrev go [OF mv(5) [OF Some]] by (auto simp: case_prod_unfold)
    qed
  qed
qed

lemma store_run_refines:
  assumes "state_rel c p" and "\<forall>st \<in> set sts. small_step st"
    and "unat (last_sequence (fst c)) + 2 * length sts \<le> 2 ^ 56 - 1"
  shows "store_run sts c = kv_run sts p"
  using assms
proof (induction sts arbitrary: c p)
  case (Cons st sts)
  have step: "case kv_step st p of
      Inl e \<Rightarrow> do_step st c = Inl e
    | Inr (xs, p') \<Rightarrow> \<exists>c'. do_step st c = Inr (xs, c') \<and> state_rel c' p' \<and>
        unat (last_sequence (fst c')) \<le> unat (last_sequence (fst c)) + 2"
    using Cons.prems by (intro do_step_refines) auto
  show ?case
  proof (cases "kv_step st p")
    case (Inl e)
    then show ?thesis using step by simp
  next
    case (Inr r)
    obtain xs p' where r: "r = (xs, p')" by fastforce
    from step obtain c' where c': "do_step st c = Inr (xs, c')" "state_rel c' p'"
      "unat (last_sequence (fst c')) \<le> unat (last_sequence (fst c)) + 2"
      unfolding Inr r by auto
    have "store_run sts c' = kv_run sts p'" using Cons.IH [OF c'(2)] Cons.prems(2,3) c'(3) by simp
    then show ?thesis using c'(1) Inr r by simp
  qed
qed simp

lemma db_rel_Open: "DB_Open OK = Inr d \<Longrightarrow> db_rel d [] [] \<and> last_sequence d = 0"
  using holds_new by (auto simp: DB_Open_def new_MemTable_def db_rel_def kv_ok_def view_def)

text \<open>C34: A fresh database refines a sorted list of keys and values: every program of puts,
  deletions, lookups and moves of an iterator over it reads what the same program reads from a
  list in which a put replaces the value at its key, a deletion removes the key, and a new
  iterator walks, forwards and backwards with any change of direction, over the list as it was
  when it was taken, whatever is written later.  A move of an iterator that stands nowhere fails
  its assertion in both.\<close>

theorem store_refines:
  assumes "\<forall>st \<in> set sts. small_step st" and "2 * length sts \<le> 2 ^ 56 - 1"
  shows "open_run OK sts = kv_run sts \<lparr>kv_now = [], kv_snap = [], kv_place = None\<rparr>"
proof -
  obtain d where d: "DB_Open OK = Inr d" by (auto simp: DB_Open_def)
  obtain it d' where n: "DB_NewIterator d = (it, d')" by fastforce
  have "db_rel d [] []" "last_sequence d = 0" "last_sequence d \<le> kMaxSequenceNumber" using db_rel_Open [OF d] by auto
  from DB_NewIterator_correct [OF this(1,3) n] this(2)
  have "state_rel (d', it) \<lparr>kv_now = [], kv_snap = [], kv_place = None\<rparr>" "last_sequence d' = 0"
    by (auto simp: state_rel_def)
  from store_run_refines [OF this(1) assms(1)] this(2) assms(2) show ?thesis by (simp add: open_run_def d n)
qed

theorem store_refines_witness:
  "let sts = [SPut [1] [9], SPut [2] [8], SIter, SFirst, SDelete [2], SNext, SGet [2], SPrev, SPrev]
   in (\<forall>st \<in> set sts. small_step st) \<and> 2 * length sts \<le> 2 ^ 56 - 1 \<and>
      open_run OK sts = Inr [Found [1] [9], Found [2] [8], Got None, Found [1] [9], Nowhere]"
  using store_refines [of "[SPut [1] [9], SPut [2] [8], SIter, SFirst, SDelete [2], SNext, SGet [2], SPrev, SPrev]"]
  by (simp add: kv_read_def first_with_def)

section \<open>Several writers\<close>

text \<open>Writers run at the same time: each takes its tickets, then inserts its batch, then waits
  for its turn and makes its numbers visible.  A run is the list of its events, latest first.\<close>

datatype phase = Begun | Inserted | Ended

datatype write_event = WBegin "byte list" | WInsert nat | WEnd nat

inductive writers_run :: "write_event list \<Rightarrow> db \<Rightarrow> (writer \<times> phase) list \<Rightarrow> bool" where
  wr_open: "DB_Open OK = Inr d \<Longrightarrow> writers_run [] d []"
| wr_begin: "writers_run evs d ws \<Longrightarrow> SequenceWriteBegin u d = Inr (s, w, d') \<Longrightarrow>
    writers_run (WBegin u # evs) d' (ws @ [(w, Begun)])"
| wr_insert: "writers_run evs d ws \<Longrightarrow> i < length ws \<Longrightarrow> ws ! i = (w, Begun) \<Longrightarrow>
    writers_run (WInsert i # evs) d (ws[i := (w, Inserted)])"
| wr_end: "writers_run evs d ws \<Longrightarrow> i < length ws \<Longrightarrow> ws ! i = (w, Inserted) \<Longrightarrow>
    SequenceWriteEnd w d = Inr d' \<Longrightarrow> writers_run (WEnd i # evs) d' (ws[i := (w, Ended)])"

primrec tickets :: "write_event \<Rightarrow> nat" where
  "tickets (WBegin u) = (case WriteBatch_Count u of Inl _ \<Rightarrow> 0 | Inr n \<Rightarrow> nat (n + 1))"
| "tickets (WInsert i) = 0"
| "tickets (WEnd i) = 0"

definition counted :: "write_event \<Rightarrow> bool" where
  "counted e \<longleftrightarrow> (\<forall>u n. e = WBegin u \<longrightarrow> WriteBatch_Count u = Inr n \<longrightarrow> 0 \<le> n)"

text \<open>Writers whose numbers follow each other, from \<open>a\<close> to \<open>b\<close>.\<close>

fun chain :: "nat \<Rightarrow> (writer \<times> phase) list \<Rightarrow> nat \<Rightarrow> bool" where
  "chain a [] b \<longleftrightarrow> a = b"
| "chain a ((w, p) # ws) b \<longleftrightarrow> linked w \<and> unat (start_sequence w) = a + 1 \<and>
     start_sequence w \<le> end_sequence w \<and> chain (unat (end_sequence w)) ws b"

lemma chain_append: "chain a (xs @ ys) b \<longleftrightarrow> (\<exists>m. chain a xs m \<and> chain m ys b)"
  by (induction a xs b rule: chain.induct) auto

lemma chain_bounds: "chain a ws b \<Longrightarrow>
    a \<le> b \<and> (\<forall>(w, p) \<in> set ws. a < unat (start_sequence w) \<and> unat (start_sequence w) \<le> unat (end_sequence w) \<and>
      unat (end_sequence w) \<le> b)"
  by (induction a ws b rule: chain.induct) (fastforce simp: word_le_nat_alt)+

lemma chain_phase: "chain a (xs @ (w, p) # ys) b \<longleftrightarrow> chain a (xs @ (w, q) # ys) b"
  by (simp add: chain_append)

definition writers_inv :: "db \<Rightarrow> (writer \<times> phase) list \<Rightarrow> bool" where
  "writers_inv d ws \<longleftrightarrow> bg_error d = OK \<and> unat (writers_lower d) = unat (last_sequence d) + 1 \<and>
     (\<exists>done todo. ws = done @ todo \<and> (\<forall>x \<in> set done. snd x = Ended) \<and> (\<forall>x \<in> set todo. snd x \<noteq> Ended) \<and>
       chain 0 done (unat (last_sequence d)) \<and> chain (unat (last_sequence d)) todo (unat (writers_upper d)))"

lemma inv_begin:
  assumes inv: "writers_inv d ws" and step: "SequenceWriteBegin u d = Inr (s, w, d')"
    and n: "WriteBatch_Count u = Inr n" "0 \<le> n" and room: "unat (writers_upper d) + nat (n + 1) < 2 ^ 64"
  shows "writers_inv d' (ws @ [(w, Begun)])" and "unat (writers_upper d') = unat (writers_upper d) + nat (n + 1)"
proof -
  let ?t = "writers_upper d + (1 + of_int n)"
  have d': "d' = d\<lparr>writers_upper := ?t\<rparr>" and w: "linked w" "start_sequence w = ?t - of_int n" "end_sequence w = ?t"
    using inv step n(1) by (auto simp: SequenceWriteBegin_def writers_inv_def Let_def)
  have nn: "(of_int n :: u64) = of_nat (nat n)" using n(2) by simp
  have ut: "unat ?t = unat (writers_upper d) + nat (n + 1)"
  proof -
    have "?t = of_nat (unat (writers_upper d) + nat (n + 1))" using n(2) unfolding nn by simp
    then show ?thesis using room by (simp only: unsigned_of_nat take_bit_nat_eq_self) (simp add: take_bit_nat_eq_self)
  qed
  have us: "unat (?t - of_int n) = unat (writers_upper d) + 1"
  proof -
    have "?t - of_int n = of_nat (unat (writers_upper d) + 1)" by simp
    then show ?thesis using room n(2) by (simp only: unsigned_of_nat) (simp add: take_bit_nat_eq_self nat_add_distrib)
  qed
  show "unat (writers_upper d') = unat (writers_upper d) + nat (n + 1)" using ut d' by simp
  obtain don todo where p: "ws = don @ todo" "\<forall>x \<in> set don. snd x = Ended" "\<forall>x \<in> set todo. snd x \<noteq> Ended"
    "chain 0 don (unat (last_sequence d))" "chain (unat (last_sequence d)) todo (unat (writers_upper d))"
    using inv by (auto simp: writers_inv_def)
  have "start_sequence w \<le> end_sequence w" using n(2) unfolding w word_le_nat_alt us ut by simp
  then have "chain (unat (last_sequence d)) (todo @ [(w, Begun)]) (unat ?t)"
    unfolding chain_append using p(5) w us by auto
  then show "writers_inv d' (ws @ [(w, Begun)])"
    using inv p(1-4) unfolding writers_inv_def d'
    by (intro conjI exI [of _ don] exI [of _ "todo @ [(w, Begun)]"]) auto
qed

lemma inv_insert:
  assumes inv: "writers_inv d ws" and i: "i < length ws" "ws ! i = (w, Begun)"
  shows "writers_inv d (ws[i := (w, Inserted)])"
proof -
  obtain don todo where p: "ws = don @ todo" "\<forall>x \<in> set don. snd x = Ended" "\<forall>x \<in> set todo. snd x \<noteq> Ended"
    "chain 0 don (unat (last_sequence d))" "chain (unat (last_sequence d)) todo (unat (writers_upper d))"
    using inv by (auto simp: writers_inv_def)
  have ge: "\<not> i < length don"
  proof
    assume "i < length don"
    then have "(w, Begun) \<in> set don" using i p(1) by (metis nth_append nth_mem)
    then show False using p(2) by auto
  qed
  let ?j = "i - length don"
  have j: "?j < length todo" "todo ! ?j = (w, Begun)" using ge i p(1) by (auto simp: nth_append)
  then have split: "todo = take ?j todo @ (w, Begun) # drop (Suc ?j) todo" by (metis id_take_nth_drop)
  have new: "todo[?j := (w, Inserted)] = take ?j todo @ (w, Inserted) # drop (Suc ?j) todo"
    using j(1) by (simp add: upd_conv_take_nth_drop)
  have "chain (unat (last_sequence d)) (todo[?j := (w, Inserted)]) (unat (writers_upper d))"
    using p(5) split chain_phase [of _ "take ?j todo" w Begun] unfolding new by metis
  moreover have "ws[i := (w, Inserted)] = don @ todo[?j := (w, Inserted)]" using ge p(1) by (simp add: list_update_append)
  moreover have "\<forall>x \<in> set (todo[?j := (w, Inserted)]). snd x \<noteq> Ended"
    using p(3) set_update_subset_insert [of todo ?j "(w, Inserted)"] by fastforce
  ultimately show ?thesis using inv p(2,4) unfolding writers_inv_def by blast
qed

text \<open>Only the writer whose turn it is can end, and it keeps the assertion of \<open>SetLastSequence\<close>.\<close>

lemma turn:
  assumes "chain (unat (last_sequence d)) ((w, p) # todo) b" and "b + 1 < 2 ^ 64"
    and "unat (writers_lower d) = unat (last_sequence d) + 1"
  shows "SequenceWriteEnd w d = Inr (d\<lparr>last_sequence := end_sequence w, writers_lower := end_sequence w + 1\<rparr>)"
    and "unat (end_sequence w + 1) = unat (end_sequence w) + 1"
proof -
  have w: "linked w" "unat (start_sequence w) = unat (last_sequence d) + 1" "unat (start_sequence w) \<le> unat (end_sequence w)"
    "unat (end_sequence w) \<le> b"
    using assms(1) chain_bounds [of "unat (end_sequence w)" todo b] by (auto simp: word_le_nat_alt)
  have "writers_lower d = start_sequence w" using w(2) assms(3) by (simp add: word_unat_eq_iff)
  then show "SequenceWriteEnd w d = Inr (d\<lparr>last_sequence := end_sequence w, writers_lower := end_sequence w + 1\<rparr>)"
    using w by (simp add: SequenceWriteEnd_def SetLastSequence_def word_le_nat_alt)
  show "unat (end_sequence w + 1) = unat (end_sequence w) + 1"
    using w(4) assms(2) unat_add_lem [of "end_sequence w" 1] by simp
qed

lemma inv_end:
  assumes inv: "writers_inv d ws" and i: "i < length ws" "ws ! i = (w, Inserted)"
    and step: "SequenceWriteEnd w d = Inr d'" and room: "unat (writers_upper d) + 1 < 2 ^ 64"
  shows "writers_inv d' (ws[i := (w, Ended)])" and "writers_upper d' = writers_upper d"
proof -
  obtain don todo where p: "ws = don @ todo" "\<forall>x \<in> set don. snd x = Ended" "\<forall>x \<in> set todo. snd x \<noteq> Ended"
    "chain 0 don (unat (last_sequence d))" "chain (unat (last_sequence d)) todo (unat (writers_upper d))"
    and low: "unat (writers_lower d) = unat (last_sequence d) + 1"
    using inv by (auto simp: writers_inv_def)
  have ge: "\<not> i < length don"
  proof
    assume "i < length don"
    then have "(w, Inserted) \<in> set don" using i p(1) by (metis nth_append nth_mem)
    then show False using p(2) by auto
  qed
  have mem: "(w, Inserted) = todo ! (i - length don)" "i - length don < length todo" using ge i p(1) by (auto simp: nth_append)
  then obtain v q rest where todo: "todo = (v, q) # rest" by (cases todo) auto
  have first: "i = length don"
  proof (rule ccontr)
    assume "i \<noteq> length don"
    then have "(w, Inserted) \<in> set rest" using mem ge todo by (cases "i - length don") auto
    then have "unat (end_sequence v) < unat (start_sequence w)" "linked w"
      using p(5) chain_bounds [of "unat (end_sequence v)" rest "unat (writers_upper d)"] unfolding todo
      by (auto dest!: split_list simp: chain_append)
    moreover have "unat (last_sequence d) + 1 \<le> unat (end_sequence v)" using p(5) unfolding todo by (auto simp: word_le_nat_alt)
    ultimately have "writers_lower d < start_sequence w" using low by (simp add: word_less_nat_alt)
    then show False using step \<open>linked w\<close> by (simp add: SequenceWriteEnd_def)
  qed
  then have v: "todo = (w, Inserted) # rest" using mem todo by simp
  note t = turn [OF p(5) [unfolded v] room low]
  have d': "d' = d\<lparr>last_sequence := end_sequence w, writers_lower := end_sequence w + 1\<rparr>" using t(1) step by simp
  then show "writers_upper d' = writers_upper d" by simp
  have "ws[i := (w, Ended)] = (don @ [(w, Ended)]) @ rest" using first p(1) v by (simp add: list_update_append)
  moreover have "chain 0 (don @ [(w, Ended)]) (unat (end_sequence w))" using p(4,5) unfolding v chain_append by auto
  ultimately show "writers_inv d' (ws[i := (w, Ended)])"
    using inv p(2,3,5) t(2) unfolding writers_inv_def d' v
    by (intro conjI exI [of _ "don @ [(w, Ended)]"] exI [of _ rest]) auto
qed

lemma writers_run_inv:
  assumes "writers_run evs d ws" and "\<forall>e \<in> set evs. counted e" and "sum_list (map tickets evs) + 1 < 2 ^ 64"
  shows "writers_inv d ws \<and> unat (writers_upper d) = sum_list (map tickets evs)"
  using assms
proof (induction rule: writers_run.induct)
  case (wr_open d)
  then show ?case by (auto simp: DB_Open_def writers_inv_def)
next
  case (wr_begin evs d ws u s w d')
  then have inv: "writers_inv d ws" "unat (writers_upper d) = sum_list (map tickets evs)" by auto
  obtain n where n: "WriteBatch_Count u = Inr n"
    using wr_begin.hyps(2) inv(1) by (auto simp: SequenceWriteBegin_def writers_inv_def elim!: bind_res_Inr_E)
  then have "0 \<le> n" "unat (writers_upper d) + nat (n + 1) < 2 ^ 64" using wr_begin.prems inv(2) by (auto simp: counted_def)
  from inv_begin [OF inv(1) wr_begin.hyps(2) n this] show ?case using inv(2) n by simp
next
  case (wr_insert evs d ws i w)
  then show ?case using inv_insert [of d ws i w] by simp
next
  case (wr_end evs d ws i w d')
  then have "unat (writers_upper d) + 1 < 2 ^ 64" by simp
  then show ?case using inv_end [OF _ wr_end.hyps(2-4)] wr_end by simp
qed



end
