(* ===== verification/Sha256.thy ===== *)
theory Sha256
  imports Complex_Main Prelude
begin

text \<open>
  The SHA-256 of OpenSSL, with which the ids of sessions are computed
  (\<^verbatim>\<open>src/ext/openssl/src/crypto/sha/sha256.c\<close> and \<^verbatim>\<open>src/ext/openssl/src/crypto/md32_common.h\<close>),
  as compiled from C for a little-endian machine, and that it computes the function of FIPS 180.

  The code is not the standard's text: the eight working variables are never moved (the macros
  are called with their names rotated instead), the message schedule lives in a circular buffer
  of 16 words, and a message may arrive in pieces of any length.
\<close>

section \<open>The compression of blocks\<close>

definition K256 :: "u32 list" where
  "K256 = concat
     [[0x428a2f98, 0x71374491, 0xb5c0fbcf, 0xe9b5dba5],
      [0x3956c25b, 0x59f111f1, 0x923f82a4, 0xab1c5ed5],
      [0xd807aa98, 0x12835b01, 0x243185be, 0x550c7dc3],
      [0x72be5d74, 0x80deb1fe, 0x9bdc06a7, 0xc19bf174],
      [0xe49b69c1, 0xefbe4786, 0x0fc19dc6, 0x240ca1cc],
      [0x2de92c6f, 0x4a7484aa, 0x5cb0a9dc, 0x76f988da],
      [0x983e5152, 0xa831c66d, 0xb00327c8, 0xbf597fc7],
      [0xc6e00bf3, 0xd5a79147, 0x06ca6351, 0x14292967],
      [0x27b70a85, 0x2e1b2138, 0x4d2c6dfc, 0x53380d13],
      [0x650a7354, 0x766a0abb, 0x81c2c92e, 0x92722c85],
      [0xa2bfe8a1, 0xa81a664b, 0xc24b8b70, 0xc76c51a3],
      [0xd192e819, 0xd6990624, 0xf40e3585, 0x106aa070],
      [0x19a4c116, 0x1e376c08, 0x2748774c, 0x34b0bcb5],
      [0x391c0cb3, 0x4ed8aa4a, 0x5b9cca4f, 0x682e6ff3],
      [0x748f82ee, 0x78a5636f, 0x84c87814, 0x8cc70208],
      [0x90befffa, 0xa4506ceb, 0xbef9a3f7, 0xc67178f2]]"

definition ROTATE :: "u32 \<Rightarrow> nat \<Rightarrow> u32" where
  "ROTATE a n = push_bit n a OR drop_bit (32 - n) a"

definition Sigma0 :: "u32 \<Rightarrow> u32" where
  "Sigma0 x = ROTATE x 30 XOR ROTATE x 19 XOR ROTATE x 10"

definition Sigma1 :: "u32 \<Rightarrow> u32" where
  "Sigma1 x = ROTATE x 26 XOR ROTATE x 21 XOR ROTATE x 7"

definition sigma0 :: "u32 \<Rightarrow> u32" where
  "sigma0 x = ROTATE x 25 XOR ROTATE x 14 XOR drop_bit 3 x"

definition sigma1 :: "u32 \<Rightarrow> u32" where
  "sigma1 x = ROTATE x 15 XOR ROTATE x 13 XOR drop_bit 10 x"

definition Ch :: "u32 \<Rightarrow> u32 \<Rightarrow> u32 \<Rightarrow> u32" where
  "Ch x y z = (x AND y) XOR (NOT x AND z)"

definition Maj :: "u32 \<Rightarrow> u32 \<Rightarrow> u32 \<Rightarrow> u32" where
  "Maj x y z = (x AND y) XOR (x AND z) XOR (y AND z)"

definition HOST_c2l :: "byte list \<Rightarrow> u32 \<times> byte list" where
  "HOST_c2l c =
     (push_bit 24 (ucast (c ! 0)) OR push_bit 16 (ucast (c ! 1)) OR push_bit 8 (ucast (c ! 2)) OR ucast (c ! 3),
      drop 4 c)"

definition HOST_l2c :: "u32 \<Rightarrow> byte list" where
  "HOST_l2c l = [ucast (drop_bit 24 l), ucast (drop_bit 16 l), ucast (drop_bit 8 l), ucast l]"

text \<open>The variables \<open>a\<close> to \<open>h\<close> are a list of eight words.  A macro call names the variables it
  works on: the calls of eight rounds in a row, as places in that list.\<close>

definition round_args :: "nat list list" where
  "round_args =
    [[0, 1, 2, 3, 4, 5, 6, 7],
     [7, 0, 1, 2, 3, 4, 5, 6],
     [6, 7, 0, 1, 2, 3, 4, 5],
     [5, 6, 7, 0, 1, 2, 3, 4],
     [4, 5, 6, 7, 0, 1, 2, 3],
     [3, 4, 5, 6, 7, 0, 1, 2],
     [2, 3, 4, 5, 6, 7, 0, 1],
     [1, 2, 3, 4, 5, 6, 7, 0]]"

definition ROUND_00_15 :: "nat \<Rightarrow> nat list \<Rightarrow> u32 \<Rightarrow> u32 list \<Rightarrow> u32 list" where
  "ROUND_00_15 i args t v =
     (let a = v ! (args ! 0); b = v ! (args ! 1); c = v ! (args ! 2); e = v ! (args ! 4);
          f = v ! (args ! 5); g = v ! (args ! 6); h = v ! (args ! 7);
          T1 = t + (h + Sigma1 e + Ch e f g + K256 ! i);
          v = v[args ! 7 := Sigma0 a + Maj a b c];
          v = v[args ! 3 := v ! (args ! 3) + T1]
      in v[args ! 7 := v ! (args ! 7) + T1])"

definition ROUND_16_63 :: "nat \<Rightarrow> nat list \<Rightarrow> u32 list \<times> u32 list \<Rightarrow> u32 list \<times> u32 list" where
  "ROUND_16_63 i args s =
     (let (X, v) = s;
          s0 = sigma0 (X ! ((i + 1) mod 16));
          s1 = sigma1 (X ! ((i + 14) mod 16));
          T1 = X ! (i mod 16) + (s0 + s1 + X ! ((i + 9) mod 16))
      in (X[i mod 16 := T1], ROUND_00_15 i args T1 v))"

definition load_round :: "byte list \<times> u32 list \<times> u32 list \<Rightarrow> nat \<Rightarrow> byte list \<times> u32 list \<times> u32 list" where
  "load_round s i =
     (let (c, X, v) = s; (l, c) = HOST_c2l c
      in (c, X[i := l], ROUND_00_15 i (round_args ! (i mod 8)) l v))"

definition eight_rounds :: "u32 list \<times> u32 list \<Rightarrow> nat \<Rightarrow> u32 list \<times> u32 list" where
  "eight_rounds s i = foldl (\<lambda>s j. ROUND_16_63 (i + j) (round_args ! j) s) s [0..<8]"

definition block_rounds :: "u32 list \<Rightarrow> byte list \<Rightarrow> u32 list" where
  "block_rounds hs c =
     (let (c, X, v) = foldl load_round (c, replicate 16 0, hs) [0..<16];
          (X, v) = foldl eight_rounds (X, v) [16, 24, 32, 40, 48, 56]
      in map2 (+) hs v)"

section \<open>Hashing\<close>

record SHA256_CTX =
  sha_h :: "u32 list"
  sha_Nl :: u32
  sha_Nh :: u32
  sha_data :: "byte list"
  sha_num :: nat
  sha_md_len :: nat

definition SHA_CBLOCK :: nat where
  "SHA_CBLOCK = 64"

definition SHA224_Init :: SHA256_CTX where
  "SHA224_Init =
     \<lparr>sha_h = [0xc1059ed8, 0x367cd507, 0x3070dd17, 0xf70e5939, 0xffc00b31, 0x68581511, 0x64f98fa7, 0xbefa4fa4],
      sha_Nl = 0, sha_Nh = 0, sha_data = replicate SHA_CBLOCK 0, sha_num = 0, sha_md_len = 28\<rparr>"

definition SHA256_Init :: SHA256_CTX where
  "SHA256_Init =
     \<lparr>sha_h = [0x6a09e667, 0xbb67ae85, 0x3c6ef372, 0xa54ff53a, 0x510e527f, 0x9b05688c, 0x1f83d9ab, 0x5be0cd19],
      sha_Nl = 0, sha_Nh = 0, sha_data = replicate SHA_CBLOCK 0, sha_num = 0, sha_md_len = 32\<rparr>"

text \<open>A read behind the end of the input, or a write behind the end of the buffer, is an error.\<close>

primrec sha256_block_data_order :: "SHA256_CTX \<Rightarrow> byte list \<Rightarrow> nat \<Rightarrow> SHA256_CTX res" where
  "sha256_block_data_order ctx c 0 = Inr ctx"
| "sha256_block_data_order ctx c (Suc n) =
     (if length c < SHA_CBLOCK then Inl OutOfBounds
      else sha256_block_data_order (ctx\<lparr>sha_h := block_rounds (sha_h ctx) (take SHA_CBLOCK c)\<rparr>) (drop SHA_CBLOCK c) n)"

definition copy_to :: "byte list \<Rightarrow> nat \<Rightarrow> byte list \<Rightarrow> byte list res" where
  "copy_to p n src =
     (if n + length src \<le> length p then Inr (take n p @ src @ drop (n + length src) p) else Inl OutOfBounds)"

text \<open>The part of \<^verbatim>\<open>HASH_UPDATE\<close> that starts with an empty buffer.\<close>

definition update_blocks :: "SHA256_CTX \<Rightarrow> byte list \<Rightarrow> SHA256_CTX res" where
  "update_blocks ctx c =
     (let n = length c div SHA_CBLOCK in
      bind_res (if n > 0 then sha256_block_data_order ctx c n else Inr ctx) (\<lambda>ctx.
      let c = drop (n * SHA_CBLOCK) c in
      if length c \<noteq> 0 then
        bind_res (copy_to (sha_data ctx) 0 c) (\<lambda>p. Inr (ctx\<lparr>sha_num := length c, sha_data := p\<rparr>))
      else Inr ctx))"

definition SHA256_Update :: "SHA256_CTX \<Rightarrow> byte list \<Rightarrow> SHA256_CTX res" where
  "SHA256_Update ctx c =
     (let len = length c in
      if len = 0 then Inr ctx
      else
        let l = sha_Nl ctx + push_bit 3 (of_nat len);
            nh = (if l < sha_Nl ctx then sha_Nh ctx + 1 else sha_Nh ctx) + of_nat (len div 2 ^ 29);
            ctx = ctx\<lparr>sha_Nh := nh, sha_Nl := l\<rparr>;
            n = sha_num ctx
        in if n \<noteq> 0 then
             if len \<ge> SHA_CBLOCK \<or> len + n \<ge> SHA_CBLOCK then
               bind_res (copy_to (sha_data ctx) n (take (SHA_CBLOCK - n) c)) (\<lambda>p.
               bind_res (sha256_block_data_order (ctx\<lparr>sha_data := p\<rparr>) p 1) (\<lambda>ctx.
               update_blocks (ctx\<lparr>sha_num := 0, sha_data := replicate SHA_CBLOCK 0\<rparr>) (drop (SHA_CBLOCK - n) c)))
             else
               bind_res (copy_to (sha_data ctx) n c) (\<lambda>p. Inr (ctx\<lparr>sha_data := p, sha_num := n + len\<rparr>))
           else update_blocks ctx c)"

definition HASH_MAKE_STRING :: "SHA256_CTX \<Rightarrow> byte list option" where
  "HASH_MAKE_STRING ctx =
     (if sha_md_len ctx > 32 then None
      else Some (concat (map HOST_l2c (take (sha_md_len ctx div 4) (sha_h ctx)))))"

text \<open>The digest is \<open>None\<close> where the function returns 0 without writing one.\<close>

definition SHA256_Final :: "SHA256_CTX \<Rightarrow> (byte list option \<times> SHA256_CTX) res" where
  "SHA256_Final ctx =
     bind_res (copy_to (sha_data ctx) (sha_num ctx) [0x80]) (\<lambda>p.
     let n = sha_num ctx + 1 in
     bind_res
       (if n > SHA_CBLOCK - 8 then
          bind_res (copy_to p n (replicate (SHA_CBLOCK - n) 0)) (\<lambda>p.
          bind_res (sha256_block_data_order ctx p 1) (\<lambda>ctx. Inr (p, 0, ctx)))
        else Inr (p, n, ctx)) (\<lambda>(p, n, ctx).
     bind_res (copy_to p n (replicate (SHA_CBLOCK - 8 - n) 0)) (\<lambda>p.
     bind_res (copy_to p (SHA_CBLOCK - 8) (HOST_l2c (sha_Nh ctx) @ HOST_l2c (sha_Nl ctx))) (\<lambda>p.
     bind_res (sha256_block_data_order ctx p 1) (\<lambda>ctx.
     let ctx = ctx\<lparr>sha_num := 0, sha_data := replicate SHA_CBLOCK 0\<rparr>
     in Inr (HASH_MAKE_STRING ctx, ctx))))))"

definition SHA256 :: "byte list \<Rightarrow> byte list option res" where
  "SHA256 d =
     bind_res (SHA256_Update SHA256_Init d) (\<lambda>c. bind_res (SHA256_Final c) (\<lambda>(md, c). Inr md))"

definition SHA224 :: "byte list \<Rightarrow> byte list option res" where
  "SHA224 d =
     bind_res (SHA256_Update SHA224_Init d) (\<lambda>c. bind_res (SHA256_Final c) (\<lambda>(md, c). Inr md))"

section \<open>The function of FIPS 180\<close>

text \<open>The constants of the standard are not taken from the code: those of the rounds are the first 32
  bits of the fractional parts of the cube roots of the first 64 primes, the initial hash value of
  SHA-256 those of the square roots of the first 8, and that of SHA-224 the second 32 bits of the
  fractional parts of the square roots of the 9th to the 16th.\<close>

definition fips_prime :: "nat \<Rightarrow> bool" where
  "fips_prime n \<longleftrightarrow> 2 \<le> n \<and> (\<forall>d. 2 \<le> d \<and> d < n \<longrightarrow> \<not> d dvd n)"

definition fips_primes :: "nat list" where
  "fips_primes = filter fips_prime [2..<312]"

definition frac_bits :: "real \<Rightarrow> nat \<Rightarrow> u32" where
  "frac_bits x k = of_int \<lfloor>2 ^ (32 * k) * frac x\<rfloor>"

definition fips_K :: "u32 list" where
  "fips_K = map (\<lambda>p. frac_bits (root 3 (real p)) 1) fips_primes"

definition fips_H256 :: "u32 list" where
  "fips_H256 = map (\<lambda>p. frac_bits (sqrt (real p)) 1) (take 8 fips_primes)"

definition fips_H224 :: "u32 list" where
  "fips_H224 = map (\<lambda>p. frac_bits (sqrt (real p)) 2) (take 8 (drop 8 fips_primes))"

definition fips_Sigma0 :: "u32 \<Rightarrow> u32" where
  "fips_Sigma0 x = word_rotr 2 x XOR word_rotr 13 x XOR word_rotr 22 x"

definition fips_Sigma1 :: "u32 \<Rightarrow> u32" where
  "fips_Sigma1 x = word_rotr 6 x XOR word_rotr 11 x XOR word_rotr 25 x"

definition fips_sigma0 :: "u32 \<Rightarrow> u32" where
  "fips_sigma0 x = word_rotr 7 x XOR word_rotr 18 x XOR drop_bit 3 x"

definition fips_sigma1 :: "u32 \<Rightarrow> u32" where
  "fips_sigma1 x = word_rotr 17 x XOR word_rotr 19 x XOR drop_bit 10 x"

definition be_word :: "byte list \<Rightarrow> nat \<Rightarrow> u32" where
  "be_word m i =
     word_cat (word_cat (m ! (4 * i)) (m ! (4 * i + 1)) :: u16) (word_cat (m ! (4 * i + 2)) (m ! (4 * i + 3)) :: u16)"

fun fips_W :: "byte list \<Rightarrow> nat \<Rightarrow> u32" where
  "fips_W m t =
     (if t < 16 then be_word m t
      else fips_sigma1 (fips_W m (t - 2)) + fips_W m (t - 7) + fips_sigma0 (fips_W m (t - 15)) + fips_W m (t - 16))"

declare fips_W.simps [simp del]

definition fips_round :: "byte list \<Rightarrow> u32 list \<Rightarrow> nat \<Rightarrow> u32 list" where
  "fips_round m s t =
     (let a = s ! 0; b = s ! 1; c = s ! 2; d = s ! 3; e = s ! 4; f = s ! 5; g = s ! 6; h = s ! 7;
          T1 = h + fips_Sigma1 e + ((e AND f) XOR (NOT e AND g)) + fips_K ! t + fips_W m t;
          T2 = fips_Sigma0 a + ((a AND b) XOR (a AND c) XOR (b AND c))
      in [T1 + T2, a, b, c, d + T1, e, f, g])"

definition fips_compress :: "u32 list \<Rightarrow> byte list \<Rightarrow> u32 list" where
  "fips_compress hs m = map2 (+) hs (foldl (fips_round m) hs [0..<64])"

function fips_blocks :: "u32 list \<Rightarrow> byte list \<Rightarrow> u32 list" where
  "fips_blocks hs m = (if length m < 64 then hs else fips_blocks (fips_compress hs (take 64 m)) (drop 64 m))"
  by auto
termination by (relation "measure (\<lambda>(hs, m). length m)") auto

declare fips_blocks.simps [simp del]

definition be_bytes :: "nat \<Rightarrow> 'a :: len word \<Rightarrow> byte list" where
  "be_bytes n x = map (\<lambda>i. ucast (drop_bit (8 * i) x)) (rev [0..<n])"

definition fips_pad :: "byte list \<Rightarrow> byte list" where
  "fips_pad m =
     m @ [0x80] @ replicate ((119 - length m mod 64) mod 64) 0 @ be_bytes 8 (of_nat (8 * length m) :: u64)"

definition fips_hash :: "u32 list \<Rightarrow> nat \<Rightarrow> byte list \<Rightarrow> byte list" where
  "fips_hash iv n m = take n (concat (map (be_bytes 4) (fips_blocks iv (fips_pad m))))"

section \<open>The constants\<close>

lemma fips_prime_code:
  assumes "n < 324"
  shows "fips_prime n \<longleftrightarrow> 2 \<le> n \<and> (\<forall>d \<in> {2, 3, 5, 7, 11, 13, 17}. d dvd n \<longrightarrow> n = d)"
proof
  assume p: "fips_prime n"
  have "n = d" if "d \<in> {2, 3, 5, 7, 11, 13, 17}" "d dvd n" for d
  proof (rule ccontr)
    assume "n \<noteq> d"
    moreover have "d \<le> n" "2 \<le> d" using p that(1) dvd_imp_le [OF that(2)] by (auto simp: fips_prime_def)
    ultimately show False using p that(2) by (simp add: fips_prime_def)
  qed
  with p show "2 \<le> n \<and> (\<forall>d \<in> {2, 3, 5, 7, 11, 13, 17}. d dvd n \<longrightarrow> n = d)" by (simp add: fips_prime_def)
next
  assume p: "2 \<le> n \<and> (\<forall>d \<in> {2, 3, 5, 7, 11, 13, 17}. d dvd n \<longrightarrow> n = d)"
  have small: "\<not> d dvd n" if d: "2 \<le> d" "d < n" "d < 18" for d
  proof
    assume "d dvd n"
    have "d \<in> set [2..<18]" using d by (simp del: upt_rec_numeral)
    moreover have "list_all (\<lambda>d. \<exists>q \<in> {2, 3, 5, 7, 11, 13, 17}. q dvd d) [2..<18]" by simp
    ultimately obtain q where "q \<in> {2, 3, 5, 7, 11, 13, 17}" "q dvd d" by (auto simp only: list_all_iff)
    moreover from this have "q \<le> d" using d by (intro dvd_imp_le) auto
    ultimately show False using p \<open>d dvd n\<close> d(2) dvd_trans [of q d n] leD by blast
  qed
  have "\<not> d dvd n" if d: "2 \<le> d" "d < n" for d
  proof
    assume a: "d dvd n"
    then obtain e where e: "n = d * e" ..
    have "2 \<le> e" using e d p by (cases e; cases "e = 1") auto
    moreover have "e < n" using mult_le_mono1 [OF d(1), of e] \<open>2 \<le> e\<close> e by simp
    moreover have "e dvd n" using e by simp
    ultimately have "18 \<le> e" using small by (meson not_le)
    moreover have "18 \<le> d" using small a d by (meson not_le)
    ultimately have "18 * 18 \<le> n" using e by (metis mult_le_mono)
    then show False using assms by simp
  qed
  then show "fips_prime n" using p by (simp add: fips_prime_def)
qed

lemma fips_primes_eq: "fips_primes =
  [2, 3, 5, 7, 11, 13, 17, 19, 23, 29, 31, 37, 41, 43, 47, 53, 59, 61, 67, 71, 73, 79, 83, 89, 97, 101, 103, 107, 109,
   113, 127, 131, 137, 139, 149, 151, 157, 163, 167, 173, 179, 181, 191, 193, 197, 199, 211, 223, 227, 229, 233, 239,
   241, 251, 257, 263, 269, 271, 277, 281, 283, 293, 307, 311]"
proof -
  have "fips_primes = filter (\<lambda>n. 2 \<le> n \<and> (\<forall>d \<in> {2, 3, 5, 7, 11, 13, 17}. d dvd n \<longrightarrow> n = d)) [2..<312]"
    unfolding fips_primes_def by (rule filter_cong) (simp_all add: fips_prime_code del: upt_rec_numeral)
  then show ?thesis by simp
qed

lemma root_between:
  assumes "0 < e" "0 \<le> p" "0 \<le> s" "0 \<le> a" "a ^ e \<le> s ^ e * p" "s ^ e * p < (a + 1) ^ e"
  shows "\<lfloor>real_of_int s * root e (real_of_int p)\<rfloor> = a"
proof -
  let ?x = "real_of_int s * root e (real_of_int p)"
  have x: "?x ^ e = real_of_int (s ^ e * p)" "0 \<le> ?x" using assms by (simp_all add: power_mult_distrib)
  have "real_of_int a ^ e \<le> ?x ^ e" unfolding x(1) using assms(5) by (metis of_int_le_iff of_int_power)
  then have "real_of_int a \<le> ?x" using x(2) assms(1) by (simp only: power_mono_iff of_int_0_le_iff assms(4))
  moreover have "?x ^ e < real_of_int (a + 1) ^ e" unfolding x(1) using assms(6) by (metis of_int_less_iff of_int_power)
  then have "?x < real_of_int (a + 1)" using assms(4) by (intro power_less_imp_less_base [of ?x e]) simp_all
  ultimately show ?thesis by (simp add: floor_eq_iff)
qed

lemma frac_bits_root:
  assumes "0 < e" "0 \<le> c" "0 \<le> r" "0 \<le> p" "c ^ e \<le> p" "p < (c + 1) ^ e"
    and "(s * c + r) ^ e \<le> s ^ e * p" "s ^ e * p < (s * c + r + 1) ^ e" "s = 2 ^ (32 * k)"
  shows "frac_bits (root e (real_of_int p)) k = of_int r"
proof -
  have "\<lfloor>root e (real_of_int p)\<rfloor> = c" using root_between [of e p 1 c] assms by simp
  moreover have "\<lfloor>real_of_int s * root e (real_of_int p)\<rfloor> = s * c + r" using assms by (intro root_between) simp_all
  ultimately have "\<lfloor>real_of_int s * frac (root e (real_of_int p))\<rfloor> = r"
    unfolding frac_def right_diff_distrib by (simp flip: of_int_mult)
  then show ?thesis using assms(9) by (simp add: frac_bits_def)
qed

lemma frac_bits_list:
  assumes "list_all2 (\<lambda>p (c, r). 0 \<le> c \<and> 0 \<le> r \<and> 0 \<le> p \<and> c ^ e \<le> p \<and> p < (c + 1) ^ e \<and>
      (s * c + r) ^ e \<le> s ^ e * p \<and> s ^ e * p < (s * c + r + 1) ^ e) (map int ps) crs"
    and "0 < e" "s = 2 ^ (32 * k)"
  shows "map (\<lambda>p. frac_bits (root e (real p)) k) ps = map (\<lambda>(c, r). of_int r) crs"
proof (rule nth_equalityI)
  fix i assume i: "i < length (map (\<lambda>p. frac_bits (root e (real p)) k) ps)"
  obtain c r where cr: "crs ! i = (c, r)" by fastforce
  from i have "frac_bits (root e (real_of_int (int (ps ! i)))) k = of_int r"
    using list_all2_nthD [OF assms(1), of i] cr assms(2,3) by (intro frac_bits_root [where c = c and s = s]) auto
  then show "map (\<lambda>p. frac_bits (root e (real p)) k) ps ! i = map (\<lambda>(c, r). of_int r) crs ! i"
    using i cr list_all2_lengthD [OF assms(1)] by simp
qed (use list_all2_lengthD [OF assms(1)] in simp)

lemma K256_fips: "K256 = fips_K"
proof -
  let ?cs = "[1, 1, 1, 1, 2, 2, 2, 2, 2, 3, 3, 3, 3, 3, 3, 3, 3, 3, 4, 4, 4, 4, 4, 4, 4, 4, 4, 4, 4, 4, 5, 5,
    5, 5, 5, 5, 5, 5, 5, 5, 5, 5, 5, 5, 5, 5, 5, 6, 6, 6, 6, 6, 6, 6, 6, 6, 6, 6, 6, 6, 6, 6, 6, 6] :: int list"
  have "fips_K = map (\<lambda>(c, r). of_int r) (zip ?cs (map uint K256))"
    unfolding fips_K_def by (rule frac_bits_list [where s = "2 ^ 32"]) (simp_all add: fips_primes_eq K256_def)
  then show ?thesis by (simp add: K256_def)
qed

lemma SHA256_Init_fips: "sha_h SHA256_Init = fips_H256"
proof -
  have "fips_H256 = map (\<lambda>(c, r). of_int r) (zip [1, 1, 2, 2, 3, 3, 4, 4 :: int] (map uint (sha_h SHA256_Init)))"
    unfolding fips_H256_def sqrt_def by (rule frac_bits_list [where s = "2 ^ 32"]) (simp_all add: fips_primes_eq SHA256_Init_def)
  then show ?thesis by (simp add: SHA256_Init_def)
qed

lemma SHA224_Init_fips: "sha_h SHA224_Init = fips_H224"
proof -
  let ?rs = "[0xCBBB9D5DC1059ED8, 0x629A292A367CD507, 0x9159015A3070DD17, 0x152FECD8F70E5939,
    0x67332667FFC00B31, 0x8EB44A8768581511, 0xDB0C2E0D64F98FA7, 0x47B5481DBEFA4FA4] :: int list"
  have "fips_H224 = map (\<lambda>(c, r). of_int r) (zip [4, 5, 5, 6, 6, 6, 6, 7 :: int] ?rs)"
    unfolding fips_H224_def sqrt_def by (rule frac_bits_list [where s = "2 ^ 64"]) (simp_all add: fips_primes_eq)
  also have "\<dots> = sha_h SHA224_Init" by code_simp
  finally show ?thesis ..
qed

section \<open>One block\<close>

lemma ROTATE_rotr: "0 < m \<Longrightarrow> m < 32 \<Longrightarrow> ROTATE x (32 - m) = word_rotr m x"
proof -
  assume m: "0 < m" "m < 32"
  have "bit (ROTATE x (32 - m)) n \<longleftrightarrow> bit (word_rotr m x) n" if n: "n < 32" for n
  proof (cases "n + m < 32")
    case True
    then show ?thesis using m n by (auto simp: ROTATE_def bit_simps add.commute)
  next
    case False
    then have "(n + m) mod 32 = n + m - 32" using m n by (simp add: mod_if)
    moreover have "\<not> bit x (m + n)" using False bit_imp_le_length [of x "m + n"] by auto
    ultimately show ?thesis using m n False by (auto simp: ROTATE_def bit_simps add.commute)
  qed
  then show ?thesis by (intro bit_word_eqI) simp
qed

lemma Sigma_fips [simp]:
  "Sigma0 x = fips_Sigma0 x" "Sigma1 x = fips_Sigma1 x" "sigma0 x = fips_sigma0 x" "sigma1 x = fips_sigma1 x"
  using ROTATE_rotr [of 2 x] ROTATE_rotr [of 13 x] ROTATE_rotr [of 22 x] ROTATE_rotr [of 6 x] ROTATE_rotr [of 11 x]
    ROTATE_rotr [of 25 x] ROTATE_rotr [of 7 x] ROTATE_rotr [of 18 x] ROTATE_rotr [of 17 x] ROTATE_rotr [of 19 x]
  by (simp_all add: Sigma0_def Sigma1_def sigma0_def sigma1_def fips_Sigma0_def fips_Sigma1_def fips_sigma0_def
    fips_sigma1_def)

lemma HOST_c2l_word: "4 * i + 4 \<le> length c \<Longrightarrow> HOST_c2l (drop (4 * i) c) = (be_word c i, drop (4 * i + 4) c)"
proof -
  assume l: "4 * i + 4 \<le> length c"
  have "push_bit 24 (ucast a) OR push_bit 16 (ucast b) OR push_bit 8 (ucast d) OR (ucast e :: u32) =
      word_cat (word_cat a b :: u16) (word_cat d e :: u16)" for a b d e :: byte
    by (rule bit_word_eqI) (auto simp: bit_simps dest: bit_imp_le_length)
  then show ?thesis using l by (simp add: HOST_c2l_def be_word_def add.commute)
qed

text \<open>The words the variables stand for before round \<open>j\<close>.\<close>

definition regs :: "nat \<Rightarrow> u32 list \<Rightarrow> u32 list" where
  "regs j v = map (\<lambda>k. v ! (round_args ! (j mod 8) ! k)) [0..<8]"

lemma length_ROUND [simp]: "length (ROUND_00_15 i args t v) = length v"
  by (simp add: ROUND_00_15_def Let_def)

lemma less_8: "(n :: nat) < 8 \<longleftrightarrow> n = 0 \<or> n = 1 \<or> n = 2 \<or> n = 3 \<or> n = 4 \<or> n = 5 \<or> n = 6 \<or> n = 7"
  by auto

lemma upt_8: "[0..<8] = [0, 1, 2, 3, 4, 5, 6, 7 :: nat]"
  by code_simp

lemma round_step:
  assumes "length v = 8"
  shows "regs (Suc j) (ROUND_00_15 j (round_args ! (j mod 8)) (fips_W m j) v) = fips_round m (regs j v) j"
proof -
  obtain a b c d e f g h where v: "v = [a, b, c, d, e, f, g, h]"
    using assms by (auto simp: length_Suc_conv eval_nat_numeral)
  consider "j mod 8 = 0" | "j mod 8 = 1" | "j mod 8 = 2" | "j mod 8 = 3" | "j mod 8 = 4" | "j mod 8 = 5" | "j mod 8 = 6"
    | "j mod 8 = 7"
    using mod_less_divisor [of 8 j] unfolding less_8 by fastforce
  then show ?thesis
    by cases (simp_all add: v regs_def upt_8 round_args_def ROUND_00_15_def fips_round_def Let_def mod_Suc
      Ch_def Maj_def add_ac K256_fips)
qed

text \<open>The state after \<open>i\<close> rounds on the block \<open>m\<close>: the circular buffer holds the last 16 words of
  the schedule.\<close>

definition rounds_inv :: "byte list \<Rightarrow> u32 list \<Rightarrow> nat \<Rightarrow> u32 list \<times> u32 list \<Rightarrow> bool" where
  "rounds_inv m hs i s \<longleftrightarrow> length (fst s) = 16 \<and> length (snd s) = 8 \<and>
     (\<forall>t < i. i \<le> t + 16 \<longrightarrow> fst s ! (t mod 16) = fips_W m t) \<and>
     regs i (snd s) = foldl (fips_round m) hs [0..<i]"

lemma rounds_inv_write:
  assumes "rounds_inv m hs i s"
  shows "rounds_inv m hs (Suc i)
    ((fst s)[i mod 16 := fips_W m i], ROUND_00_15 i (round_args ! (i mod 8)) (fips_W m i) (snd s))"
proof -
  have "(fst s)[i mod 16 := fips_W m i] ! (t mod 16) = fips_W m t" if "t < Suc i" "Suc i \<le> t + 16" for t
  proof (cases "t = i")
    case True
    then show ?thesis using assms by (simp add: rounds_inv_def)
  next
    case False
    then have "t mod 16 \<noteq> i mod 16" using that mod_eq_dvd_iff_nat [of t i 16] by (auto dest: dvd_imp_le)
    then show ?thesis using assms that False by (simp add: rounds_inv_def)
  qed
  then show ?thesis using assms round_step [of "snd s" i m] by (simp add: rounds_inv_def)
qed

lemma load_rounds:
  assumes "length m = 64" and "length hs = 8" and "i \<le> 16"
  shows "\<exists>s. foldl load_round (m, replicate 16 0, hs) [0..<i] = (drop (4 * i) m, s) \<and> rounds_inv m hs i s"
  using assms(3)
proof (induction i)
  case 0
  have "regs 0 hs = map (\<lambda>k. hs ! k) [0..<8]" by (simp add: regs_def upt_8 round_args_def)
  then have "regs 0 hs = hs" using map_nth [of hs] assms(2) by simp
  then show ?case using assms(2) by (simp add: rounds_inv_def)
next
  case (Suc i)
  then obtain s where s: "foldl load_round (m, replicate 16 0, hs) [0..<i] = (drop (4 * i) m, s)" "rounds_inv m hs i s"
    by auto
  have "4 * i + 4 \<le> length m" using Suc.prems assms(1) by simp
  from HOST_c2l_word [OF this] Suc.prems
  have "HOST_c2l (drop (4 * i) m) = (fips_W m i, drop (4 * Suc i) m)" by (simp add: fips_W.simps [of m i] add.commute)
  then have "load_round (drop (4 * i) m, s) i = (drop (4 * Suc i) m,
      (fst s)[i := fips_W m i], ROUND_00_15 i (round_args ! (i mod 8)) (fips_W m i) (snd s))"
    by (simp add: load_round_def case_prod_unfold)
  then show ?case using s(1) rounds_inv_write [OF s(2)] Suc.prems by simp
qed

lemma ROUND_16_63_inv:
  assumes inv: "rounds_inv m hs i s" and i: "16 \<le> i"
  shows "rounds_inv m hs (Suc i) (ROUND_16_63 i (round_args ! (i mod 8)) s)"
proof -
  have X: "fst s ! (t mod 16) = fips_W m t" if "t < i" "i \<le> t + 16" for t using inv that by (simp add: rounds_inv_def)
  have bk: "fst s ! ((i + (16 - d)) mod 16) = fips_W m (i - d)" if "0 < d" "d \<le> 16" for d
    using X [of "i - d"] mod_add_self2 [of "i - d" 16] that i by simp
  have "fst s ! (i mod 16) + (fips_sigma0 (fst s ! ((i + 1) mod 16)) + fips_sigma1 (fst s ! ((i + 14) mod 16)) +
      fst s ! ((i + 9) mod 16)) = fips_W m i"
    using bk [of 16] bk [of 15] bk [of 2] bk [of 7] i unfolding fips_W.simps [of m i] by (simp add: add_ac)
  then have "ROUND_16_63 i (round_args ! (i mod 8)) s =
      ((fst s)[i mod 16 := fips_W m i], ROUND_00_15 i (round_args ! (i mod 8)) (fips_W m i) (snd s))"
    by (simp add: ROUND_16_63_def case_prod_unfold Let_def)
  then show ?thesis using rounds_inv_write [OF inv] by simp
qed

lemma eight_rounds_inv:
  assumes "rounds_inv m hs (8 * k) s" and "2 \<le> k"
  shows "rounds_inv m hs (8 * k + 8) (eight_rounds s (8 * k))"
proof -
  have "rounds_inv m hs (8 * k + j) (foldl (\<lambda>s j. ROUND_16_63 (8 * k + j) (round_args ! j) s) s [0..<j])" if "j \<le> 8" for j
    using that
  proof (induction j)
    case (Suc j)
    then have "(8 * k + j) mod 8 = j" by simp
    then show ?case using ROUND_16_63_inv [of m hs "8 * k + j"] Suc assms(2) by simp
  qed (use assms in simp)
  then show ?thesis by (simp add: eight_rounds_def)
qed

lemma block_rounds_fips:
  assumes "length m = 64" and "length hs = 8"
  shows "block_rounds hs m = fips_compress hs m" and "length (fips_compress hs m) = 8"
proof -
  obtain s where s: "foldl load_round (m, replicate 16 0, hs) [0..<16] = (drop 64 m, s)" "rounds_inv m hs 16 s"
    using load_rounds [OF assms, of 16] by auto
  let ?s = "foldl eight_rounds s [16, 24, 32, 40, 48, 56]"
  have "rounds_inv m hs 64 ?s"
    using eight_rounds_inv [of m hs 2 s] eight_rounds_inv [of m hs 3] eight_rounds_inv [of m hs 4]
      eight_rounds_inv [of m hs 5] eight_rounds_inv [of m hs 6] eight_rounds_inv [of m hs 7] s(2) by simp
  then have r: "length (snd ?s) = 8" "regs 64 (snd ?s) = foldl (fips_round m) hs [0..<64]" by (auto simp: rounds_inv_def)
  have "regs 64 (snd ?s) = map (\<lambda>k. snd ?s ! k) [0..<8]" by (simp add: regs_def upt_8 round_args_def)
  then have v: "snd ?s = foldl (fips_round m) hs [0..<64]" using map_nth [of "snd ?s"] r by simp
  then show "block_rounds hs m = fips_compress hs m"
    unfolding block_rounds_def fips_compress_def s(1) by (cases s) (simp add: case_prod_unfold Let_def)
  show "length (fips_compress hs m) = 8" using v r(1) assms(2) by (simp add: fips_compress_def)
qed

section \<open>Messages in pieces\<close>

lemma fips_blocks_short: "length m < 64 \<Longrightarrow> fips_blocks hs m = hs"
  by (simp add: fips_blocks.simps)

lemma fips_blocks_Cons: "length b = 64 \<Longrightarrow> fips_blocks hs (b @ m) = fips_blocks (fips_compress hs b) m"
  by (simp add: fips_blocks.simps [of hs])

lemma fips_blocks_append: "length a = 64 * n \<Longrightarrow> fips_blocks hs (a @ b) = fips_blocks (fips_blocks hs a) b"
proof (induction n arbitrary: a hs)
  case (Suc n)
  have a: "a = take 64 a @ drop 64 a" "length (take 64 a) = 64" "length (drop 64 a) = 64 * n" using Suc.prems by auto
  have "fips_blocks hs (a @ b) = fips_blocks (fips_compress hs (take 64 a)) (drop 64 a @ b)"
    using fips_blocks_Cons [OF a(2), of hs "drop 64 a @ b"] a(1) by (metis append.assoc)
  also have "\<dots> = fips_blocks (fips_blocks hs a) b"
    unfolding Suc.IH [OF a(3)] fips_blocks_Cons [OF a(2), of hs "drop 64 a", symmetric] using a(1) by simp
  finally show ?case .
qed (simp add: fips_blocks_short)

lemma block_data_order:
  assumes "length (sha_h ctx) = 8" and "64 * n \<le> length c"
  shows "sha256_block_data_order ctx c n = Inr (ctx\<lparr>sha_h := fips_blocks (sha_h ctx) (take (64 * n) c)\<rparr>)"
    and "length (fips_blocks (sha_h ctx) (take (64 * n) c)) = 8"
  using assms
proof (induction n arbitrary: ctx c)
  case (Suc n)
  case 1
  have l: "length (take 64 c) = 64" "64 * n \<le> length (drop 64 c)" using 1 by auto
  have t: "take (64 * Suc n) c = take 64 c @ take (64 * n) (drop 64 c)" by (simp add: take_add)
  note b = block_rounds_fips [OF l(1) 1(1)]
  show ?case
    using Suc(1) [of "ctx\<lparr>sha_h := fips_compress (sha_h ctx) (take 64 c)\<rparr>" "drop 64 c"] 1 l b
    unfolding t fips_blocks_Cons [OF l(1)] by (simp add: SHA_CBLOCK_def)
next
  case (Suc n)
  case 2
  have l: "length (take 64 c) = 64" "64 * n \<le> length (drop 64 c)" using 2 by auto
  have t: "take (64 * Suc n) c = take 64 c @ take (64 * n) (drop 64 c)" by (simp add: take_add)
  show ?case
    using Suc(2) [of "ctx\<lparr>sha_h := fips_compress (sha_h ctx) (take 64 c)\<rparr>" "drop 64 c"] 2 l
      block_rounds_fips(2) [OF l(1) 2(1)]
    unfolding t fips_blocks_Cons [OF l(1)] by simp
qed (simp_all add: fips_blocks_short)

text \<open>A context into which \<open>m\<close> has been fed.\<close>

definition fed :: "u32 list \<Rightarrow> byte list \<Rightarrow> SHA256_CTX \<Rightarrow> bool" where
  "fed iv m ctx \<longleftrightarrow> length (sha_h ctx) = 8 \<and> length (sha_data ctx) = 64 \<and>
     sha_h ctx = fips_blocks iv m \<and> sha_num ctx = length m mod 64 \<and>
     take (sha_num ctx) (sha_data ctx) = drop (64 * (length m div 64)) m"

definition bits_counted :: "byte list \<Rightarrow> SHA256_CTX \<Rightarrow> bool" where
  "bits_counted m ctx \<longleftrightarrow>
     unat (sha_Nl ctx) = (8 * length m) mod 2 ^ 32 \<and> unat (sha_Nh ctx) = (8 * length m) div 2 ^ 32 mod 2 ^ 32"

lemma full_part: "fips_blocks iv m = fips_blocks iv (take (64 * (length m div 64)) m)"
proof -
  have "fips_blocks iv (take (64 * (length m div 64)) m @ drop (64 * (length m div 64)) m) =
      fips_blocks iv (take (64 * (length m div 64)) m)"
    by (subst fips_blocks_append [where n = "length m div 64"]) (simp_all add: fips_blocks_short)
  then show ?thesis by simp
qed

lemma div_carry:
  fixes a n b :: nat
  assumes "0 < b"
  shows "(a + n) div b = a div b + n div b + (if (a + n) mod b < a mod b then 1 else 0)"
proof -
  have m: "(a + n) mod b = (a mod b + n mod b) mod b" by (rule mod_add_eq [symmetric])
  have d: "(a + n) div b = a div b + n div b + (a mod b + n mod b) div b" by (rule div_add1_eq)
  have "x < b \<Longrightarrow> y < b \<Longrightarrow> (x + y) div b = (if (x + y) mod b < x then 1 else 0)" for x y :: nat
    by (cases "x + y < b") (auto simp: le_div_geq le_mod_geq)
  then show ?thesis using assms unfolding m d by simp
qed

lemma bit_count:
  fixes nl nh :: u32
  assumes nl: "unat nl = (8 * a) mod 2 ^ 32" and nh: "unat nh = (8 * a) div 2 ^ 32 mod 2 ^ 32"
    and l: "l = nl + push_bit 3 (of_nat n)" and h: "nh' = (if l < nl then nh + 1 else nh) + of_nat (n div 2 ^ 29)"
  shows "unat l = (8 * (a + n)) mod 2 ^ 32" and "unat nh' = (8 * (a + n)) div 2 ^ 32 mod 2 ^ 32"
proof -
  have u: "unat (of_nat k :: u32) = k mod 2 ^ 32" for k by (simp add: unsigned_of_nat take_bit_eq_mod)
  have nl': "nl = of_nat (8 * a)" and nh'': "nh = of_nat (8 * a div 2 ^ 32)"
    unfolding word_unat_eq_iff u by (rule nl, rule nh)
  have "l = of_nat (8 * (a + n))" unfolding l nl' push_bit_eq_mult by simp
  then show ul: "unat l = (8 * (a + n)) mod 2 ^ 32" by (simp only: u)
  have c: "8 * (a + n) div 2 ^ 32 = 8 * a div 2 ^ 32 + n div 2 ^ 29 + (if l < nl then 1 else 0)"
    using div_carry [of "2 ^ 32" "8 * a" "8 * n"] unfolding word_less_nat_alt ul nl by (simp add: div_mult2_eq [of "8 * n" 8])
  have "nh' = of_nat (8 * (a + n) div 2 ^ 32)" unfolding h c nh'' by simp
  then show "unat nh' = (8 * (a + n)) div 2 ^ 32 mod 2 ^ 32" by (simp only: u)
qed

lemma copy_to_ok: "n + length src \<le> length p \<Longrightarrow> copy_to p n src = Inr (take n p @ src @ drop (n + length src) p)"
  by (simp add: copy_to_def)

lemma update_blocks_fed:
  assumes fed: "fed iv m ctx" and m: "length m = 64 * k"
  shows "\<exists>ctx'. update_blocks ctx c = Inr ctx' \<and> fed iv (m @ c) ctx' \<and>
    (sha_Nl ctx', sha_Nh ctx', sha_md_len ctx') = (sha_Nl ctx, sha_Nh ctx, sha_md_len ctx)"
proof -
  let ?n = "length c div 64" and ?r = "drop (64 * (length c div 64)) c"
  let ?hs = "fips_blocks (sha_h ctx) (take (64 * ?n) c)"
  have f: "length (sha_h ctx) = 8" "length (sha_data ctx) = 64" "sha_h ctx = fips_blocks iv m" "sha_num ctx = 0"
    using fed m by (auto simp: fed_def)
  have "64 * ?n \<le> length c" by simp
  note b = block_data_order [OF f(1) this]
  have hs: "?hs = fips_blocks iv (m @ c)"
    unfolding f(3) fips_blocks_append [OF m, symmetric] full_part [of iv "m @ c"] using m by simp
  have blk: "(if ?n > 0 then sha256_block_data_order ctx c ?n else Inr ctx) = Inr (ctx\<lparr>sha_h := ?hs\<rparr>)"
    using b(1) by (simp add: fips_blocks_short)
  have r: "length ?r = length c mod 64" "length (m @ c) mod 64 = length c mod 64"
    "drop (64 * (length (m @ c) div 64)) (m @ c) = ?r"
    using m by (simp_all add: minus_div_mult_eq_mod [symmetric] mult.commute)
  show ?thesis
  proof (cases "length ?r = 0")
    case True
    have "update_blocks ctx c = Inr (ctx\<lparr>sha_h := ?hs\<rparr>)"
      using blk True unfolding update_blocks_def Let_def SHA_CBLOCK_def by (simp add: mult.commute)
    moreover have "fed iv (m @ c) (ctx\<lparr>sha_h := ?hs\<rparr>)"
      using f b(2) hs r True unfolding fed_def by simp
    ultimately show ?thesis by simp
  next
    case False
    have l: "0 + length ?r \<le> length (sha_data ctx)" using f(2) r(1) by simp
    let ?p = "?r @ drop (length ?r) (sha_data ctx)"
    have "update_blocks ctx c = Inr (ctx\<lparr>sha_h := ?hs, sha_num := length ?r, sha_data := ?p\<rparr>)"
      using blk False copy_to_ok [OF l] unfolding update_blocks_def Let_def SHA_CBLOCK_def by (simp add: mult.commute)
    moreover have "fed iv (m @ c) (ctx\<lparr>sha_h := ?hs, sha_num := length ?r, sha_data := ?p\<rparr>)"
      using f b(2) hs r l unfolding fed_def by simp
    ultimately show ?thesis by simp
  qed
qed

lemma fed_tail: "fed iv m ctx \<Longrightarrow> m = take (64 * (length m div 64)) m @ take (sha_num ctx) (sha_data ctx)"
  unfolding fed_def by (metis append_take_drop_id)

text \<open>Filling the buffer up completes a block.\<close>

lemma fill_block:
  assumes fed: "fed iv m ctx" and q: "sha_num ctx + length q = 64" and p: "p = take (sha_num ctx) (sha_data ctx) @ q"
  shows "fips_blocks (sha_h ctx) p = fips_blocks iv (m @ q)" and "length p = 64"
proof -
  let ?f = "take (64 * (length m div 64)) m"
  have l: "length ?f = 64 * (length m div 64)" by simp
  have "m @ q = ?f @ p" using fed_tail [OF fed] p by (metis append.assoc)
  then have "fips_blocks iv (m @ q) = fips_blocks (fips_blocks iv ?f) p" using fips_blocks_append [OF l] by simp
  then show "fips_blocks (sha_h ctx) p = fips_blocks iv (m @ q)" using fed full_part [of iv m] by (simp add: fed_def)
  show "length p = 64" using fed q p by (simp add: fed_def)
qed

lemma update_fill:
  assumes fed: "fed iv m ctx" and n: "sha_num ctx \<noteq> 0" "64 - sha_num ctx \<le> length c"
  shows "\<exists>ctx'. bind_res (copy_to (sha_data ctx) (sha_num ctx) (take (64 - sha_num ctx) c)) (\<lambda>p.
      bind_res (sha256_block_data_order (ctx\<lparr>sha_data := p\<rparr>) p 1) (\<lambda>ctx'.
      update_blocks (ctx'\<lparr>sha_num := 0, sha_data := replicate 64 0\<rparr>) (drop (64 - sha_num ctx) c))) = Inr ctx' \<and>
    fed iv (m @ c) ctx' \<and> (sha_Nl ctx', sha_Nh ctx', sha_md_len ctx') = (sha_Nl ctx, sha_Nh ctx, sha_md_len ctx)"
proof -
  have f: "length (sha_h ctx) = 8" "length (sha_data ctx) = 64" "sha_num ctx = length m mod 64"
    using fed by (auto simp: fed_def)
  let ?q = "take (64 - sha_num ctx) c"
  let ?p = "take (sha_num ctx) (sha_data ctx) @ ?q"
  have q: "sha_num ctx + length ?q = 64" using n(2) f(3) by simp
  have cp: "copy_to (sha_data ctx) (sha_num ctx) ?q = Inr ?p" using copy_to_ok [of "sha_num ctx" ?q] q f(2) by simp
  note fb = fill_block [OF fed q refl]
  let ?ctx = "ctx\<lparr>sha_data := ?p, sha_h := fips_blocks iv (m @ ?q), sha_num := 0, sha_data := replicate 64 0\<rparr>"
  have "length (sha_h (ctx\<lparr>sha_data := ?p\<rparr>)) = 8" "64 * 1 \<le> length ?p" using f(1) fb(2) by auto
  note b = block_data_order [OF this]
  have tp: "take (64 * 1) ?p = ?p" by (rule take_all) (use fb(2) in simp)
  have h: "sha256_block_data_order (ctx\<lparr>sha_data := ?p\<rparr>) ?p 1 = Inr (ctx\<lparr>sha_data := ?p, sha_h := fips_blocks iv (m @ ?q)\<rparr>)"
    "length (fips_blocks iv (m @ ?q)) = 8"
    using b fb(1) unfolding tp by (simp_all del: One_nat_def)
  have "a = 64 * k + n \<Longrightarrow> n + l = 64 \<Longrightarrow> a + l = 64 * (k + 1)" for a k n l :: nat by simp
  from this [OF _ q, of "length m" "length m div 64"] have k: "length (m @ ?q) = 64 * (length m div 64 + 1)"
    unfolding length_append f(3) by simp
  have "fed iv (m @ ?q) ?ctx" using h(2) k unfolding fed_def by simp
  from update_blocks_fed [OF this k, of "drop (64 - sha_num ctx) c"]
  show ?thesis unfolding cp bind_res_Inr h(1) by (simp add: append_take_drop_id)
qed

lemma update_short:
  assumes fed: "fed iv m ctx" and n: "length c + sha_num ctx < 64"
  shows "\<exists>p. copy_to (sha_data ctx) (sha_num ctx) c = Inr p \<and>
    fed iv (m @ c) (ctx\<lparr>sha_data := p, sha_num := sha_num ctx + length c\<rparr>)"
proof -
  have f: "length (sha_h ctx) = 8" "length (sha_data ctx) = 64" "sha_num ctx = length m mod 64" "sha_h ctx = fips_blocks iv m"
    "take (sha_num ctx) (sha_data ctx) = drop (64 * (length m div 64)) m"
    using fed by (auto simp: fed_def)
  let ?p = "take (sha_num ctx) (sha_data ctx) @ c @ drop (sha_num ctx + length c) (sha_data ctx)"
  have cp: "copy_to (sha_data ctx) (sha_num ctx) c = Inr ?p" using copy_to_ok n f(2) by simp
  have d: "length (m @ c) div 64 = length m div 64" "length (m @ c) mod 64 = sha_num ctx + length c"
    using n div_add1_eq [of "length m" "length c" 64] mod_add_eq [of "length m" 64 "length c"] unfolding f(3) by simp_all
  have t: "take (64 * (length m div 64)) (m @ c) = take (64 * (length m div 64)) m" by simp
  have "fips_blocks iv (m @ c) = fips_blocks iv m" using full_part [of iv "m @ c"] full_part [of iv m] unfolding d(1) t by simp
  moreover have "take (sha_num ctx + length c) ?p = drop (64 * (length m div 64)) (m @ c)"
  proof -
    have "take (sha_num ctx + length c) ?p = take (sha_num ctx) (sha_data ctx) @ c" using f(2) n by simp
    then show ?thesis unfolding f(5) by simp
  qed
  moreover have "length ?p = 64" using f(2) n by simp
  ultimately have "fed iv (m @ c) (ctx\<lparr>sha_data := ?p, sha_num := sha_num ctx + length c\<rparr>)"
    using f(1,4) unfolding fed_def d by (simp del: take_append length_append)
  then show ?thesis using cp by blast
qed

lemma fed_counters: "fed iv m (ctx\<lparr>sha_Nh := x, sha_Nl := y\<rparr>) \<longleftrightarrow> fed iv m ctx"
  by (simp add: fed_def)

lemma SHA256_Update_fed:
  assumes fed: "fed iv m ctx" and cnt: "bits_counted m ctx"
  shows "\<exists>ctx'. SHA256_Update ctx c = Inr ctx' \<and> fed iv (m @ c) ctx' \<and> bits_counted (m @ c) ctx' \<and>
    sha_md_len ctx' = sha_md_len ctx"
proof (cases "length c = 0")
  case True
  then show ?thesis using assms by (simp add: SHA256_Update_def)
next
  case False
  define l where "l = sha_Nl ctx + push_bit 3 (of_nat (length c))"
  define nh where "nh = (if l < sha_Nl ctx then sha_Nh ctx + 1 else sha_Nh ctx) + of_nat (length c div 2 ^ 29)"
  define ctx1 where "ctx1 = ctx\<lparr>sha_Nh := nh, sha_Nl := l\<rparr>"
  have f1: "fed iv m ctx1" using fed by (simp add: ctx1_def fed_counters)
  have c1: "bits_counted (m @ c) x" if "(sha_Nl x, sha_Nh x) = (sha_Nl ctx1, sha_Nh ctx1)" for x
    using bit_count [OF _ _ l_def nh_def, of "length m"] cnt that by (simp add: bits_counted_def ctx1_def)
  have up: "SHA256_Update ctx c =
    (if sha_num ctx1 \<noteq> 0 then
       if length c \<ge> 64 \<or> length c + sha_num ctx1 \<ge> 64 then
         bind_res (copy_to (sha_data ctx1) (sha_num ctx1) (take (64 - sha_num ctx1) c)) (\<lambda>p.
         bind_res (sha256_block_data_order (ctx1\<lparr>sha_data := p\<rparr>) p 1) (\<lambda>ctx'.
         update_blocks (ctx'\<lparr>sha_num := 0, sha_data := replicate 64 0\<rparr>) (drop (64 - sha_num ctx1) c)))
       else
         bind_res (copy_to (sha_data ctx1) (sha_num ctx1) c) (\<lambda>p. Inr (ctx1\<lparr>sha_data := p, sha_num := sha_num ctx1 + length c\<rparr>))
     else update_blocks ctx1 c)"
    using False unfolding SHA256_Update_def ctx1_def nh_def l_def SHA_CBLOCK_def Let_def by (simp only: if_False)
  have md: "sha_md_len ctx1 = sha_md_len ctx" by (simp add: ctx1_def)
  consider (fill) "sha_num ctx1 \<noteq> 0" "length c \<ge> 64 \<or> length c + sha_num ctx1 \<ge> 64"
    | (short) "sha_num ctx1 \<noteq> 0" "length c + sha_num ctx1 < 64" "\<not> length c \<ge> 64" | (empty) "sha_num ctx1 = 0"
    by linarith
  then show ?thesis
  proof cases
    case fill
    then have "64 - sha_num ctx1 \<le> length c" by auto
    from update_fill [OF f1 fill(1) this] show ?thesis unfolding up using fill c1 md by auto
  next
    case short
    from update_short [OF f1 short(2)] show ?thesis unfolding up using short c1 md by auto
  next
    case empty
    then have "length m = 64 * (length m div 64)" using f1 div_mult_mod_eq [of "length m" 64] by (simp add: fed_def)
    from update_blocks_fed [OF f1 this] show ?thesis unfolding up using empty c1 md by auto
  qed
qed

fun update_all :: "byte list list \<Rightarrow> SHA256_CTX \<Rightarrow> SHA256_CTX res" where
  "update_all [] ctx = Inr ctx"
| "update_all (c # cs) ctx = bind_res (SHA256_Update ctx c) (update_all cs)"

lemma update_all_fed:
  "fed iv m ctx \<Longrightarrow> bits_counted m ctx \<Longrightarrow>
    \<exists>ctx'. update_all cs ctx = Inr ctx' \<and> fed iv (m @ concat cs) ctx' \<and> bits_counted (m @ concat cs) ctx' \<and>
      sha_md_len ctx' = sha_md_len ctx"
proof (induction cs arbitrary: m ctx)
  case (Cons c cs)
  from SHA256_Update_fed [OF Cons.prems, of c] obtain ctx1 where
    1: "SHA256_Update ctx c = Inr ctx1" "fed iv (m @ c) ctx1" "bits_counted (m @ c) ctx1" "sha_md_len ctx1 = sha_md_len ctx"
    by blast
  from Cons.IH [OF 1(2,3)] show ?case using 1(1,4) by simp
qed simp

section \<open>The digest\<close>

lemma be_bytes_8: "be_bytes 8 x = be_bytes 4 (ucast (drop_bit 32 x) :: u32) @ be_bytes 4 (ucast x :: u32)" for x :: u64
proof -
  have "rev [0..<8] = map (\<lambda>i. i + 4) (rev [0..<4]) @ rev [0..<4 :: nat]" by code_simp
  moreover have "(ucast (drop_bit (8 * (i + 4)) x) :: byte) = ucast (drop_bit (8 * i) (ucast (drop_bit 32 x) :: u32))"
    "(ucast (drop_bit (8 * i) x) :: byte) = ucast (drop_bit (8 * i) (ucast x :: u32))" if "i < 4" for i
    using that by (auto intro!: bit_word_eqI simp: bit_simps algebra_simps)
  ultimately show ?thesis by (simp add: be_bytes_def o_def)
qed

lemma HOST_l2c_bytes: "HOST_l2c x = be_bytes 4 x"
proof -
  have "rev [0..<4] = [3, 2, 1, 0 :: nat]" by code_simp
  then show ?thesis by (simp add: HOST_l2c_def be_bytes_def)
qed

lemma length_be_bytes [simp]: "length (be_bytes n x) = n"
  by (simp add: be_bytes_def)

lemma counted_bytes:
  assumes "bits_counted m ctx"
  shows "HOST_l2c (sha_Nh ctx) @ HOST_l2c (sha_Nl ctx) = be_bytes 8 (of_nat (8 * length m) :: u64)"
proof -
  let ?x = "of_nat (8 * length m) :: u64"
  have ux: "unat ?x = 8 * length m mod 2 ^ 64" by (simp only: unsigned_of_nat take_bit_eq_mod) simp
  have "unat (ucast ?x :: u32) = unat (sha_Nl ctx)"
    using assms unfolding bits_counted_def unsigned_ucast_eq ux by (simp add: take_bit_eq_mod mod_mod_cancel)
  moreover have "unat (ucast (drop_bit 32 ?x) :: u32) = unat (sha_Nh ctx)"
  proof -
    have "(a mod 2 ^ 64) div 2 ^ 32 mod 2 ^ 32 = a div 2 ^ 32 mod 2 ^ 32" for a :: nat
      using div_mult2_eq [of a "2 ^ 32" "2 ^ 32"] mod_mult2_eq [of a "2 ^ 32" "2 ^ 32"] by simp
    then show ?thesis using assms unfolding bits_counted_def unsigned_ucast_eq unat_drop_bit ux by (simp add: take_bit_eq_mod)
  qed
  ultimately have "ucast ?x = sha_Nl ctx" "ucast (drop_bit 32 ?x) = sha_Nh ctx" by (simp_all only: word_unat_eq_iff)
  then show ?thesis unfolding HOST_l2c_bytes be_bytes_8 by simp
qed

lemma take_concat:
  assumes "\<And>x. length (f x) = n"
  shows "take (n * k) (concat (map f xs)) = concat (map f (take k xs))"
proof (induction xs arbitrary: k)
  case (Cons x xs)
  then show ?case using assms by (cases k) simp_all
qed simp

lemma one_block:
  assumes "length (sha_h ctx) = 8" and "length p = 64"
  shows "sha256_block_data_order ctx p 1 = Inr (ctx\<lparr>sha_h := fips_blocks (sha_h ctx) p\<rparr>)"
    and "length (fips_blocks (sha_h ctx) p) = 8"
  using block_data_order [OF assms(1), of 1 p] assms(2) by (simp_all del: One_nat_def)

text \<open>The last one or two blocks are those of the padding.\<close>

lemma last_two_blocks:
  assumes fed: "fed iv m ctx" and cnt: "bits_counted m ctx" and num: "56 \<le> sha_num ctx"
  shows "\<exists>ctx'. SHA256_Final ctx = Inr (HASH_MAKE_STRING ctx', ctx') \<and>
    sha_h ctx' = fips_blocks iv (fips_pad m) \<and> length (sha_h ctx') = 8 \<and> sha_md_len ctx' = sha_md_len ctx"
proof -
  define n where "n = sha_num ctx"
  have f: "length (sha_h ctx) = 8" "length (sha_data ctx) = 64" "n < 64" "n = length m mod 64"
    using fed by (auto simp: fed_def n_def)
  let ?t = "take n (sha_data ctx)"
  let ?be = "be_bytes 8 (of_nat (8 * length m) :: u64)"
  let ?p = "?t @ [0x80] @ drop (n + 1) (sha_data ctx)"
  have c0: "copy_to (sha_data ctx) n [0x80] = Inr ?p" using copy_to_ok [of n "[0x80]"] f(2,3) by simp
  have len: "copy_to q 56 ?be = Inr (take 56 q @ ?be)" if "length q = 64" for q
    using copy_to_ok [of 56 ?be q] that by simp
  have two: "n + 1 > 56" using num by (simp add: n_def)
  let ?q = "[0x80] @ replicate (63 - n) (0 :: byte)"
  let ?p1 = "?t @ ?q" and ?p3 = "replicate 56 0 @ ?be"
  have c1: "copy_to ?p (n + 1) (replicate (63 - n) 0) = Inr ?p1"
    using copy_to_ok [of "n + 1" "replicate (63 - n) 0" ?p] f(2,3) by simp
  have l1: "length ?p1 = 64" using f(2,3) by simp
  have c2: "copy_to ?p1 0 (replicate 56 0) = Inr (replicate 56 0 @ drop 56 ?p1)"
    using copy_to_ok [of 0 "replicate 56 0" ?p1] l1 by simp
  have q: "sha_num ctx + length ?q = 64" using f(3) n_def by simp
  have h1: "fips_blocks (sha_h ctx) ?p1 = fips_blocks iv (m @ ?q)" using fill_block(1) [OF fed q] n_def by simp
  have l: "length (m @ ?q) = 64 * (length m div 64 + 1)"
    using f(3) div_mult_mod_eq [of "length m" 64] unfolding f(4) [symmetric] by simp
  have pad: "fips_pad m = (m @ ?q) @ ?p3"
  proof -
    have "(119 - n) mod 64 = (63 - n) + 56" using two f(3) by simp
    then show ?thesis unfolding fips_pad_def f(4) [symmetric] by (simp only: replicate_add append.assoc)
  qed
  have h2: "fips_blocks (fips_blocks iv (m @ ?q)) ?p3 = fips_blocks iv (fips_pad m)"
    unfolding pad by (rule fips_blocks_append [OF l, symmetric])
  note b1 = one_block [OF f(1) l1, unfolded h1]
  let ?c1 = "ctx\<lparr>sha_h := fips_blocks iv (m @ ?q)\<rparr>"
  have "length (sha_h ?c1) = 8" "length ?p3 = 64" using b1(2) by simp_all
  from one_block [OF this] have b2: "sha256_block_data_order ?c1 ?p3 1 = Inr (?c1\<lparr>sha_h := fips_blocks iv (fips_pad m)\<rparr>)"
    "length (fips_blocks iv (fips_pad m)) = 8" using h2 by (simp_all del: One_nat_def)
  have l2: "length (replicate 56 0 @ drop 56 ?p1) = 64" using l1 by simp
  have c3: "copy_to (replicate 56 0 @ drop 56 ?p1) 56 (HOST_l2c (sha_Nh ?c1) @ HOST_l2c (sha_Nl ?c1)) = Inr ?p3"
    using len [OF l2] counted_bytes [OF cnt] by simp
  have e: "64 - (n + 1) = 63 - n" "(64 :: nat) - 8 = 56" "56 - 0 = (56 :: nat)" by simp_all
  show ?thesis
    unfolding SHA256_Final_def SHA_CBLOCK_def n_def [symmetric] e Let_def c0 bind_res_Inr if_P [OF two] c1 b1(1) prod.case c2 c3
      b2(1)
    using b2(2) by simp
qed

lemma last_block:
  assumes fed: "fed iv m ctx" and cnt: "bits_counted m ctx" and num: "sha_num ctx < 56"
  shows "\<exists>ctx'. SHA256_Final ctx = Inr (HASH_MAKE_STRING ctx', ctx') \<and>
    sha_h ctx' = fips_blocks iv (fips_pad m) \<and> length (sha_h ctx') = 8 \<and> sha_md_len ctx' = sha_md_len ctx"
proof -
  define n where "n = sha_num ctx"
  have f: "length (sha_h ctx) = 8" "length (sha_data ctx) = 64" "n < 64" "n = length m mod 64"
    using fed by (auto simp: fed_def n_def)
  let ?t = "take n (sha_data ctx)"
  let ?be = "be_bytes 8 (of_nat (8 * length m) :: u64)"
  let ?p = "?t @ [0x80] @ drop (n + 1) (sha_data ctx)"
  have c0: "copy_to (sha_data ctx) n [0x80] = Inr ?p" using copy_to_ok [of n "[0x80]"] f(2,3) by simp
  have len: "copy_to q 56 ?be = Inr (take 56 q @ ?be)" if "length q = 64" for q
    using copy_to_ok [of 56 ?be q] that by simp
  have one: "\<not> n + 1 > 56" using num by (simp add: n_def)
  let ?q = "[0x80] @ replicate (55 - n) (0 :: byte) @ ?be"
  let ?p3 = "?t @ ?q"
  have c2: "copy_to ?p (n + 1) (replicate (55 - n) 0) = Inr (?t @ [0x80] @ replicate (55 - n) 0 @ drop 56 (sha_data ctx))"
    using copy_to_ok [of "n + 1" "replicate (55 - n) 0" ?p] f(2,3) one by (simp add: drop_Cons')
  have c3: "copy_to (?t @ [0x80] @ replicate (55 - n) 0 @ drop 56 (sha_data ctx)) 56
      (HOST_l2c (sha_Nh ctx) @ HOST_l2c (sha_Nl ctx)) = Inr ?p3"
  proof -
    let ?a = "?t @ [0x80] @ replicate (55 - n) 0"
    have a: "length ?a = 56" using one f(2) by simp
    have "copy_to (?a @ drop 56 (sha_data ctx)) 56 ?be = Inr (take 56 (?a @ drop 56 (sha_data ctx)) @ ?be)"
      by (rule len) (use a f(2) in \<open>simp del: append_assoc\<close>)
    moreover have "take 56 (?a @ drop 56 (sha_data ctx)) = ?a" using a by (metis append_eq_conv_conj)
    ultimately show ?thesis unfolding counted_bytes [OF cnt] by simp
  qed
  have q: "sha_num ctx + length ?q = 64" using one n_def by simp
  have "(119 - n) mod 64 = 55 - n" using one by (simp add: le_mod_geq)
  then have pad: "fips_pad m = m @ ?q" unfolding fips_pad_def f(4) [symmetric] by simp
  have h: "fips_blocks (sha_h ctx) ?p3 = fips_blocks iv (fips_pad m)" "length ?p3 = 64"
    unfolding pad by (rule fill_block [OF fed q, of ?p3]; simp only: n_def)+
  note b2 = one_block [OF f(1) h(2), unfolded h(1)]
  have e: "(64 :: nat) - 8 = 56" "56 - (n + 1) = 55 - n" by simp_all
  show ?thesis
    unfolding SHA256_Final_def SHA_CBLOCK_def n_def [symmetric] e Let_def c0 bind_res_Inr if_not_P [OF one] prod.case c2 c3
      b2(1)
    using b2(2) by simp
qed

lemma length_concat_const: "(\<And>x. length (f x) = n) \<Longrightarrow> length (concat (map f xs)) = n * length xs"
  by (induction xs) simp_all

lemma length_fips_blocks: "length hs = 8 \<Longrightarrow> length (fips_blocks hs m) = 8"
proof (induction hs m rule: fips_blocks.induct)
  case (1 hs m)
  then show ?case using block_rounds_fips(2) [of "take 64 m" hs] by (simp add: fips_blocks.simps [of hs m])
qed

lemma length_fips_hash: "length iv = 8 \<Longrightarrow> n \<le> 32 \<Longrightarrow> length (fips_hash iv n m) = n"
  by (simp add: fips_hash_def length_concat_const [where n = 4] length_fips_blocks)

definition hash_pieces :: "SHA256_CTX \<Rightarrow> byte list list \<Rightarrow> byte list option res" where
  "hash_pieces ctx cs = bind_res (update_all cs ctx) (\<lambda>c. bind_res (SHA256_Final c) (\<lambda>(md, c). Inr md))"

lemma hash_pieces_fips:
  assumes "length iv = 8" and "sha_h ctx = iv" and "sha_data ctx = replicate 64 0" and "sha_num ctx = 0"
    and "sha_Nl ctx = 0" and "sha_Nh ctx = 0" and md: "sha_md_len ctx = 4 * k" "k \<le> 8"
  shows "hash_pieces ctx cs = Inr (Some (fips_hash iv (4 * k) (concat cs)))"
proof -
  have "fed iv [] ctx" "bits_counted [] ctx" using assms by (simp_all add: fed_def bits_counted_def fips_blocks_short)
  from update_all_fed [OF this, of cs] obtain c where c: "update_all cs ctx = Inr c" "fed iv (concat cs) c"
    "bits_counted (concat cs) c" "sha_md_len c = 4 * k" using md by auto
  from last_two_blocks [OF c(2,3)] last_block [OF c(2,3)] obtain c' where c': "SHA256_Final c = Inr (HASH_MAKE_STRING c', c')"
    "sha_h c' = fips_blocks iv (fips_pad (concat cs))" "sha_md_len c' = 4 * k"
    using c(4) by (cases "56 \<le> sha_num c") auto
  have "HASH_MAKE_STRING c' = Some (fips_hash iv (4 * k) (concat cs))"
    using c'(2,3) md(2) take_concat [of "be_bytes 4 :: u32 \<Rightarrow> byte list" 4 k]
    by (simp add: HASH_MAKE_STRING_def fips_hash_def HOST_l2c_bytes cong: map_cong)
  then show ?thesis using c(1) c'(1) by (simp add: hash_pieces_def)
qed

text \<open>C36: The hash functions are those of FIPS 180, in whatever pieces a message arrives: feeding
  the pieces to a fresh context gives the digest of their concatenation under the standard's
  constants, padding, message schedule and round function, and no access leaves the buffer or the
  input.  The same holds of the variant with 28 bytes of digest.\<close>

theorem sha256_fips:
  "hash_pieces SHA256_Init cs = Inr (Some (fips_hash (fips_H256) 32 (concat cs))) \<and>
   hash_pieces SHA224_Init cs = Inr (Some (fips_hash (fips_H224) 28 (concat cs))) \<and>
   SHA256 m = Inr (Some (fips_hash (fips_H256) 32 m)) \<and>
   SHA224 m = Inr (Some (fips_hash (fips_H224) 28 m))"
proof -
  have "hash_pieces SHA256_Init cs = Inr (Some (fips_hash (fips_H256) (4 * 8) (concat cs)))" for cs
    by (rule hash_pieces_fips) (simp_all add: SHA256_Init_fips [symmetric] SHA256_Init_def SHA_CBLOCK_def)
  moreover have "hash_pieces SHA224_Init cs = Inr (Some (fips_hash (fips_H224) (4 * 7) (concat cs)))" for cs
    by (rule hash_pieces_fips) (simp_all add: SHA224_Init_fips [symmetric] SHA224_Init_def SHA_CBLOCK_def)
  moreover have "SHA256 m = hash_pieces SHA256_Init [m]" "SHA224 m = hash_pieces SHA224_Init [m]"
    by (simp_all add: SHA256_def SHA224_def hash_pieces_def bind_res_assoc)
  ultimately show ?thesis by simp
qed

end
