(* ===== verification/Session.thy ===== *)
theory Session
  imports Store Sha256 Platform
begin

text \<open>
  Sessions (\<^verbatim>\<open>src/webapp/src/Session.cpp\<close>, \<^verbatim>\<open>src/webapp/include/Session.h\<close>, and their hooks in
  \<^verbatim>\<open>src/webapp/src/Hooks.cpp\<close>): a session is a prefix of keys in a database, with the time of its last use
  stored at the prefix itself.  Strings are their bytes; that the string operations used here
  concatenate and print is shown where they are modelled.

  A database that was never opened is \<open>None\<close>.  The clock, the random number and the status of the
  log are arguments.  \<open>mktime_sec n\<close> is what \<^verbatim>\<open>mktime\<close> makes of the epoch with \<open>n\<close> seconds added to
  its \<^verbatim>\<open>tm_sec\<close>.  A function that returns \<^verbatim>\<open>&empty\<close> or \<^verbatim>\<open>NULL\<close> returns \<open>None\<close>.
\<close>

section \<open>Data stores\<close>

record env =
  now :: int
  epoch :: int
  mktime_sec :: "int \<Rightarrow> int"
  log_status :: status

definition lit :: "string \<Rightarrow> byte list" where
  "lit s = map of_char s"

definition chars :: "byte list \<Rightarrow> string" where
  "chars bs = map (\<lambda>b. char_of (unat b)) bs"

fun get_loop :: "nat \<Rightarrow> db \<Rightarrow> byte list \<Rightarrow> nat option dbiter \<Rightarrow> byte list option \<Rightarrow> byte list option res" where
  "get_loop 0 d key it val = Inl Diverges"
| "get_loop (Suc n) d key it val =
     (if di_valid it then
        bind_res (db_key d it) (\<lambda>it_key.
        bind_res (db_value d it) (\<lambda>it_value.
        if Slice_compare it_key key > 0 then Inr val
        else bind_res (db_Next d it) (\<lambda>it. get_loop n d key it (Some it_value))))
      else Inr val)"

text \<open>The values handed out are kept until the store goes away (\<open>vals\<close>).\<close>

definition DataStore_get ::
  "byte list \<Rightarrow> db option \<Rightarrow> byte list list \<Rightarrow> (byte list option \<times> db option \<times> byte list list) res" where
  "DataStore_get key db vals =
     (case db of
        None \<Rightarrow> Inr (None, None, vals)
      | Some d \<Rightarrow>
          let (it, d) = DB_NewIterator d in
          bind_res (db_Seek d key it) (\<lambda>it.
          bind_res (get_loop (it_fuel d) d key it None) (\<lambda>val.
          case val of
            None \<Rightarrow> Inr (None, Some d, vals)
          | Some v \<Rightarrow> Inr (Some v, Some d, vals @ [v]))))"

definition DataStore_put :: "env \<Rightarrow> byte list \<Rightarrow> byte list \<Rightarrow> db option \<Rightarrow> db option res" where
  "DataStore_put e key val db =
     (case db of
        None \<Rightarrow> Inr None
      | Some d \<Rightarrow> bind_res (DB_Put (log_status e) key val d) (\<lambda>(s, d). Inr (Some d)))"

fun wipe_loop :: "env \<Rightarrow> nat \<Rightarrow> byte list \<Rightarrow> nat option dbiter \<Rightarrow> db \<Rightarrow> db res" where
  "wipe_loop e 0 key it d = Inl Diverges"
| "wipe_loop e (Suc n) key it d =
     (if di_valid it then
        bind_res (db_key d it) (\<lambda>it_key.
        if starts_with it_key key then
          bind_res (DB_Delete (log_status e) it_key d) (\<lambda>(s, d).
          bind_res (db_Next d it) (\<lambda>it. wipe_loop e n key it d))
        else Inr d)
      else Inr d)"

definition DataStore_wipe :: "env \<Rightarrow> byte list \<Rightarrow> db option \<Rightarrow> db option res" where
  "DataStore_wipe e key db =
     (case db of
        None \<Rightarrow> Inr None
      | Some d \<Rightarrow>
          let (it, d) = DB_NewIterator d in
          bind_res (db_Seek d key it) (\<lambda>it. bind_res (wipe_loop e (it_fuel d) key it d) (\<lambda>d. Inr (Some d))))"

section \<open>A session\<close>

record session =
  sess_id :: "byte list"
  sess_vals :: "byte list list"

definition seconds_since_epoch :: "env \<Rightarrow> int res" where
  "seconds_since_epoch e = chk32 (now e - epoch e)"

definition new_Session :: "env \<Rightarrow> byte list \<Rightarrow> db option \<Rightarrow> (session \<times> db option) res" where
  "new_Session e sid db =
     bind_res
       (if length sid > 0 then
          bind_res (seconds_since_epoch e) (\<lambda>diff. DataStore_put e (lit ''s_'' @ sid) (lit (snprintf_d diff)) db)
        else Inr db) (\<lambda>db.
     Inr (\<lparr>sess_id = sid, sess_vals = []\<rparr>, db))"

definition destroy_Session :: "env \<Rightarrow> session \<Rightarrow> db option \<Rightarrow> db option res" where
  "destroy_Session e s db =
     (if length (sess_id s) > 0 then DataStore_wipe e (lit ''s_'' @ sess_id s) db else Inr db)"

definition Session_get :: "byte list \<Rightarrow> session \<Rightarrow> db option \<Rightarrow> (byte list option \<times> session \<times> db option) res" where
  "Session_get key s db =
     bind_res (DataStore_get (lit ''s_'' @ sess_id s @ key) db (sess_vals s)) (\<lambda>(v, db, vals).
     Inr (v, s\<lparr>sess_vals := vals\<rparr>, db))"

definition Session_put :: "env \<Rightarrow> byte list \<Rightarrow> byte list \<Rightarrow> session \<Rightarrow> db option \<Rightarrow> db option res" where
  "Session_put e key val s db = DataStore_put e (lit ''s_'' @ sess_id s @ key) val db"

section \<open>All sessions\<close>

definition SESSIONID_SIZE :: nat where
  "SESSIONID_SIZE = 32"

definition SESSION_TIME_DEFAULT :: int where
  "SESSION_TIME_DEFAULT = 60 * 60 * 24 * 7"

text \<open>Databases are shared by path.  An open that fails writes through the deleted object.\<close>

record databases =
  opened :: "db list"
  leveldb_databases :: "(string \<times> nat) list"

definition Sessions_Init :: "status \<Rightarrow> string \<Rightarrow> databases \<Rightarrow> (nat \<times> databases) res" where
  "Sessions_Init open_status path g =
     (case map_of (leveldb_databases g) path of
        Some i \<Rightarrow> Inr (i, g)
      | None \<Rightarrow>
          bind_res (DB_Open open_status) (\<lambda>d.
          let i = length (opened g)
          in Inr (i, \<lparr>opened = opened g @ [d], leveldb_databases = (path, i) # leveldb_databases g\<rparr>)))"

definition session_expiry :: "env \<Rightarrow> db option \<Rightarrow> (int \<times> db option) res" where
  "session_expiry e db =
     bind_res (DataStore_get (lit ''session_exp'') db []) (\<lambda>(r, db, vals).
     let session_exp = (case r of None \<Rightarrow> [] | Some v \<Rightarrow> v) in
     if length session_exp = 0 then
       bind_res (DataStore_put e (lit ''session_exp'') (lit (snprintf_d SESSION_TIME_DEFAULT)) db) (\<lambda>db.
       Inr (SESSION_TIME_DEFAULT, db))
     else
       bind_res (strntol (chars session_exp) (length session_exp)) (\<lambda>n. Inr (n, db)))"

definition hex_lookup :: "byte list" where
  "hex_lookup = lit ''0123456789ABCDEF''"

definition output_hex :: "byte list \<Rightarrow> byte list" where
  "output_hex output =
     concat (map (\<lambda>b. [hex_lookup ! unat (drop_bit 4 b), hex_lookup ! unat (b AND 0x0F)])
       (take (SESSIONID_SIZE div 2) output))"

text \<open>The random number is hashed as its four bytes in memory.\<close>

definition session_id_for :: "int \<Rightarrow> byte list \<Rightarrow> byte list res" where
  "session_id_for r uid =
     bind_res (SHA256_Update SHA256_Init uid) (\<lambda>ctx.
     bind_res (SHA256_Update ctx (EncodeFixed32 (of_int r))) (\<lambda>ctx.
     bind_res (SHA256_Final ctx) (\<lambda>(md, ctx).
     case md of None \<Rightarrow> Inl Uninitialized | Some output \<Rightarrow> Inr (output_hex output))))"

definition new_session :: "env \<Rightarrow> int \<Rightarrow> byte list \<Rightarrow> db option \<Rightarrow> (session \<times> db option) res" where
  "new_session e r uid db = bind_res (session_id_for r uid) (\<lambda>sid. new_Session e sid db)"

definition session_age :: "env \<Rightarrow> byte list \<Rightarrow> int res" where
  "session_age e val =
     bind_res (strntol (chars val) (length val)) (\<lambda>n_session_time. Inr (now e - mktime_sec e n_session_time))"

fun cleanup_loop :: "env \<Rightarrow> nat \<Rightarrow> nat option dbiter \<Rightarrow> db \<Rightarrow> db res" where
  "cleanup_loop e 0 it d = Inl Diverges"
| "cleanup_loop e (Suc n) it d =
     (if di_valid it then
        bind_res (db_key d it) (\<lambda>key.
        bind_res (db_value d it) (\<lambda>val.
        bind_res
          (if \<not> starts_with key (lit ''s_'') \<or> length key \<noteq> 2 + SESSIONID_SIZE then Inr (Some d)
           else
             bind_res (session_age e val) (\<lambda>time_difference.
             bind_res (if time_difference < 0 then Inr (True, Some d)
                       else bind_res (session_expiry e (Some d)) (\<lambda>(x, db). Inr (time_difference > x, db))) (\<lambda>(old, db).
             if old then DataStore_wipe e key db else Inr db))) (\<lambda>db.
        case db of
          None \<Rightarrow> Inl NullDeref
        | Some d \<Rightarrow> bind_res (db_Next d it) (\<lambda>it. cleanup_loop e n it d))))
      else Inr d)"

definition CleanupSessions :: "env \<Rightarrow> db option \<Rightarrow> db option res" where
  "CleanupSessions e db =
     (case db of
        None \<Rightarrow> Inr None
      | Some d \<Rightarrow>
          let (it, d) = DB_NewIterator d in
          bind_res (db_SeekToFirst d it) (\<lambda>it. bind_res (cleanup_loop e (it_fuel d) it d) (\<lambda>d. Inr (Some d))))"

definition get_raw_session :: "env \<Rightarrow> db option \<Rightarrow> (session \<times> db option) res" where
  "get_raw_session e db = new_Session e [] db"

text \<open>The loop of \<^verbatim>\<open>get_session\<close>; a session from the future ends it at once.\<close>

fun find_session_loop ::
  "env \<Rightarrow> nat \<Rightarrow> byte list \<Rightarrow> nat option dbiter \<Rightarrow> session option \<Rightarrow> db \<Rightarrow> (session option \<times> db) res" where
  "find_session_loop e 0 sid it sess d = Inl Diverges"
| "find_session_loop e (Suc n) sid it sess d =
     (if di_valid it then
        bind_res (db_key d it) (\<lambda>key.
        bind_res (db_value d it) (\<lambda>val.
        if Slice_compare key (lit ''s_'' @ sid) > 0 then Inr (sess, d)
        else
          bind_res (session_age e val) (\<lambda>time_difference.
          if time_difference < 0 then Inr (None, d)
          else
            bind_res (session_expiry e (Some d)) (\<lambda>(x, db).
            bind_res
              (if time_difference < x then
                 bind_res (new_Session e sid db) (\<lambda>(s, db). Inr (Some s, db))
               else
                 case db of
                   None \<Rightarrow> Inl NullDeref
                 | Some d \<Rightarrow> bind_res (DB_Delete (log_status e) key d) (\<lambda>(st, d). Inr (sess, Some d))) (\<lambda>(sess, db).
            case db of
              None \<Rightarrow> Inl NullDeref
            | Some d \<Rightarrow> bind_res (db_Next d it) (\<lambda>it. find_session_loop e n sid it sess d))))))
      else Inr (sess, d))"

definition get_session :: "env \<Rightarrow> byte list \<Rightarrow> db option \<Rightarrow> (session option \<times> db option) res" where
  "get_session e sid db =
     (case db of
        None \<Rightarrow> Inl NullDeref
      | Some d \<Rightarrow>
          let (it, d) = DB_NewIterator d in
          bind_res (db_Seek d (lit ''s_'' @ sid) it) (\<lambda>it.
          bind_res (find_session_loop e (it_fuel d) sid it None d) (\<lambda>(s, d). Inr (s, Some d))))"

text \<open>The search for the id in the cookies, from place \<open>i\<close>: the characters are inspected at the
  start and behind a space.\<close>

definition SESSIONID_STR :: "byte list" where
  "SESSIONID_STR = lit ''sessionid''"

definition sizeof_SESSIONID_STR :: nat where
  "sizeof_SESSIONID_STR = length SESSIONID_STR + 1"

function cookie_loop :: "byte list \<Rightarrow> nat \<Rightarrow> byte list res" where
  "cookie_loop cookies i =
     (if i < length cookies then
        if length cookies - i < sizeof_SESSIONID_STR + SESSIONID_SIZE then Inr []
        else if cookies ! i = 32 \<or> i = 0 then
          let j = (if cookies ! i = 32 then i + 1 else i) in
          if take sizeof_SESSIONID_STR (drop j cookies) \<noteq> SESSIONID_STR @ lit ''='' then cookie_loop cookies (j + 1)
          else if j + sizeof_SESSIONID_STR + SESSIONID_SIZE \<le> length cookies then
            Inr (take SESSIONID_SIZE (drop (j + sizeof_SESSIONID_STR) cookies))
          else Inl OutOfBounds
        else cookie_loop cookies (i + 1)
      else Inr [])"
  by auto
termination by (relation "measure (\<lambda>(cookies, i). length cookies - i)") auto

declare cookie_loop.simps [simp del]

definition get_cookie_session :: "env \<Rightarrow> byte list \<Rightarrow> db option \<Rightarrow> (session option \<times> db option) res" where
  "get_cookie_session e cookies db =
     (if db = None then Inr (None, None)
      else if length cookies < sizeof_SESSIONID_STR + SESSIONID_SIZE then Inr (None, db)
      else
        bind_res (cookie_loop cookies 0) (\<lambda>sid.
        if length sid < SESSIONID_SIZE then Inr (None, db) else get_session e sid db))"

section \<open>Hooks\<close>

definition Session_GetValue :: "session option \<Rightarrow> byte list \<Rightarrow> db option \<Rightarrow> (byte list option \<times> session option \<times> db option) res" where
  "Session_GetValue s key db =
     (case s of
        None \<Rightarrow> Inr (None, None, db)
      | Some s \<Rightarrow> bind_res (Session_get key s db) (\<lambda>(v, s, db). Inr (v, Some s, db)))"

definition Session_SetValue :: "env \<Rightarrow> session option \<Rightarrow> byte list \<Rightarrow> byte list \<Rightarrow> db option \<Rightarrow> db option res" where
  "Session_SetValue e s key val db = (case s of None \<Rightarrow> Inr db | Some s \<Rightarrow> Session_put e key val s db)"

definition Session_Destroy :: "env \<Rightarrow> session option \<Rightarrow> db option \<Rightarrow> db option res" where
  "Session_Destroy e s db = (case s of None \<Rightarrow> Inr db | Some s \<Rightarrow> destroy_Session e s db)"

section \<open>Databases that evolve under an iterator\<close>

text \<open>A database with contents \<open>xs\<close> and numbers left for \<open>n\<close> writes.\<close>

definition kv_db :: "nat \<Rightarrow> db \<Rightarrow> kv \<Rightarrow> bool" where
  "kv_db n d xs \<longleftrightarrow> (\<exists>es. db_rel d es xs) \<and> unat (last_sequence d) + 2 * n \<le> 2 ^ 56 - 1"

text \<open>After at most \<open>n\<close> writes the contents \<open>xs\<close> have become \<open>xs'\<close>, and every iterator stands where
  it stood.\<close>

definition evolves :: "nat \<Rightarrow> db \<times> kv \<Rightarrow> db \<times> kv \<Rightarrow> bool" where
  "evolves n a b \<longleftrightarrow> unat (last_sequence (fst b)) \<le> unat (last_sequence (fst a)) + 2 * n \<and>
     (\<forall>es. db_rel (fst a) es (snd a) \<longrightarrow>
       (\<exists>es'. db_rel (fst b) es' (snd b) \<and> (\<forall>it ys k. it_rel (fst a) es it ys k \<longrightarrow> it_rel (fst b) es' it ys k)))"

lemma evolves_refl [simp]: "evolves n a a"
  by (auto simp: evolves_def)

lemma evolves_trans: "evolves n a b \<Longrightarrow> evolves m b c \<Longrightarrow> evolves (n + m) a c"
  unfolding evolves_def by (fastforce simp: algebra_simps)

lemma evolves_mono: "evolves n a b \<Longrightarrow> n \<le> m \<Longrightarrow> evolves m a b"
  unfolding evolves_def by auto

lemma kv_db_evolves: "kv_db (n + m) d xs \<Longrightarrow> evolves n (d, xs) (d', xs') \<Longrightarrow> kv_db m d' xs'"
  unfolding kv_db_def evolves_def by (auto simp: algebra_simps)

lemma kv_db_mono: "kv_db n d xs \<Longrightarrow> m \<le> n \<Longrightarrow> kv_db m d xs"
  by (auto simp: kv_db_def)

lemma kv_db_sorted: "kv_db n d xs \<Longrightarrow> sorted_wrt (<) (map fst xs)"
  by (auto simp: kv_db_def db_rel_def kv_ok_def)

lemma write_evolves:
  assumes "kv_db (Suc n) d xs" and "small_op op"
  shows "\<exists>batch d'. wb_apply op WriteBatch_Clear = Inr batch \<and> DB_Write OK batch d = Inr (OK, d') \<and>
    evolves 1 (d, xs) (d', kv_apply op xs)"
proof -
  have room: "unat (last_sequence d) + 2 \<le> 2 ^ 56 - 1" using assms(1) by (auto simp: kv_db_def)
  obtain es where rel: "db_rel d es xs" using assms(1) by (auto simp: kv_db_def)
  from DB_Write_correct [OF rel assms(2) room] obtain batch d' where
    b: "wb_apply op WriteBatch_Clear = Inr batch" "DB_Write OK batch d = Inr (OK, d')" "last_sequence d' = last_sequence d + 2"
    by blast
  have "unat (last_sequence d + 2) = unat (last_sequence d) + 2" using seq_add(1) [of "last_sequence d" 2] room by simp
  moreover have "\<exists>es'. db_rel d' es' (kv_apply op xs) \<and> (\<forall>it ys k. it_rel d es it ys k \<longrightarrow> it_rel d' es' it ys k)"
    if r: "db_rel d es xs" for es
  proof -
    from DB_Write_correct [OF r assms(2) room] obtain es' where
      w: "db_rel d' es' (kv_apply op xs)" "set es' = insert (op_entry op (last_sequence d + 1)) (set es)"
      "list_grows (table (db_mem d)) (table (db_mem d'))" using b by auto
    have "it_rel d' es' it ys k" if "it_rel d es it ys k" for it ys k
      by (rule it_rel_write [OF r w(1) that w(2,3) b(3) room])
    then show ?thesis using w(1) by blast
  qed
  ultimately have "evolves 1 (d, xs) (d', kv_apply op xs)" using b(3) by (simp add: evolves_def)
  then show ?thesis using b by blast
qed

lemma DB_Put_evolves:
  "kv_db (Suc n) d xs \<Longrightarrow> length k < 2 ^ 31 \<Longrightarrow> length v < 2 ^ 31 \<Longrightarrow>
    \<exists>d'. DB_Put OK k v d = Inr (OK, d') \<and> evolves 1 (d, xs) (d', kv_put k v xs)"
  using write_evolves [of n d xs "WbPut k v"] by (auto simp: DB_Put_def)

lemma DB_Delete_evolves:
  "kv_db (Suc n) d xs \<Longrightarrow> length k < 2 ^ 31 \<Longrightarrow>
    \<exists>d'. DB_Delete OK k d = Inr (OK, d') \<and> evolves 1 (d, xs) (d', kv_delete k xs)"
  using write_evolves [of n d xs "WbDelete k"] by (auto simp: DB_Delete_def)

section \<open>Walking over the contents\<close>

definition place :: "kv \<Rightarrow> byte list option" where
  "place xs = (case xs of [] \<Rightarrow> None | x # _ \<Rightarrow> Some (fst x))"

text \<open>The iterator \<open>it\<close>, taken when the contents were \<open>ys\<close>, has \<open>rest\<close> in front of it.\<close>

definition walking :: "db \<times> kv \<Rightarrow> nat option dbiter \<Rightarrow> kv \<Rightarrow> kv \<Rightarrow> bool" where
  "walking a it ys rest \<longleftrightarrow> suffix rest ys \<and> sorted_wrt (<) (map fst ys) \<and>
     (\<exists>es. db_rel (fst a) es (snd a) \<and> it_rel (fst a) es it ys (place rest))"

lemma walking_evolves: "walking a it ys rest \<Longrightarrow> evolves n a b \<Longrightarrow> walking b it ys rest"
  unfolding walking_def evolves_def by blast

lemma first_with_split:
  assumes "\<And>x. x \<in> set xs \<Longrightarrow> \<not> P (fst x)" and "\<And>x. x \<in> set ys \<Longrightarrow> P (fst x)"
  shows "first_with P (xs @ ys) = place ys"
proof -
  have "find (\<lambda>x. P (fst x)) (xs @ ys) = find (\<lambda>x. P (fst x)) ys" using assms(1) by (induction xs) auto
  then show ?thesis using assms(2) by (cases ys) (auto simp: first_with_def place_def)
qed

lemma walking_end: "walking (d, xs) it ys [] \<Longrightarrow> \<not> di_valid it"
  using db_read(1) by (fastforce simp: walking_def place_def)

lemma walking_Cons:
  assumes "walking (d, xs) it ys ((k, v) # rest)"
  shows "di_valid it" and "db_key d it = Inr k" and "db_value d it = Inr v"
    and "\<exists>it'. db_Next d it = Inr it' \<and> walking (d, xs) it' ys rest"
proof -
  obtain es where r: "db_rel d es xs" "it_rel d es it ys (Some k)" and so: "sorted_wrt (<) (map fst ys)"
    using assms by (auto simp: walking_def place_def)
  obtain zs where ys: "ys = zs @ (k, v) # rest" using assms by (auto simp: walking_def suffix_def)
  have "distinct (map fst ys)" using so by (simp add: strict_sorted_iff)
  from map_of_eq_Some_iff [OF this, of k v] have "map_of ys k = Some v" by (simp add: ys)
  then show "di_valid it" "db_key d it = Inr k" "db_value d it = Inr v" using db_read [OF r] by auto
  have "first_with (\<lambda>u. k < u) ((zs @ [(k, v)]) @ rest) = place rest"
    by (rule first_with_split) (use so in \<open>auto simp: ys sorted_wrt_append\<close>)
  then have "first_with (\<lambda>u. k < u) ys = place rest" unfolding ys by simp
  with db_moves(4) [OF r refl] r so show "\<exists>it'. db_Next d it = Inr it' \<and> walking (d, xs) it' ys rest"
    unfolding walking_def ys by (auto intro: suffix_appendI suffix_ConsI)
qed

lemma walking_later: "walking a it ys ((k, v) # rest) \<Longrightarrow> \<forall>y \<in> set rest. k < fst y"
proof -
  assume "walking a it ys ((k, v) # rest)"
  then obtain zs where "ys = zs @ (k, v) # rest" "sorted_wrt (<) (map fst ys)" by (auto simp: walking_def suffix_def)
  then show ?thesis by (simp add: sorted_wrt_append)
qed

lemma kv_keys: "db_rel d es xs \<Longrightarrow> fst ` set xs \<subseteq> ukey ` set es"
proof
  fix u
  assume rel: "db_rel d es xs" and "u \<in> fst ` set xs"
  then have "view es (last_sequence d) u \<noteq> None" using kv_dom [of es "last_sequence d" xs u] by (simp add: db_rel_def)
  then obtain e where "find (sees u (last_sequence d)) es = Some e" by (auto simp: view_def split: option.splits)
  then have "e \<in> set es" "ukey e = u" by (auto simp: find_Some_iff sees_def)
  then show "u \<in> ukey ` set es" by auto
qed

lemma kv_length:
  assumes "db_rel d es xs"
  shows "length xs \<le> length es"
proof -
  have "card (fst ` set xs) \<le> card (ukey ` set es)" using kv_keys [OF assms] by (intro card_mono) simp_all
  also have "\<dots> \<le> length es" using card_image_le [of "set es" ukey] card_length [of es] by simp
  finally show ?thesis
    using distinct_card [of "map fst xs"] assms by (simp add: db_rel_def kv_ok_def strict_sorted_iff)
qed

lemma kv_small:
  assumes "kv_db n d xs" and "x \<in> set xs"
  shows "length (fst x) < 2 ^ 31"
proof -
  obtain es where rel: "db_rel d es xs" using assms(1) by (auto simp: kv_db_def)
  then have "\<forall>e \<in> set es. entry_ok e" by (auto simp: db_rel_def holds_def holds_at_def)
  moreover have "fst x \<in> ukey ` set es" using kv_keys [OF rel] assms(2) by auto
  ultimately show ?thesis by (auto simp: entry_ok_def key_ok_def)
qed

lemma new_iterator:
  assumes "kv_db n d xs" and "DB_NewIterator d = (it, d1)"
  shows "\<exists>es. db_rel d1 es xs \<and> it_rel d1 es it xs None" and "evolves 0 (d, xs) (d1, xs)" and "length xs < it_fuel d1"
proof -
  have m: "last_sequence d \<le> kMaxSequenceNumber" using assms(1) seq_add(2) [of "last_sequence d" 0] by (auto simp: kv_db_def)
  obtain es where "db_rel d es xs" using assms(1) by (auto simp: kv_db_def)
  note c = DB_NewIterator_correct [OF this m assms(2)]
  show "\<exists>es. db_rel d1 es xs \<and> it_rel d1 es it xs None" using c(1,2) by blast
  have "it_rel d1 es it' ys k" if "it_rel d es it' ys k" for es it' ys k
    using that c(3,4) by (simp add: it_rel_def)
  then show "evolves 0 (d, xs) (d1, xs)"
    unfolding evolves_def fst_conv snd_conv using DB_NewIterator_correct(1) [OF _ m assms(2)] c(3)
    by (intro conjI allI impI) (simp, blast)
  show "length xs < it_fuel d1"
    using kv_length [OF c(1)] it_fuel_enough [of d1 es] c(1) by (simp add: db_rel_def)
qed

lemma seek_walking:
  assumes "kv_db n d xs" and "DB_NewIterator d = (it, d1)" and "length key < 2 ^ 31"
  shows "\<exists>it' us rest. db_Seek d1 key it = Inr it' \<and> walking (d1, xs) it' xs rest \<and> xs = us @ rest \<and>
    (\<forall>x \<in> set us. fst x < key) \<and> (\<forall>x \<in> set rest. key \<le> fst x)"
proof -
  have so: "sorted_wrt (<) (map fst xs)" using kv_db_sorted [OF assms(1)] .
  from new_iterator(1) [OF assms(1,2)] obtain es where r: "db_rel d1 es xs" "it_rel d1 es it xs None" by blast
  define us where "us = takeWhile (\<lambda>x. fst x < key) xs"
  define rest where "rest = dropWhile (\<lambda>x. fst x < key) xs"
  have xs: "xs = us @ rest" by (simp add: us_def rest_def)
  have u: "\<forall>x \<in> set us. fst x < key" by (auto simp: us_def dest: set_takeWhileD)
  have "\<forall>x \<in> set rest. key \<le> fst x"
  proof (cases rest)
    case (Cons y ys)
    then have "key \<le> fst y" using hd_dropWhile [of "\<lambda>x. fst x < key" xs] unfolding rest_def by auto
    then show ?thesis using so Cons unfolding xs by (fastforce simp: sorted_wrt_append)
  qed simp
  moreover from this u have "first_with (\<lambda>x. key \<le> x) xs = place rest"
    unfolding xs by (intro first_with_split) (auto simp: not_le)
  with db_moves(1) [OF r assms(3)] obtain it' where "db_Seek d1 key it = Inr it'" "it_rel d1 es it' xs (place rest)" by auto
  moreover have "suffix rest xs" unfolding xs by (simp add: suffix_def)
  ultimately show ?thesis using xs u r(1) so unfolding walking_def by (intro exI [of _ it'] exI [of _ us] exI [of _ rest]) auto
qed

section \<open>Data stores over the contents\<close>

lemma get_loop_walk:
  assumes "walking (d, xs) it ys rest" and "\<forall>x \<in> set rest. key \<le> fst x" and "length rest < n"
  shows "get_loop n d key it val = Inr (case map_of rest key of None \<Rightarrow> val | Some v \<Rightarrow> Some v)"
  using assms
proof (induction rest arbitrary: n it val)
  case Nil
  then show ?case using walking_end [of d xs it ys] by (cases n) auto
next
  case (Cons x rest)
  obtain k v where x: "x = (k, v)" by fastforce
  obtain n' where n: "n = Suc n'" using Cons.prems(3) by (cases n) auto
  note w = walking_Cons [OF Cons.prems(1) [unfolded x]]
  obtain it' where it': "db_Next d it = Inr it'" "walking (d, xs) it' ys rest" using w(4) by blast
  have so: "\<forall>y \<in> set rest. k < fst y" using walking_later [OF Cons.prems(1) [unfolded x]] .
  have later: "map_of rest key = None" if "key \<le> k"
    unfolding map_of_eq_None_iff using so that by force
  show ?case
  proof (cases "key < k")
    case True
    then have "\<not> k < key" "key \<noteq> k" by auto
    then show ?thesis using True w(1-3) later n x by (simp add: Slice_compare_lex)
  next
    case False
    then have "k = key" using Cons.prems(2) x by auto
    then show ?thesis using w(1-3) it' Cons.IH [OF it'(2), of n' "Some v"] Cons.prems(2,3) later n x
      by (simp add: Slice_compare_lex)
  qed
qed

lemma DataStore_get_evolves:
  assumes "kv_db n d xs" and "length key < 2 ^ 31"
  shows "\<exists>d' vals'. DataStore_get key (Some d) vals = Inr (map_of xs key, Some d', vals') \<and> evolves 0 (d, xs) (d', xs)"
proof -
  obtain it d1 where n: "DB_NewIterator d = (it, d1)" by fastforce
  from seek_walking [OF assms(1) n assms(2)] obtain it' us rest where
    w: "db_Seek d1 key it = Inr it'" "walking (d1, xs) it' xs rest" "xs = us @ rest" "\<forall>x \<in> set us. fst x < key"
    "\<forall>x \<in> set rest. key \<le> fst x" by blast
  have "length rest < it_fuel d1" using new_iterator(3) [OF assms(1) n] w(3) by simp
  note g = get_loop_walk [OF w(2,5) this, of None]
  have "map_of us key = None" unfolding map_of_eq_None_iff using w(4) by auto
  then have "map_of xs key = map_of rest key" unfolding w(3) map_of_append by (simp add: map_add_def)
  then show ?thesis using n w(1) g new_iterator(2) [OF assms(1) n] by (auto simp: DataStore_get_def split: option.splits)
qed

lemma DataStore_put_evolves:
  assumes "kv_db (Suc n) d xs" and "length k < 2 ^ 31" and "length v < 2 ^ 31" and "log_status e = OK"
  shows "\<exists>d'. DataStore_put e k v (Some d) = Inr (Some d') \<and> evolves 1 (d, xs) (d', kv_put k v xs)"
  using DB_Put_evolves [OF assms(1-3)] assms(4) by (auto simp: DataStore_put_def)

text \<open>Keys with a common prefix are neighbours.\<close>

lemma prefix_le: "prefix p u \<Longrightarrow> p \<le> u" for p u :: "byte list"
proof (induction p arbitrary: u)
  case (Cons a p)
  then show ?case by (cases u) auto
qed simp

lemma prefix_gap: "p \<le> u \<Longrightarrow> \<not> prefix p u \<Longrightarrow> u < w \<Longrightarrow> \<not> prefix p w" for p u w :: "byte list"
proof (induction p arbitrary: u w)
  case (Cons a p)
  show ?case
  proof
    assume "prefix (a # p) w"
    then obtain w' where w: "w = a # w'" "prefix p w'" by (cases w) auto
    obtain b u' where u: "u = b # u'" using Cons.prems(1) by (cases u) auto
    have "a \<le> b" "b \<le> a" using Cons.prems(1,3) u w by auto
    then have "b = a" by simp
    then show False using Cons.IH [of u' w'] Cons.prems u w by auto
  qed
qed simp

lemma kv_delete_filter: "sorted_wrt (<) (map fst xs) \<Longrightarrow> kv_delete k xs = filter (\<lambda>x. fst x \<noteq> k) xs"
proof (induction k xs rule: kv_delete.induct)
  case (2 k a b xs)
  have "\<forall>x \<in> set xs. fst x \<noteq> a" using "2.prems" by auto
  then show ?case using 2 by (auto simp: filter_id_conv)
qed simp

lemma sorted_filter_fst: "sorted_wrt (<) (map fst xs) \<Longrightarrow> sorted_wrt (<) (map fst (filter P xs))"
  by (induction xs) auto

abbreviation below :: "byte list \<Rightarrow> kv \<Rightarrow> kv" where
  "below p xs \<equiv> filter (\<lambda>x. prefix p (fst x)) xs"

lemma wipe_loop_walk:
  assumes "kv_db (length (below p rest) + m) d xs" and "walking (d, xs) it ys rest" and "\<forall>x \<in> set rest. p \<le> fst x"
    and "length rest < n" and "log_status e = OK" and "\<forall>x \<in> set rest. length (fst x) < 2 ^ 31"
  shows "\<exists>d'. wipe_loop e n p it d = Inr d' \<and>
    evolves (length (below p rest)) (d, xs) (d', filter (\<lambda>x. fst x \<notin> fst ` set rest \<or> \<not> prefix p (fst x)) xs)"
  using assms(1-4,6)
proof (induction rest arbitrary: n it d xs)
  case Nil
  then show ?case using walking_end [of d xs it ys] by (cases n) auto
next
  case (Cons x rest)
  obtain k v where x: "x = (k, v)" by fastforce
  obtain n' where n: "n = Suc n'" using Cons.prems(4) by (cases n) auto
  note w = walking_Cons [OF Cons.prems(2) [unfolded x]]
  have later: "\<forall>y \<in> set rest. k < fst y" using walking_later [OF Cons.prems(2) [unfolded x]] .
  show ?case
  proof (cases "prefix p k")
    case True
    let ?r = "length (below p rest)"
    have kd0: "kv_db (Suc (?r + m)) d xs" using Cons.prems(1) True x by simp
    from DB_Delete_evolves [OF this, of k] obtain d1 where
      d1: "DB_Delete OK k d = Inr (OK, d1)" "evolves 1 (d, xs) (d1, kv_delete k xs)" using Cons.prems(5) x by auto
    have kd: "kv_delete k xs = filter (\<lambda>x. fst x \<noteq> k) xs" using kv_delete_filter kv_db_sorted [OF kd0] by blast
    have k1: "kv_db (?r + m) d1 (kv_delete k xs)" using kv_db_evolves [of 1 "?r + m" d xs] kd0 d1(2) by simp
    from walking_Cons(4) [OF walking_evolves [OF Cons.prems(2) [unfolded x] d1(2)]] obtain it' where
      it': "db_Next d1 it = Inr it'" "walking (d1, kv_delete k xs) it' ys rest" by blast
    from Cons.IH [OF k1 it'(2), of n'] Cons.prems(3-5) n obtain d' where
      d': "wipe_loop e n' p it' d1 = Inr d'" "evolves ?r (d1, kv_delete k xs)
        (d', filter (\<lambda>x. fst x \<notin> fst ` set rest \<or> \<not> prefix p (fst x)) (kv_delete k xs))" by auto
    have "filter (\<lambda>x. fst x \<notin> fst ` set rest \<or> \<not> prefix p (fst x)) (kv_delete k xs) =
        filter (\<lambda>y. fst y \<notin> fst ` set (x # rest) \<or> \<not> prefix p (fst y)) xs"
      unfolding kd filter_filter using True x by (intro filter_cong) auto
    with evolves_trans [OF d1(2) d'(2)] have "evolves (length (below p (x # rest))) (d, xs)
        (d', filter (\<lambda>y. fst y \<notin> fst ` set (x # rest) \<or> \<not> prefix p (fst y)) xs)" using True x by simp
    then show ?thesis using w(1,2) d1(1) it'(1) d'(1) n True assms(5) by (auto simp: starts_with_prefix)
  next
    case False
    have "\<not> prefix p (fst y)" if "y \<in> set (x # rest)" for y
      using prefix_gap [of p k "fst y"] False later that Cons.prems(3) x by auto
    then have "filter (\<lambda>y. fst y \<notin> fst ` set (x # rest) \<or> \<not> prefix p (fst y)) xs = xs"
      by (intro filter_True) force
    then show ?thesis using w(1,2) n False by (auto simp: starts_with_prefix)
  qed
qed

lemma DataStore_wipe_evolves:
  assumes k: "kv_db (length (below p xs) + m) d xs" and p: "length p < 2 ^ 31" and e: "log_status e = OK"
  shows "\<exists>d'. DataStore_wipe e p (Some d) = Inr (Some d') \<and>
    evolves (length (below p xs)) (d, xs) (d', filter (\<lambda>x. \<not> prefix p (fst x)) xs)"
proof -
  obtain it d1 where n: "DB_NewIterator d = (it, d1)" by fastforce
  from seek_walking [OF k n p] obtain it' us rest where
    w: "db_Seek d1 p it = Inr it'" "walking (d1, xs) it' xs rest" "xs = us @ rest" "\<forall>x \<in> set us. fst x < p"
    "\<forall>x \<in> set rest. p \<le> fst x" by blast
  note ev = new_iterator(2) [OF k n]
  have us: "\<not> prefix p (fst x)" if "x \<in> set us" for x using w(4) that prefix_le [of p "fst x"] by force
  then have b: "below p xs = below p rest" unfolding w(3) by simp
  have k1: "kv_db (length (below p rest) + m) d1 xs" using kv_db_evolves [of 0] k ev b by simp
  have "length rest < it_fuel d1" "\<forall>x \<in> set rest. length (fst x) < 2 ^ 31"
    using new_iterator(3) [OF k n] kv_small [OF k] w(3) by auto
  from wipe_loop_walk [OF k1 w(2,5) this(1) e this(2)] obtain d' where
    d': "wipe_loop e (it_fuel d1) p it' d1 = Inr d'"
    "evolves (length (below p rest)) (d1, xs) (d', filter (\<lambda>x. fst x \<notin> fst ` set rest \<or> \<not> prefix p (fst x)) xs)" by blast
  have "filter (\<lambda>x. fst x \<notin> fst ` set rest \<or> \<not> prefix p (fst x)) xs = filter (\<lambda>x. \<not> prefix p (fst x)) xs"
    using us unfolding w(3) by (intro filter_cong) auto
  then show ?thesis using evolves_trans [OF ev d'(2)] w(1) d'(1) n b by (simp add: DataStore_wipe_def)
qed

section \<open>Ids\<close>

definition is_hex :: "byte \<Rightarrow> bool" where
  "is_hex b \<longleftrightarrow> (48 \<le> b \<and> b \<le> 57) \<or> (65 \<le> b \<and> b \<le> 70)"

lemma hex_lookup_nth: "i < 16 \<Longrightarrow> is_hex (hex_lookup ! i)"
proof -
  assume "i < 16"
  moreover have "list_all is_hex hex_lookup" "length hex_lookup = 16" by code_simp+
  ultimately show ?thesis by (simp add: list_all_length)
qed

lemma output_hex_type:
  assumes "16 \<le> length output"
  shows "length (output_hex output) = SESSIONID_SIZE" and "\<forall>c \<in> set (output_hex output). is_hex c"
proof -
  show "length (output_hex output) = SESSIONID_SIZE"
    using assms unfolding output_hex_def by (subst length_concat_const [where n = 2]) (simp_all add: SESSIONID_SIZE_def)
  have "unat (drop_bit 4 b) < 16" "unat (b AND 15) < 16" for b :: byte
  proof -
    show "unat (drop_bit 4 b) < 16" using unsigned_less [of b] unfolding unat_drop_bit by (simp add: div_less_iff_less_mult)
    have "b AND 15 \<le> 15" by (rule word_and_le1)
    then show "unat (b AND 15) < 16" by (simp add: word_le_nat_alt)
  qed
  then show "\<forall>c \<in> set (output_hex output). is_hex c"
    unfolding output_hex_def by (auto intro!: hex_lookup_nth)
qed

definition fips_id :: "int \<Rightarrow> byte list \<Rightarrow> byte list" where
  "fips_id r uid = output_hex (fips_hash fips_H256 32 (uid @ EncodeFixed32 (of_int r)))"

lemma session_id_for_fips: "session_id_for r uid = Inr (fips_id r uid)"
proof -
  have "hash_pieces SHA256_Init [uid, EncodeFixed32 (of_int r)] =
      Inr (Some (fips_hash fips_H256 (4 * 8) (concat [uid, EncodeFixed32 (of_int r)])))"
    by (rule hash_pieces_fips) (simp_all add: SHA256_Init_fips [symmetric] SHA256_Init_def SHA_CBLOCK_def)
  then show ?thesis
    by (auto simp: session_id_for_def hash_pieces_def fips_id_def bind_res_assoc bind_res_eq_Inr_iff)
qed

section \<open>What sessions mean\<close>

text \<open>A map from ids to maps from keys to values; the time of the last use is the value at the
  empty key.  Programs are lists of calls, each with the environment it runs in.\<close>

type_synonym sess_map = "byte list \<Rightarrow> byte list \<rightharpoonup> byte list"

datatype sess_step =
    NewSession int "byte list" | OpenSession "byte list" | PutValue "byte list" "byte list" "byte list"
  | GetValue "byte list" "byte list" | DestroySession "byte list"

datatype sess_seen = Opened "byte list option" | Value "byte list option" | Done

abbreviation handle :: "byte list \<Rightarrow> session" where
  "handle sid \<equiv> \<lparr>sess_id = sid, sess_vals = []\<rparr>"

primrec sess_do :: "env \<Rightarrow> sess_step \<Rightarrow> db option \<Rightarrow> (sess_seen \<times> db option) res" where
  "sess_do e (NewSession r uid) db = bind_res (new_session e r uid db) (\<lambda>(s, db). Inr (Opened (Some (sess_id s)), db))"
| "sess_do e (OpenSession sid) db = bind_res (get_session e sid db) (\<lambda>(s, db). Inr (Opened (map_option sess_id s), db))"
| "sess_do e (PutValue sid k v) db = bind_res (Session_SetValue e (Some (handle sid)) k v db) (\<lambda>db. Inr (Done, db))"
| "sess_do e (GetValue sid k) db =
     bind_res (Session_GetValue (Some (handle sid)) k db) (\<lambda>(v, s, db). Inr (Value v, db))"
| "sess_do e (DestroySession sid) db = bind_res (Session_Destroy e (Some (handle sid)) db) (\<lambda>db. Inr (Done, db))"

fun sess_run :: "(env \<times> sess_step) list \<Rightarrow> db option \<Rightarrow> sess_seen list res" where
  "sess_run [] db = Inr []"
| "sess_run ((e, st) # sts) db =
     bind_res (sess_do e st db) (\<lambda>(x, db). bind_res (sess_run sts db) (\<lambda>xs. Inr (x # xs)))"

definition sess_touch :: "env \<Rightarrow> byte list \<Rightarrow> sess_map \<Rightarrow> (sess_seen \<times> sess_map) res" where
  "sess_touch e sid m =
     bind_res (seconds_since_epoch e) (\<lambda>t.
     Inr (Opened (Some sid), m(sid := (m sid)([] \<mapsto> lit (snprintf_d t)))))"

primrec sess_spec :: "env \<Rightarrow> sess_step \<Rightarrow> sess_map \<Rightarrow> (sess_seen \<times> sess_map) res" where
  "sess_spec e (NewSession r uid) m = sess_touch e (fips_id r uid) m"
| "sess_spec e (OpenSession sid) m =
     (case m sid [] of
        None \<Rightarrow> Inr (Opened None, m)
      | Some v \<Rightarrow>
          bind_res (session_age e v) (\<lambda>age.
          if age < 0 then Inr (Opened None, m)
          else if age < SESSION_TIME_DEFAULT then sess_touch e sid m
          else Inr (Opened None, m(sid := (m sid)([] := None)))))"
| "sess_spec e (PutValue sid k v) m = Inr (Done, m(sid := (m sid)(k \<mapsto> v)))"
| "sess_spec e (GetValue sid k) m = Inr (Value (m sid k), m)"
| "sess_spec e (DestroySession sid) m = Inr (Done, m(sid := Map.empty))"

fun sess_spec_run :: "(env \<times> sess_step) list \<Rightarrow> sess_map \<Rightarrow> sess_seen list res" where
  "sess_spec_run [] m = Inr []"
| "sess_spec_run ((e, st) # sts) m =
     bind_res (sess_spec e st m) (\<lambda>(x, m). bind_res (sess_spec_run sts m) (\<lambda>xs. Inr (x # xs)))"

primrec sess_ok :: "sess_step \<Rightarrow> bool" where
  "sess_ok (NewSession r uid) \<longleftrightarrow> True"
| "sess_ok (OpenSession sid) \<longleftrightarrow> length sid = SESSIONID_SIZE"
| "sess_ok (PutValue sid k v) \<longleftrightarrow> length sid = SESSIONID_SIZE \<and> length k + 34 < 2 ^ 31 \<and> length v < 2 ^ 31"
| "sess_ok (GetValue sid k) \<longleftrightarrow> length sid = SESSIONID_SIZE \<and> length k + 34 < 2 ^ 31"
| "sess_ok (DestroySession sid) \<longleftrightarrow> length sid = SESSIONID_SIZE"

text \<open>The contents of a database that stand for the map \<open>m\<close>, with numbers left for \<open>n\<close> writes beside
  the deletion of every key.\<close>

definition sess_rel :: "nat \<Rightarrow> db \<Rightarrow> kv \<Rightarrow> sess_map \<Rightarrow> bool" where
  "sess_rel n d xs m \<longleftrightarrow> kv_db (n + length xs) d xs \<and>
     (\<forall>sid k. length sid = SESSIONID_SIZE \<longrightarrow> m sid k = map_of xs (lit ''s_'' @ sid @ k)) \<and>
     map_of xs (lit ''session_exp'') \<in> {None, Some (lit (snprintf_d SESSION_TIME_DEFAULT))}"

lemma length_lit [simp]: "length (lit s) = length s"
  by (simp add: lit_def)

lemma lit_Nil [simp]: "lit s = [] \<longleftrightarrow> s = []"
  by (simp add: lit_def)

lemma chars_lit [simp]: "chars (lit s) = s"
proof -
  have "char_of (unat (of_char c :: byte)) = c" for c
  proof -
    have "unat (of_char c :: byte) = of_char c"
      by (simp only: of_char_def) (simp add: of_char_def horner_sum_foldr)
    then show ?thesis by simp
  qed
  then show ?thesis by (simp add: chars_def lit_def o_def)
qed

section \<open>Refinement\<close>

lemma sess_key_eq:
  "length sid = length sid' \<Longrightarrow> lit ''s_'' @ sid @ k = lit ''s_'' @ sid' @ k' \<longleftrightarrow> sid = sid' \<and> k = k'"
  by auto

lemma sess_key_prefix: "length sid = length sid' \<Longrightarrow> prefix sid (sid' @ k) \<longleftrightarrow> sid = sid'"
  by (auto simp: prefix_def)

lemma exp_key: "lit ''session_exp'' \<noteq> lit ''s_'' @ x" "\<not> prefix (lit ''s_'' @ x) (lit ''session_exp'')"
proof -
  have "take 2 (lit ''session_exp'') \<noteq> lit ''s_''" by code_simp
  then show "lit ''session_exp'' \<noteq> lit ''s_'' @ x" for x by (metis append_eq_conv_conj length_lit length_Cons list.size(3) numeral_2_eq_2)
  then show "\<not> prefix (lit ''s_'' @ x) (lit ''session_exp'')" by (auto simp: prefix_def)
qed

lemma length_kv_put: "length (kv_put k v xs) \<le> Suc (length xs)"
  by (induction k v xs rule: kv_put.induct) auto

lemma length_kv_delete: "length (kv_delete k xs) \<le> length xs"
  by (induction k xs rule: kv_delete.induct) auto

lemma kv_put_budget:
  assumes "kv_db (2 + n + length xs) d xs" and "evolves 1 (d, xs) (d', kv_put k v xs)"
  shows "kv_db (n + length (kv_put k v xs)) d' (kv_put k v xs)"
proof -
  have "kv_db (n + length xs + 1) d' (kv_put k v xs)" using kv_db_evolves [of 1 "n + length xs + 1" d xs] assms by simp
  then show ?thesis using length_kv_put [of k v xs] by (elim kv_db_mono) simp
qed

lemma put_rel:
  assumes rel: "sess_rel (2 + n) d xs m" and e: "log_status e = OK" and sid: "length sid = SESSIONID_SIZE"
    and small: "length k + 34 < 2 ^ 31" "length v < 2 ^ 31"
  shows "\<exists>d' xs'. DataStore_put e (lit ''s_'' @ sid @ k) v (Some d) = Inr (Some d') \<and>
    sess_rel n d' xs' (m(sid := (m sid)(k \<mapsto> v))) \<and> evolves 1 (d, xs) (d', xs')"
proof -
  let ?k = "lit ''s_'' @ sid @ k"
  have k: "kv_db (2 + n + length xs) d xs" using rel by (simp add: sess_rel_def)
  then have "kv_db (Suc (1 + n + length xs)) d xs" "length ?k < 2 ^ 31" using sid small(1) by (simp_all add: SESSIONID_SIZE_def)
  from DataStore_put_evolves [OF this small(2) e] obtain d' where
    d': "DataStore_put e ?k v (Some d) = Inr (Some d')" "evolves 1 (d, xs) (d', kv_put ?k v xs)" by blast
  have mo: "map_of (kv_put ?k v xs) u = (if u = ?k then Some v else map_of xs u)" for u
    using map_of_kv_put kv_db_sorted [OF k] by blast
  have "sess_rel n d' (kv_put ?k v xs) (m(sid := (m sid)(k \<mapsto> v)))"
    unfolding sess_rel_def mo
    using kv_put_budget [OF k d'(2)] rel sid exp_key(1) by (auto simp: sess_rel_def sess_key_eq)
  then show ?thesis using d' by blast
qed

lemma delete_rel:
  assumes rel: "sess_rel (1 + n) d xs m" and sid: "length sid = SESSIONID_SIZE" and small: "length k + 34 < 2 ^ 31"
  shows "\<exists>d' xs'. DB_Delete OK (lit ''s_'' @ sid @ k) d = Inr (OK, d') \<and>
    sess_rel n d' xs' (m(sid := (m sid)(k := None))) \<and> evolves 1 (d, xs) (d', xs')"
proof -
  let ?k = "lit ''s_'' @ sid @ k"
  have k: "kv_db (Suc (n + length xs)) d xs" "length ?k < 2 ^ 31"
    using rel sid small by (simp_all add: sess_rel_def SESSIONID_SIZE_def)
  from DB_Delete_evolves [OF this] obtain d' where
    d': "DB_Delete OK ?k d = Inr (OK, d')" "evolves 1 (d, xs) (d', kv_delete ?k xs)" by blast
  have mo: "map_of (kv_delete ?k xs) u = (if u = ?k then None else map_of xs u)" for u
    using map_of_kv_delete kv_db_sorted [OF k(1)] by blast
  have "kv_db (n + length xs) d' (kv_delete ?k xs)" using kv_db_evolves [of 1 "n + length xs" d xs] k(1) d'(2) by simp
  then have "kv_db (n + length (kv_delete ?k xs)) d' (kv_delete ?k xs)"
    using length_kv_delete [of ?k xs] by (elim kv_db_mono) simp
  then have "sess_rel n d' (kv_delete ?k xs) (m(sid := (m sid)(k := None)))"
    unfolding sess_rel_def mo using rel sid exp_key(1) by (auto simp: sess_rel_def sess_key_eq)
  then show ?thesis using d' by blast
qed

lemma expiry_rel:
  assumes rel: "sess_rel (2 + n) d xs m" and e: "log_status e = OK"
  shows "\<exists>d' xs'. session_expiry e (Some d) = Inr (SESSION_TIME_DEFAULT, Some d') \<and> sess_rel n d' xs' m \<and>
    evolves 1 (d, xs) (d', xs')"
proof -
  let ?k = "lit ''session_exp''" and ?v = "lit (snprintf_d SESSION_TIME_DEFAULT)"
  have k: "kv_db (2 + n + length xs) d xs" using rel by (simp add: sess_rel_def)
  obtain d1 vals where g: "DataStore_get ?k (Some d) [] = Inr (map_of xs ?k, Some d1, vals)" "evolves 0 (d, xs) (d1, xs)"
    using DataStore_get_evolves [OF k, of ?k "[]"] by auto
  have k1: "kv_db (2 + n + length xs) d1 xs" using kv_db_evolves [of 0] k g(2) by simp
  have p: "in_i32 SESSION_TIME_DEFAULT" by (simp add: SESSION_TIME_DEFAULT_def in_i32_def)
  show ?thesis
  proof (cases "map_of xs ?k")
    case None
    have "kv_db (Suc (1 + n + length xs)) d1 xs" "length ?v < 2 ^ 31"
      using k1 length_snprintf_d [OF p] by simp_all
    from DataStore_put_evolves [OF this(1) _ this(2) e, of ?k] obtain d' where
      d': "DataStore_put e ?k ?v (Some d1) = Inr (Some d')" "evolves 1 (d1, xs) (d', kv_put ?k ?v xs)" by auto
    have mo: "map_of (kv_put ?k ?v xs) u = (if u = ?k then Some ?v else map_of xs u)" for u
      using map_of_kv_put kv_db_sorted [OF k] by blast
    have "sess_rel n d' (kv_put ?k ?v xs) m"
      unfolding sess_rel_def mo using kv_put_budget [OF k1 d'(2)] rel exp_key(1) [symmetric] by (auto simp: sess_rel_def)
    then show ?thesis using None g(1) d'(1) evolves_trans [OF g(2) d'(2)] by (auto simp: session_expiry_def)
  next
    case (Some v)
    then have v: "v = ?v" using rel by (auto simp: sess_rel_def)
    have "strntol (chars ?v) (length ?v) = Inr SESSION_TIME_DEFAULT"
      using strntol_printed [of SESSION_TIME_DEFAULT "[]"] p by (simp add: SESSION_TIME_DEFAULT_def)
    moreover have "sess_rel n d1 xs m" using rel k1 by (auto simp: sess_rel_def elim: kv_db_mono)
    moreover have "length ?v \<noteq> 0" by simp
    ultimately show ?thesis using Some g evolves_mono [OF g(2), of 1] v unfolding session_expiry_def
      by (auto simp: Let_def)
  qed
qed

text \<open>Creating the object of a session writes its time.\<close>

lemma new_Session_rel:
  assumes rel: "sess_rel (2 + n) d xs m" and e: "log_status e = OK" and sid: "length sid = SESSIONID_SIZE"
  shows "case sess_touch e sid m of
      Inl x \<Rightarrow> new_Session e sid (Some d) = Inl x
    | Inr (o', m') \<Rightarrow> \<exists>d' xs'. new_Session e sid (Some d) = Inr (handle sid, Some d') \<and> sess_rel n d' xs' m' \<and>
        evolves 1 (d, xs) (d', xs') \<and> o' = Opened (Some sid)"
proof (cases "seconds_since_epoch e")
  case (Inl x)
  then show ?thesis using sid by (auto simp: sess_touch_def new_Session_def SESSIONID_SIZE_def)
next
  case (Inr t)
  then have "in_i32 t" by (simp add: seconds_since_epoch_def chk32_def split: if_splits)
  then have "length (lit (snprintf_d t)) < 2 ^ 31" using length_snprintf_d [of t] by simp
  from put_rel [OF rel e sid _ this, of "[]"] show ?thesis
    using Inr sid by (auto simp: sess_touch_def new_Session_def SESSIONID_SIZE_def)
qed

lemma find_session_stop:
  assumes "walking (d, xs) it ys rest" and "\<forall>x \<in> set rest. lit ''s_'' @ sid < fst x"
  shows "find_session_loop e (Suc n) sid it sess d = Inr (sess, d)"
proof (cases rest)
  case Nil
  then show ?thesis using walking_end [of d xs it ys] assms(1) by simp
next
  case (Cons x rest')
  obtain k v where x: "x = (k, v)" by fastforce
  have "\<not> k < lit ''s_'' @ sid" "lit ''s_'' @ sid < k" using assms(2) Cons x by auto
  then show ?thesis using walking_Cons(1-3) [OF assms(1) [unfolded Cons x]] by (simp add: Slice_compare_lex)
qed

lemma find_session_hit:
  assumes rel: "sess_rel (2 + (2 + n)) d xs m" and e: "log_status e = OK" and sid: "length sid = SESSIONID_SIZE"
    and w: "walking (d, xs) it ys ((lit ''s_'' @ sid, v) # rest)" and age: "session_age e v = Inr a" "0 \<le> a"
    and spec: "spec = (if a < SESSION_TIME_DEFAULT then sess_touch e sid m
      else Inr (Opened None, m(sid := (m sid)([] := None))))"
  shows "case spec of
      Inl x \<Rightarrow> find_session_loop e (Suc (Suc j)) sid it None d = Inl x
    | Inr (x, m') \<Rightarrow> \<exists>s d' xs'. find_session_loop e (Suc (Suc j)) sid it None d = Inr (s, d') \<and>
        x = Opened (map_option sess_id s) \<and> sess_rel n d' xs' m'"
proof -
  let ?k = "lit ''s_'' @ sid"
  note wc = walking_Cons [OF w]
  have hit: "find_session_loop e (Suc (Suc j)) sid it None d =
      bind_res (session_expiry e (Some d)) (\<lambda>(x, db).
      bind_res (if a < x then bind_res (new_Session e sid db) (\<lambda>(s, db). Inr (Some s, db))
        else case db of None \<Rightarrow> Inl NullDeref
          | Some d \<Rightarrow> bind_res (DB_Delete (log_status e) ?k d) (\<lambda>(st, d). Inr (None, Some d))) (\<lambda>(sess, db).
      case db of None \<Rightarrow> Inl NullDeref
      | Some d \<Rightarrow> bind_res (db_Next d it) (\<lambda>it. find_session_loop e (Suc j) sid it sess d)))"
    using wc(1-3) age by (simp add: Slice_compare_lex del: find_session_loop.simps(2) add: find_session_loop.simps(2) [of e "Suc j"])
  from expiry_rel [OF rel e] obtain d1 xs1 where
    x: "session_expiry e (Some d) = Inr (SESSION_TIME_DEFAULT, Some d1)" "sess_rel (2 + n) d1 xs1 m" "evolves 1 (d, xs) (d1, xs1)"
    by blast
  have stop: "\<exists>it'. db_Next d2 it = Inr it' \<and> find_session_loop e (Suc j) sid it' sess d2 = Inr (sess, d2)"
    if ev: "evolves 1 (d1, xs1) (d2, xs2)" for d2 xs2 sess
  proof -
    have w2: "walking (d2, xs2) it ys ((?k, v) # rest)" using walking_evolves [OF walking_evolves [OF w x(3)] ev] .
    from walking_Cons(4) [OF this] obtain it' where "db_Next d2 it = Inr it'" "walking (d2, xs2) it' ys rest" by blast
    then show ?thesis using find_session_stop walking_later [OF w2] by blast
  qed
  show ?thesis
  proof (cases "a < SESSION_TIME_DEFAULT")
    case True
    show ?thesis
    proof (cases "sess_touch e sid m")
      case (Inl y)
      then show ?thesis using new_Session_rel [OF x(2) e sid] True unfolding hit x(1) spec by simp
    next
      case (Inr r)
      then obtain o' m' where r: "sess_touch e sid m = Inr (o', m')" by (cases r) auto
      from new_Session_rel [OF x(2) e sid] obtain d2 xs2 where
        d2: "new_Session e sid (Some d1) = Inr (handle sid, Some d2)" "sess_rel n d2 xs2 m'" "evolves 1 (d1, xs1) (d2, xs2)"
        "o' = Opened (Some sid)" unfolding r by auto
      from stop [OF d2(3), of "Some (handle sid)"] show ?thesis
        using True d2(1,2,4) unfolding hit x(1) spec by (auto simp: r)
    qed
  next
    case False
    have "sess_rel (1 + n) d1 xs1 m" using x(2) by (auto simp: sess_rel_def elim: kv_db_mono)
    from delete_rel [OF this sid, of "[]"] obtain d2 xs2 where
      d2: "DB_Delete OK ?k d1 = Inr (OK, d2)" "sess_rel n d2 xs2 (m(sid := (m sid)([] := None)))" "evolves 1 (d1, xs1) (d2, xs2)"
      by auto
    from stop [OF d2(3), of None] show ?thesis using False d2(1,2) e unfolding hit x(1) spec by auto
  qed
qed

lemma rest_hit:
  assumes "walking a it ys rest" and "\<forall>x \<in> set rest. key \<le> fst x" and "map_of rest key = Some v"
  shows "\<exists>rest'. rest = (key, v) # rest'"
proof (cases rest)
  case (Cons x zs)
  obtain k' v' where x: "x = (k', v')" by fastforce
  have "k' = key"
  proof (rule ccontr)
    assume "k' \<noteq> key"
    then have "\<forall>y \<in> set rest. key < fst y" using walking_later [OF assms(1) [unfolded Cons x]] assms(2) Cons x by fastforce
    then show False using assms(3) by (auto dest!: map_of_SomeD)
  qed
  then show ?thesis using Cons x assms(3) by auto
qed (use assms in simp)

lemma open_rel:
  assumes rel: "sess_rel (2 + (2 + n)) d xs m" and e: "log_status e = OK" and sid: "length sid = SESSIONID_SIZE"
  shows "case sess_spec e (OpenSession sid) m of
      Inl x \<Rightarrow> sess_do e (OpenSession sid) (Some d) = Inl x
    | Inr (x, m') \<Rightarrow> \<exists>d' xs'. sess_do e (OpenSession sid) (Some d) = Inr (x, Some d') \<and> sess_rel n d' xs' m'"
proof -
  let ?k = "lit ''s_'' @ sid"
  have k: "kv_db (2 + (2 + n) + length xs) d xs" "length ?k < 2 ^ 31" and m: "m sid [] = map_of xs ?k"
    using rel sid by (simp_all add: sess_rel_def SESSIONID_SIZE_def)
  obtain it d1 where it: "DB_NewIterator d = (it, d1)" by fastforce
  from seek_walking [OF k(1) it k(2)] obtain it' us rest where
    w: "db_Seek d1 ?k it = Inr it'" "walking (d1, xs) it' xs rest" "xs = us @ rest" "\<forall>x \<in> set us. fst x < ?k"
    "\<forall>x \<in> set rest. ?k \<le> fst x" by blast
  have rel1: "sess_rel (2 + (2 + n)) d1 xs m"
    using kv_db_evolves [of 0] k(1) new_iterator(2) [OF k(1) it] rel by (simp add: sess_rel_def)
  then have rel0: "sess_rel n d1 xs m" by (auto simp: sess_rel_def elim: kv_db_mono)
  obtain j where j: "it_fuel d1 = Suc j" "length rest \<le> j"
    using new_iterator(3) [OF k(1) it] w(3) by (cases "it_fuel d1") auto
  have do: "sess_do e (OpenSession sid) (Some d) = bind_res (find_session_loop e (it_fuel d1) sid it' None d1) (\<lambda>(s, d).
      Inr (Opened (map_option sess_id s), Some d))"
    using it w(1) by (simp add: get_session_def bind_res_assoc case_prod_unfold)
  have "map_of us ?k = None" unfolding map_of_eq_None_iff using w(4) by auto
  then have m': "m sid [] = map_of rest ?k" unfolding m w(3) map_of_append by (simp add: map_add_def)
  show ?thesis
  proof (cases "map_of rest ?k")
    case None
    then have "\<forall>x \<in> set rest. ?k < fst x" using w(5) unfolding map_of_eq_None_iff by (auto simp: order.strict_iff_order)
    from find_session_stop [OF w(2) this] show ?thesis using None m' do j(1) rel0 by auto
  next
    case (Some v)
    from rest_hit [OF w(2,5) this] obtain rest' where r: "rest = (?k, v) # rest'" by blast
    obtain j' where j': "j = Suc j'" using j(2) r by (cases j) auto
    show ?thesis
    proof (cases "session_age e v")
      case (Inl y)
      then show ?thesis using walking_Cons(1-3) [OF w(2) [unfolded r]] Some m' do j(1) by (simp add: Slice_compare_lex)
    next
      case (Inr a)
      show ?thesis
      proof (cases "a < 0")
        case True
        then show ?thesis
          using walking_Cons(1-3) [OF w(2) [unfolded r]] Some m' do j(1) Inr rel0 by (auto simp: Slice_compare_lex)
      next
        case False
        let ?spec = "if a < SESSION_TIME_DEFAULT then sess_touch e sid m else Inr (Opened None, m(sid := (m sid)([] := None)))"
        have s: "sess_spec e (OpenSession sid) m = ?spec" using Some m' Inr False by simp
        from find_session_hit [OF rel1 e sid w(2) [unfolded r] Inr _ refl, of j'] False
        show ?thesis unfolding s do j(1) j' by (auto split: sum.splits)
      qed
    qed
  qed
qed

lemma get_rel:
  assumes rel: "sess_rel n d xs m" and sid: "length sid = SESSIONID_SIZE" and small: "length k + 34 < 2 ^ 31"
  shows "\<exists>d'. sess_do e (GetValue sid k) (Some d) = Inr (Value (m sid k), Some d') \<and> sess_rel n d' xs m"
proof -
  have k: "kv_db (n + length xs) d xs" "length (lit ''s_'' @ sid @ k) < 2 ^ 31" "m sid k = map_of xs (lit ''s_'' @ sid @ k)"
    using rel sid small by (simp_all add: sess_rel_def SESSIONID_SIZE_def)
  from DataStore_get_evolves [OF k(1,2), of "[]"] obtain d' vals where
    g: "DataStore_get (lit ''s_'' @ sid @ k) (Some d) [] = Inr (m sid k, Some d', vals)" "evolves 0 (d, xs) (d', xs)"
    using k(3) by auto
  have "sess_rel n d' xs m" using kv_db_evolves [of 0] k(1) g(2) rel by (simp add: sess_rel_def)
  then show ?thesis using g(1) by (simp add: Session_GetValue_def Session_get_def)
qed

lemma destroy_rel:
  assumes rel: "sess_rel n d xs m" and e: "log_status e = OK" and sid: "length sid = SESSIONID_SIZE"
  shows "\<exists>d' xs'. sess_do e (DestroySession sid) (Some d) = Inr (Done, Some d') \<and> sess_rel n d' xs' (m(sid := Map.empty))"
proof -
  let ?p = "lit ''s_'' @ sid"
  let ?xs = "filter (\<lambda>x. \<not> prefix ?p (fst x)) xs"
  have len: "length (below ?p xs) + length ?xs = length xs" by (rule sum_length_filter_compl)
  have k: "kv_db (length (below ?p xs) + (n + length ?xs)) d xs" "length ?p < 2 ^ 31"
    using rel sid len by (simp_all add: sess_rel_def SESSIONID_SIZE_def add.left_commute)
  from DataStore_wipe_evolves [OF k e] obtain d' where
    w: "DataStore_wipe e ?p (Some d) = Inr (Some d')" "evolves (length (below ?p xs)) (d, xs) (d', ?xs)" by blast
  have mo: "map_of ?xs u = (if prefix ?p u then None else map_of xs u)" for u
    by (induction xs) auto
  have "kv_db (n + length ?xs) d' ?xs" by (rule kv_db_evolves [OF k(1) w(2)])
  then have "sess_rel n d' ?xs (m(sid := Map.empty))"
    unfolding sess_rel_def mo using rel sid exp_key(2) [of sid] by (auto simp: sess_rel_def sess_key_prefix)
  then show ?thesis using w(1) sid by (auto simp: Session_Destroy_def destroy_Session_def SESSIONID_SIZE_def)
qed

lemma fips_id_type: "length (fips_id r uid) = SESSIONID_SIZE" "\<forall>c \<in> set (fips_id r uid). is_hex c"
proof -
  have "16 \<le> length (fips_hash fips_H256 32 m)" for m by (simp add: length_fips_hash SHA256_Init_fips [symmetric] SHA256_Init_def)
  from output_hex_type [OF this] show "length (fips_id r uid) = SESSIONID_SIZE" "\<forall>c \<in> set (fips_id r uid). is_hex c"
    unfolding fips_id_def by blast+
qed

lemma sess_step_refines:
  assumes rel: "sess_rel (2 + (2 + n)) d xs m" and e: "log_status e = OK" and ok: "sess_ok st"
  shows "case sess_spec e st m of
      Inl x \<Rightarrow> sess_do e st (Some d) = Inl x
    | Inr (x, m') \<Rightarrow> \<exists>d' xs'. sess_do e st (Some d) = Inr (x, Some d') \<and> sess_rel n d' xs' m'"
proof -
  have less: "sess_rel k d xs m" if "k \<le> 2 + (2 + n)" for k using rel that by (auto simp: sess_rel_def elim: kv_db_mono)
  show ?thesis
  proof (cases st)
    case (NewSession r uid)
    have "sess_rel (2 + n) d xs m" by (rule less) simp
    from new_Session_rel [OF this e fips_id_type(1), of r uid] NewSession show ?thesis
      by (auto simp: new_session_def session_id_for_fips split: sum.splits)
  next
    case (OpenSession sid)
    show ?thesis unfolding OpenSession by (rule open_rel [OF rel e]) (use ok OpenSession in simp)
  next
    case (PutValue sid k v)
    have "sess_rel (2 + n) d xs m" by (rule less) simp
    from put_rel [OF this e, of sid k v] ok PutValue show ?thesis
      by (auto simp: Session_SetValue_def Session_put_def)
  next
    case (GetValue sid k)
    have "sess_rel n d xs m" by (rule less) simp
    from get_rel [OF this, of sid k e] ok GetValue show ?thesis by auto
  next
    case (DestroySession sid)
    have "sess_rel n d xs m" by (rule less) simp
    from destroy_rel [OF this e, of sid] ok DestroySession show ?thesis by auto
  qed
qed

lemma sess_run_refines:
  assumes "sess_rel (4 * length sts) d xs m" and "\<forall>(e, st) \<in> set sts. log_status e = OK \<and> sess_ok st"
  shows "sess_run sts (Some d) = sess_spec_run sts m"
  using assms
proof (induction sts arbitrary: d xs m)
  case (Cons x sts)
  obtain e st where x: "x = (e, st)" by fastforce
  have "4 * length (x # sts) = 2 + (2 + 4 * length sts)" by simp
  with Cons.prems(1) have rel: "sess_rel (2 + (2 + 4 * length sts)) d xs m" by (simp only:)
  have "log_status e = OK" "sess_ok st" using Cons.prems(2) x by auto
  note step = sess_step_refines [OF rel this]
  show ?case
  proof (cases "sess_spec e st m")
    case (Inl y)
    then show ?thesis using step x by simp
  next
    case (Inr r)
    then obtain y m' where r: "sess_spec e st m = Inr (y, m')" by (cases r) auto
    then obtain d' xs' where d': "sess_do e st (Some d) = Inr (y, Some d')" "sess_rel (4 * length sts) d' xs' m'"
      using step by auto
    have "sess_run sts (Some d') = sess_spec_run sts m'" using Cons.IH [OF d'(2)] Cons.prems(2) by auto
    then show ?thesis using d'(1) r x by simp
  qed
qed simp

text \<open>A run on a fresh database.\<close>

definition sessions_from :: "status \<Rightarrow> (env \<times> sess_step) list \<Rightarrow> sess_seen list res" where
  "sessions_from s sts = bind_res (DB_Open s) (\<lambda>d. sess_run sts (Some d))"

lemma sess_rel_Open:
  "DB_Open OK = Inr d \<Longrightarrow> 2 * n \<le> 2 ^ 56 - 1 \<Longrightarrow> sess_rel n d [] (\<lambda>sid. Map.empty)"
  using db_rel_Open by (fastforce simp: sess_rel_def kv_db_def)

text \<open>C37: Sessions on a fresh database refine a map from ids to maps from keys to values: creating,
  reopening and destroying sessions and reading and writing their values give what they give on
  the map, whatever the calls and their order, for ids of the size the server makes.  So values of
  different sessions never mix, a destroyed session has none left, a new id is the one computed by
  the standard hash, and a session can be reopened exactly while the age its stored time shows is
  at least 0 and below a week.  Times that do not fit the integers of the code fail in both.\<close>

theorem sessions_refine:
  assumes "\<forall>(e, st) \<in> set sts. log_status e = OK \<and> sess_ok st" and "8 * length sts \<le> 2 ^ 56 - 1"
  shows "sessions_from OK sts = sess_spec_run sts (\<lambda>sid. Map.empty)"
proof -
  obtain d where d: "DB_Open OK = Inr d" by (auto simp: DB_Open_def)
  have "sess_rel (4 * length sts) d [] (\<lambda>sid. Map.empty)" using sess_rel_Open [OF d] assms(2) by simp
  from sess_run_refines [OF this assms(1)] show ?thesis by (simp add: sessions_from_def d)
qed

theorem sessions_refine_witness:
  "let e = \<lparr>now = 1000, epoch = 0, mktime_sec = (\<lambda>n. n), log_status = OK\<rparr>; a = replicate 32 65; b = replicate 32 66;
       sts = [(e, PutValue a [1] [7]), (e, PutValue b [1] [8]), (e, GetValue a [1]), (e, OpenSession a),
         (e, DestroySession b), (e, GetValue b [1]), (e, GetValue a [1])]
   in sessions_from OK sts = Inr [Done, Done, Value (Some [7]), Opened None, Done, Value None, Value (Some [7])]"
  using sessions_refine [of "let e = \<lparr>now = 1000, epoch = 0, mktime_sec = (\<lambda>n. n), log_status = OK\<rparr>;
      a = replicate 32 65; b = replicate 32 66
    in [(e, PutValue a [1] [7]), (e, PutValue b [1] [8]), (e, GetValue a [1]), (e, OpenSession a),
         (e, DestroySession b), (e, GetValue b [1]), (e, GetValue a [1])]"]
  by (simp add: Let_def SESSIONID_SIZE_def)

text \<open>C39: The id of a new session is 32 upper case hexadecimal digits: those of the first 16
  bytes of the SHA-256 of the user id followed by the bytes of the random number.\<close>

theorem session_ids:
  "session_id_for r uid = Inr (fips_id r uid) \<and> length (fips_id r uid) = 32 \<and> list_all is_hex (fips_id r uid)"
  using session_id_for_fips fips_id_type by (auto simp: SESSIONID_SIZE_def list_all_iff)

text \<open>The documented behaviour of \<^verbatim>\<open>mktime\<close>: a number of seconds outside its range is carried over.\<close>

definition mktime_carries :: "env \<Rightarrow> bool" where
  "mktime_carries e \<longleftrightarrow> (\<forall>n. mktime_sec e n = epoch e + n)"

text \<open>C38: A session lives for a week: reopened at a later time it is found exactly while less than
  a week has passed, and not if the clock has gone back.  A session that is not found any more
  leaves its values behind: only the time at its id is deleted.\<close>

theorem session_lifetime:
  assumes "log_status e0 = OK" and "log_status e1 = OK" and "mktime_carries e1" and "epoch e1 = epoch e0"
    and "\<bar>now e0 - epoch e0\<bar> < 2 ^ 31" and "\<bar>now e1 - epoch e1\<bar> < 2 ^ 31"
    and "k \<noteq> []" and "length k + 34 < 2 ^ 31" and "length v < 2 ^ 31"
  shows "sessions_from OK [(e0, NewSession r uid), (e0, PutValue (fips_id r uid) k v), (e1, OpenSession (fips_id r uid)),
      (e1, GetValue (fips_id r uid) k)] =
    Inr [Opened (Some (fips_id r uid)), Done,
      Opened (if 0 \<le> now e1 - now e0 \<and> now e1 - now e0 < 60 * 60 * 24 * 7 then Some (fips_id r uid) else None), Value (Some v)]"
proof -
  let ?sts = "[(e0, NewSession r uid), (e0, PutValue (fips_id r uid) k v), (e1, OpenSession (fips_id r uid)),
      (e1, GetValue (fips_id r uid) k)]"
  obtain d where d: "DB_Open OK = Inr d" by (auto simp: DB_Open_def)
  have "sess_rel (4 * length ?sts) d [] (\<lambda>sid. Map.empty)" by (rule sess_rel_Open [OF d]) simp
  from sess_run_refines [OF this] have run: "sessions_from OK ?sts = sess_spec_run ?sts (\<lambda>sid. Map.empty)"
    using assms fips_id_type(1) by (simp add: sessions_from_def d)
  let ?t = "\<lambda>e. now e - epoch e"
  have t: "seconds_since_epoch e0 = Inr (?t e0)" "seconds_since_epoch e1 = Inr (?t e1)"
    using assms(5,6) by (auto simp: seconds_since_epoch_def in_i32_def)
  have "strntol (snprintf_d (?t e0)) (length (snprintf_d (?t e0))) = Inr (?t e0)"
    using strntol_printed [of "?t e0" "[]"] assms(5) by (simp add: abs_less_iff)
  then have a: "session_age e1 (lit (snprintf_d (?t e0))) = Inr (now e1 - now e0)"
    using assms(3,4) by (simp add: session_age_def mktime_carries_def)
  show ?thesis unfolding run using t a assms(7) by (simp add: sess_touch_def SESSION_TIME_DEFAULT_def)
qed

theorem session_lifetime_witness:
  "let e0 = \<lparr>now = 1000, epoch = 0, mktime_sec = (\<lambda>n. n), log_status = OK\<rparr>; e1 = e0\<lparr>now := 700000\<rparr>
   in sessions_from OK [(e0, NewSession 5 [97]), (e0, PutValue (fips_id 5 [97]) [1] [7]),
        (e1, OpenSession (fips_id 5 [97])), (e1, GetValue (fips_id 5 [97]) [1])] =
      Inr [Opened (Some (fips_id 5 [97])), Done, Opened None, Value (Some [7])]"
  using session_lifetime [of "\<lparr>now = 1000, epoch = 0, mktime_sec = (\<lambda>n. n), log_status = OK\<rparr>"
    "\<lparr>now = 700000, epoch = 0, mktime_sec = (\<lambda>n. n), log_status = OK\<rparr>" "[1]" "[7]" 5 "[97]"]
  by (simp add: mktime_carries_def)

section \<open>Cookies\<close>

lemma cookie_skip:
  assumes "0 < i" and "i \<le> n" and "n + 42 \<le> length c" and "\<forall>j < n. c ! j \<noteq> 32"
  shows "cookie_loop c i = cookie_loop c n"
  using assms(2)
proof (induction rule: inc_induct)
  case (step j)
  then have "\<not> length c - j < 42" "c ! j \<noteq> 32" "j \<noteq> 0" "j < length c" using assms by auto
  then have "cookie_loop c j = cookie_loop c (j + 1)"
    by (subst cookie_loop.simps) (simp add: sizeof_SESSIONID_STR_def SESSIONID_STR_def SESSIONID_SIZE_def)
  then show ?case using step by simp
qed simp

lemma start_mismatch:
  assumes "\<not> prefix (SESSIONID_STR @ lit ''='') pre"
  shows "take 10 (pre @ 32 # c) \<noteq> SESSIONID_STR @ lit ''=''"
proof
  assume t: "take 10 (pre @ 32 # c) = SESSIONID_STR @ lit ''=''"
  show False
  proof (cases "length pre < 10")
    case True
    then have "32 \<in> set (take 10 (pre @ 32 # c))" by (simp add: take_Cons' in_set_conv_decomp)
    moreover have "\<not> list_ex (\<lambda>b. b = 32) (SESSIONID_STR @ lit ''='')" by code_simp
    ultimately show False unfolding t by (auto simp: list_ex_iff)
  next
    case False
    then show False using t assms take_is_prefix [of 10 pre] by simp
  qed
qed

text \<open>C40: The session of a cookie header is found behind a space, and the last byte of the id may
  lie outside the header: for a header whose first cookie is another one and whose second is
  \<^verbatim>\<open>sessionid\<close>, the lookup opens the session of the first 32 bytes behind the sign, but when the
  header ends after 31 bytes it reads one byte behind the end of the string.\<close>

theorem cookie_session:
  assumes "pre \<noteq> []" and "32 \<notin> set pre" and "\<not> prefix (SESSIONID_STR @ lit ''='') pre" and "31 \<le> length sid"
  shows "get_cookie_session e (pre @ lit '' sessionid='' @ sid) (Some d) =
    (if length sid = 31 then Inl OutOfBounds else get_session e (take 32 sid) (Some d))"
proof -
  have l: "lit '' sessionid='' = 32 # SESSIONID_STR @ lit ''=''" "length SESSIONID_STR = 9" by code_simp+
  let ?c = "pre @ 32 # SESSIONID_STR @ lit ''='' @ sid"
  have first: "cookie_loop ?c 0 = cookie_loop ?c 1"
    using start_mismatch [OF assms(3), of "SESSIONID_STR @ lit ''='' @ sid"] assms(1,2,4) l(2)
    by (subst cookie_loop.simps) (cases pre; simp add: sizeof_SESSIONID_STR_def SESSIONID_SIZE_def)
  have "cookie_loop ?c 1 = cookie_loop ?c (length pre)"
    using assms l(2) by (intro cookie_skip) (auto simp: nth_append Suc_le_eq dest: nth_mem)
  also have "\<dots> = (if length sid = 31 then Inl OutOfBounds else Inr (take 32 sid))"
    using assms(4) l(2) by (subst cookie_loop.simps) (simp add: sizeof_SESSIONID_STR_def SESSIONID_SIZE_def)
  finally have "cookie_loop ?c 0 = (if length sid = 31 then Inl OutOfBounds else Inr (take 32 sid))" unfolding first .
  then show ?thesis
    using assms(4) l by (simp add: get_cookie_session_def sizeof_SESSIONID_STR_def SESSIONID_SIZE_def)
qed

theorem cookie_session_witness:
  "let e = \<lparr>now = 1000, epoch = 0, mktime_sec = (\<lambda>n. n), log_status = OK\<rparr>;
       d = \<lparr>db_mem = new_MemTable, writers_lower = 1, writers_upper = 0, last_sequence = 0, bg_error = OK, db_seed = 0\<rparr>
   in get_cookie_session e (lit ''a=b; sessionid='' @ replicate 31 65) (Some d) = Inl OutOfBounds"
proof -
  have p: "\<not> prefix (SESSIONID_STR @ lit ''='') (lit ''a=b;'')" "32 \<notin> set (lit ''a=b;'')"
    "lit ''a=b; sessionid='' = lit ''a=b;'' @ lit '' sessionid=''" by code_simp+
  show ?thesis unfolding Let_def p(3) using cookie_session [OF _ p(2,1), of "replicate 31 65"] by simp
qed

end
