(* ===== verification/Spec2Isabelle.thy ===== *)
theory Spec2Isabelle
  imports WebappString Worker Session
begin

text \<open>Header.\<close>

end
